(* ===== verification/Prelude.thy ===== *)
theory Prelude
  imports "HOL-Library.Word"
begin

text \<open>
  Shared vocabulary of the development: the C integer types as words, error numbers, the
  little-endian byte codec of the wire and flash formats, C string formatting, and the index
  arithmetic of the single-producer single-consumer rings that the firmware uses on both cores.
  The collection \<open>layout\<close> gathers evaluated layout constants; \<open>le_simps\<close> the codec laws.
\<close>

unbundle bit_operations_syntax

named_theorems layout \<open>evaluated layout constants\<close>
named_theorems le_simps \<open>laws of the little-endian codec\<close>

section \<open>Integer types and error numbers\<close>

type_synonym u8 = "8 word"
type_synonym u16 = "16 word"
type_synonym u32 = "32 word"

abbreviation EIO :: int where "EIO \<equiv> 5"
abbreviation EAGAIN :: int where "EAGAIN \<equiv> 11"
abbreviation ENOMEM :: int where "ENOMEM \<equiv> 12"
abbreviation EBUSY :: int where "EBUSY \<equiv> 16"
abbreviation ENODEV :: int where "ENODEV \<equiv> 19"
abbreviation EINVAL :: int where "EINVAL \<equiv> 22"
abbreviation ENOSPC :: int where "ENOSPC \<equiv> 28"
abbreviation ENOBUFS :: int where "ENOBUFS \<equiv> 105"
abbreviation EALREADY :: int where "EALREADY \<equiv> 120"

text \<open>The \<open>CLAMP(val, low, high)\<close> macro: the low bound is tested first.\<close>

definition clamp :: "'a::linorder \<Rightarrow> 'a \<Rightarrow> 'a \<Rightarrow> 'a" where
  "clamp v lo hi = (if v \<le> lo then lo else min v hi)"

lemma clamp_bounds: "lo \<le> hi \<Longrightarrow> lo \<le> clamp v lo hi \<and> clamp v lo hi \<le> hi"
  by (auto simp: clamp_def)

lemma clamp_id [simp]: "lo \<le> v \<Longrightarrow> v \<le> hi \<Longrightarrow> clamp v lo hi = v"
  by (auto simp: clamp_def)

section \<open>Little-endian bytes\<close>

definition le16 :: "u16 \<Rightarrow> u8 list" where
  "le16 w = [ucast w, ucast (drop_bit 8 w)]"

definition le32 :: "u32 \<Rightarrow> u8 list" where
  "le32 w = [ucast w, ucast (drop_bit 8 w), ucast (drop_bit 16 w), ucast (drop_bit 24 w)]"

fun get_le16 :: "u8 list \<Rightarrow> u16" where
  "get_le16 (a # b # _) = ucast a OR push_bit 8 (ucast b)"
| "get_le16 _ = 0"

fun get_le32 :: "u8 list \<Rightarrow> u32" where
  "get_le32 (a # b # c # d # _) =
     ucast a OR push_bit 8 (ucast b) OR push_bit 16 (ucast c) OR push_bit 24 (ucast d)"
| "get_le32 _ = 0"

lemma length_le16 [simp]: "length (le16 w) = 2"
  by (simp add: le16_def)

lemma length_le32 [simp]: "length (le32 w) = 4"
  by (simp add: le32_def)

lemma get_le16_le16 [simp, le_simps]: "get_le16 (le16 w @ r) = w"
  unfolding le16_def
  by (rule bit_word_eqI) (auto simp: bit_or_iff bit_push_bit_iff bit_ucast_iff bit_drop_bit_eq)

lemma get_le32_le32 [simp, le_simps]: "get_le32 (le32 w @ r) = w"
proof (rule bit_word_eqI)
  fix n assume "n < LENGTH(32)"
  then show "bit (get_le32 (le32 w @ r)) n = bit w n"
    by (cases "n < 8"; cases "n < 16"; cases "n < 24")
       (auto simp: le32_def bit_or_iff bit_push_bit_iff bit_ucast_iff bit_drop_bit_eq)
qed

lemma get_le16_le16' [simp, le_simps]: "get_le16 (le16 w) = w"
  using get_le16_le16 [of w "[]"] by simp

lemma get_le32_le32' [simp, le_simps]: "get_le32 (le32 w) = w"
  using get_le32_le32 [of w "[]"] by simp

lemma drop_le16 [simp]: "drop (Suc (Suc n)) (le16 w @ r) = drop n r"
  by (simp add: le16_def)

lemma drop_le32 [simp]: "drop (Suc (Suc (Suc (Suc n)))) (le32 w @ r) = drop n r"
  by (simp add: le32_def)

section \<open>Word counters\<close>

lemma unat_bound: "unat (w :: u32) < 2 ^ 32"
  using unsigned_less [of w] by simp

lemma unat_of_nat_u32: "n < 2 ^ 32 \<Longrightarrow> unat (of_nat n :: u32) = n"
  by (simp add: unat_of_nat take_bit_nat_eq_self)

lemma unat_sub_add_of_nat:
  fixes h t :: u32
  assumes "n \<le> unat (h - t)"
  shows "unat (h - (t + of_nat n)) = unat (h - t) - n"
proof -
  have "n < 2 ^ 32" using assms unat_bound [of "h - t"] by simp
  then have n: "unat (of_nat n :: u32) = n" by (simp add: unat_of_nat take_bit_nat_eq_self)
  have "of_nat n \<le> h - t" using assms n by (simp add: word_le_nat_alt)
  then have "unat ((h - t) - of_nat n) = unat (h - t) - n" using n by (simp add: unat_sub)
  then show ?thesis by (simp add: diff_diff_eq)
qed

lemma unat_succ_sub:
  fixes h t :: u32
  assumes "unat (h - t) < 2 ^ 32 - 1"
  shows "unat (h + 1 - t) = Suc (unat (h - t))"
proof -
  have "h + 1 - t = (h - t) + 1" by simp
  also have "unat \<dots> = Suc (unat (h - t))"
    using assms by (simp add: unat_word_ariths)
  finally show ?thesis .
qed

lemma word_add_diff: "t + of_nat (unat (h - t)) = (h :: u32)"
  by simp

lemma unat_add_nowrap:
  fixes a b :: u32
  assumes "unat a + unat b < 2 ^ 32"
  shows "unat (a + b) = unat a + unat b"
  using assms by (simp add: unat_word_ariths)

lemma unat_add_of_nat_nowrap:
  fixes a :: u32
  assumes "unat a + n < 2 ^ 32"
  shows "unat (a + of_nat n) = unat a + n"
  using assms by (simp add: unat_add_nowrap unat_of_nat_u32)

lemma unat_mult_nowrap:
  fixes a b :: u32
  assumes "unat a * unat b < 2 ^ 32"
  shows "unat (a * b) = unat a * unat b"
  using assms by (simp add: unat_word_ariths)

section \<open>Lists\<close>

lemma map_nth_take: "n \<le> length xs \<Longrightarrow> map ((!) xs) [0..<n] = take n xs"
  by (simp add: list_eq_iff_nth_eq)

lemma map_nth_slice: "a + n \<le> length xs \<Longrightarrow> map (\<lambda>i. xs ! (a + i)) [0..<n] = take n (drop a xs)"
  by (simp add: list_eq_iff_nth_eq)

lemma upt_map_shift: "map f [a..<a + n] = map (\<lambda>i. f (a + i)) [0..<n]"
  by (simp add: list_eq_iff_nth_eq)

text \<open>Concatenations of blocks of one width, the shape of every array of packed structs.\<close>

lemma length_concat_const:
  "(\<And>x. x \<in> set xs \<Longrightarrow> length (f x) = w) \<Longrightarrow> length (concat (map f xs)) = w * length xs"
  by (induction xs) auto

lemma nth_concat_const:
  assumes "\<And>x. length (f x) = w" and "k < length xs" and "j < w"
  shows "concat (map f xs) ! (w * k + j) = f (xs ! k) ! j"
  using assms(2)
proof (induction xs arbitrary: k)
  case Nil
  then show ?case by simp
next
  case (Cons x xs)
  then show ?case
    using assms(1,3) by (cases k) (auto simp: nth_append algebra_simps)
qed

lemma nth_concat_const_divmod:
  assumes "\<And>x. length (f x) = w" and "0 < w" and "p < w * length xs"
  shows "concat (map f xs) ! p = f (xs ! (p div w)) ! (p mod w)"
proof -
  have "p div w < length xs"
    using assms(2,3) by (simp add: less_mult_imp_div_less mult.commute)
  then show ?thesis
    using nth_concat_const [of f w "p div w" xs "p mod w"] assms(1,2) by simp
qed

lemma take_concat_const:
  "(\<And>x. length (f x) = w) \<Longrightarrow> take (w * n) (concat (map f xs)) = concat (map f (take n xs))"
proof (induction xs arbitrary: n)
  case Nil
  then show ?case by simp
next
  case (Cons x xs)
  then show ?case by (cases n) auto
qed

lemma drop_concat_const:
  "(\<And>x. length (f x) = w) \<Longrightarrow> drop (w * n) (concat (map f xs)) = concat (map f (drop n xs))"
proof (induction xs arbitrary: n)
  case Nil
  then show ?case by simp
next
  case (Cons x xs)
  then show ?case by (cases n) auto
qed

section \<open>Width changes\<close>

lemma unat_bounds: "unat (a :: u8) < 2 ^ 8" "unat (b :: u16) < 2 ^ 16"
  using unsigned_less [of a] unsigned_less [of b] by simp_all

lemma unat_ucast_up [simp]:
  "unat (ucast (a :: u8) :: u16) = unat a" "unat (ucast (a :: u8) :: u32) = unat a"
  "unat (ucast (b :: u16) :: u32) = unat b"
  using unat_bounds(1) [of a] unat_bounds(2) [of b] by (simp_all add: unsigned_ucast_eq take_bit_nat_eq_self)

lemma unat_ucast_down:
  "unat (c :: u32) < 2 ^ 8 \<Longrightarrow> unat (ucast c :: u8) = unat c"
  "unat (c :: u32) < 2 ^ 16 \<Longrightarrow> unat (ucast c :: u16) = unat c"
  "unat (b :: u16) < 2 ^ 8 \<Longrightarrow> unat (ucast b :: u8) = unat b"
  by (simp_all add: unsigned_ucast_eq take_bit_nat_eq_self)

section \<open>C string formatting\<close>

text \<open>Decimal and hexadecimal digits, as the \<open>%u\<close>, \<open>%d\<close> and \<open>%x\<close> conversions of the C library
  print them, and the field widths \<open>%5\<close> (blanks), \<open>%03\<close> and \<open>%08\<close> (zeros).\<close>

definition digit_char :: "bool \<Rightarrow> nat \<Rightarrow> char" where
  "digit_char upper d =
     (if upper then ''0123456789ABCDEF'' else ''0123456789abcdef'') ! d"

fun digits_base :: "bool \<Rightarrow> nat \<Rightarrow> nat \<Rightarrow> string" where
  "digits_base upper b n =
     (if b < 2 \<or> n < b then [digit_char upper n]
      else digits_base upper b (n div b) @ [digit_char upper (n mod b)])"

declare digits_base.simps [simp del]

definition fmt_u :: "u32 \<Rightarrow> string" where
  "fmt_u w = digits_base False 10 (unat w)"

definition fmt_d :: "int \<Rightarrow> string" where
  "fmt_d i = (if i < 0 then CHR ''-'' # digits_base False 10 (nat (- i))
              else digits_base False 10 (nat i))"

definition pad_left :: "nat \<Rightarrow> char \<Rightarrow> string \<Rightarrow> string" where
  "pad_left n c s = replicate (n - length s) c @ s"

lemma digits_base_nonempty [simp]: "digits_base u b n \<noteq> []"
  by (subst digits_base.simps) simp

lemma length_pad_left: "length (pad_left n c s) = max n (length s)"
  by (simp add: pad_left_def)

lemma fmt_u_example: "fmt_u 4294967295 = ''4294967295''"
  by (simp add: fmt_u_def digits_base.simps digit_char_def)

section \<open>Runs of a machine\<close>

text \<open>
  The contract of every event-driven module: a step function on events and states, and an invariant that
  each admissible event keeps. What a module promises for one call then holds for any sequence of them.
\<close>

locale step_invariant =
  fixes step :: "'e \<Rightarrow> 's \<Rightarrow> 's"
    and inv :: "'s \<Rightarrow> bool"
    and admissible :: "'e \<Rightarrow> bool"
  assumes keeps: "admissible e \<Longrightarrow> inv s \<Longrightarrow> inv (step e s)"
begin

lemma run_keeps: "list_all admissible es \<Longrightarrow> inv s \<Longrightarrow> inv (fold step es s)"
  by (induction es arbitrary: s) (simp_all add: keeps)

lemma run_ruled_out: "inv s \<Longrightarrow> \<not> inv (fold step es s) \<Longrightarrow> list_ex (\<lambda>e. \<not> admissible e) es"
  using run_keeps [of es s] by (auto simp: list_all_iff list_ex_iff)

end

end
