(* ===== verification/Spsc_Ring.thy ===== *)
theory Spsc_Ring
  imports Prelude
begin

text \<open>
  The firmware keeps four single-producer single-consumer rings: the shared-SRAM sample ring
  between the two cores (\<open>common/imu_shared.h\<close>), the flash staging ring (\<open>stage\<close> in
  \<open>src/imu/imu_log.c\<close>), the stream FIFO (\<open>sfifo\<close>) and the message queue (\<open>msgq\<close>) in
  \<open>src/ble/ble_transport.c\<close>. All of them keep free-running \<open>uint32_t\<close> counters and reduce them
  to a slot index only on access. This theory states what that scheme relies on and derives
  what every client uses: a push appends to, and a pop drops from, the queue the counters delimit.
\<close>

text \<open>The queued elements, oldest first, of a buffer with head \<open>h\<close> and tail \<open>t\<close>.\<close>

definition ring_contents :: "(u32 \<Rightarrow> nat) \<Rightarrow> u32 \<Rightarrow> u32 \<Rightarrow> 'a list \<Rightarrow> 'a list" where
  "ring_contents idx h t buf = map (\<lambda>i. buf ! idx (t + of_nat i)) [0..<unat (h - t)]"

text \<open>
  The interface: an index function into \<open>N\<close> slots that is injective on every window of \<open>N\<close>
  counters starting at an admissible tail. Where \<open>N\<close> divides \<open>2 ^ 32\<close> every tail is admissible;
  otherwise only windows that do not run over the wrap of the counter are.
\<close>

locale ring_index =
  fixes N :: nat
    and idx :: "u32 \<Rightarrow> nat"
    and ok :: "u32 \<Rightarrow> bool"
  assumes N_small: "N < 2 ^ 32"
    and idx_less: "idx k < N"
    and idx_inj: "ok t \<Longrightarrow> i < N \<Longrightarrow> j < N \<Longrightarrow> idx (t + of_nat i) = idx (t + of_nat j) \<Longrightarrow> i = j"
begin

lemma length_contents: "length (ring_contents idx h t buf) = unat (h - t)"
  by (simp add: ring_contents_def)

lemma contents_empty: "ring_contents idx t t buf = []"
  by (simp add: ring_contents_def)

lemma contents_peek:
  "n \<le> unat (h - t) \<Longrightarrow>
   map (\<lambda>i. buf ! idx (t + of_nat i)) [0..<n] = take n (ring_contents idx h t buf)"
  by (simp add: ring_contents_def take_map)

lemma contents_pop:
  assumes "n \<le> unat (h - t)"
  shows "ring_contents idx h (t + of_nat n) buf = drop n (ring_contents idx h t buf)"
  using assms
  by (auto simp: ring_contents_def unat_sub_add_of_nat list_eq_iff_nth_eq add.assoc)

lemma contents_update_other:
  assumes "ok t" and "unat (h - t) < N" and "length buf = N"
  shows "ring_contents idx h t (buf[idx h := x]) = ring_contents idx h t buf"
proof -
  have "idx (t + of_nat i) \<noteq> idx h" if "i < unat (h - t)" for i
  proof
    assume "idx (t + of_nat i) = idx h"
    then have "idx (t + of_nat i) = idx (t + of_nat (unat (h - t)))"
      by (simp only: word_add_diff)
    then have "i = unat (h - t)"
      using idx_inj [of t i "unat (h - t)"] assms that by simp
    with that show False by simp
  qed
  then have "idx h \<noteq> idx (t + of_nat i)" if "i < unat (h - t)" for i
    using that by metis
  then show ?thesis
    by (auto simp: ring_contents_def)
qed

lemma contents_push:
  assumes "ok t" and "unat (h - t) < N" and "length buf = N"
  shows "ring_contents idx (h + 1) t (buf[idx h := x]) = ring_contents idx h t buf @ [x]"
proof -
  have "unat (h + 1 - t) = Suc (unat (h - t))"
    using assms(2) N_small by (intro unat_succ_sub) simp
  then have "ring_contents idx (h + 1) t (buf[idx h := x]) =
      ring_contents idx h t (buf[idx h := x]) @ [buf[idx h := x] ! idx (t + of_nat (unat (h - t)))]"
    by (simp add: ring_contents_def)
  also have "t + of_nat (unat (h - t)) = h" by (rule word_add_diff)
  finally show ?thesis
    using contents_update_other [OF assms] idx_less assms(3) by simp
qed

lemma fill_push: "unat (h - t :: u32) < N \<Longrightarrow> unat (h + 1 - t) = Suc (unat (h - t))"
  by (intro unat_succ_sub) (use N_small in simp)

end

text \<open>Index functions: a mask for powers of two, a remainder in general.\<close>

lemma mod_window_inj:
  fixes N :: nat
  assumes "i < N" "j < N" "(a + i) mod N = (a + j) mod N"
  shows "i = j"
proof -
  have "int ((a + i) mod N) = int ((a + j) mod N)" using assms(3) by simp
  then have "(int a + int i) mod int N = (int a + int j) mod int N" by (simp add: zmod_int)
  then have "((int a + int i) - int a) mod int N = ((int a + int j) - int a) mod int N"
    by (rule mod_diff_cong) simp
  then show ?thesis using assms(1,2) by simp
qed

lemma unat_add_mod_dvd:
  fixes t :: u32
  assumes "N dvd 2 ^ 32"
  shows "unat (t + of_nat i) mod N = (unat t + i) mod N"
proof -
  have "unat (t + of_nat i) = (unat t + unat (of_nat i :: u32)) mod 2 ^ 32"
    by (simp add: unat_word_ariths)
  also have "\<dots> = (unat t + i) mod 2 ^ 32"
    by (simp add: unat_of_nat take_bit_eq_mod mod_add_right_eq)
  finally show ?thesis
    using assms by (simp only: mod_mod_cancel)
qed

lemma mod_idx_inj_dvd:
  fixes t :: u32
  assumes "N dvd 2 ^ 32" "i < N" "j < N"
    "unat (t + of_nat i) mod N = unat (t + of_nat j) mod N"
  shows "i = j"
  using assms mod_window_inj [of i N j "unat t"] by (simp add: unat_add_mod_dvd)

lemma mod_idx_inj_nowrap:
  fixes t :: u32
  assumes "unat t + N \<le> 2 ^ 32" "i < N" "j < N"
    "unat (t + of_nat i) mod N = unat (t + of_nat j) mod N"
  shows "i = j"
  using assms mod_window_inj [of i N j "unat t"] by (simp add: unat_add_of_nat_nowrap)

lemma unat_and_mask:
  fixes k :: u32
  shows "unat (k AND mask n) = unat k mod 2 ^ n"
proof -
  have "k AND mask n = take_bit n k" by (simp add: take_bit_eq_mask)
  then have "unat (k AND mask n) = take_bit n (unat k)"
    by (simp only: unsigned_take_bit_eq)
  then show ?thesis by (simp only: take_bit_eq_mod)
qed

text \<open>
  The overwriting rings (the record ring in flash, the tier-2 text ring) never refuse a push.
  Of an unbounded history they hold the last \<open>N\<close> elements, element \<open>k\<close> in cell \<open>k mod N\<close>.
\<close>

definition holds_last :: "nat \<Rightarrow> (nat \<Rightarrow> 'a) \<Rightarrow> 'a list \<Rightarrow> bool" where
  "holds_last N cell hist \<longleftrightarrow>
     (\<forall>k < length hist. length hist \<le> k + N \<longrightarrow> cell (k mod N) = hist ! k)"

lemma holds_last_Nil [simp]: "holds_last N cell []"
  by (simp add: holds_last_def)

lemma holds_lastD:
  "holds_last N cell hist \<Longrightarrow> k < length hist \<Longrightarrow> length hist \<le> k + N \<Longrightarrow> cell (k mod N) = hist ! k"
  by (simp add: holds_last_def)

lemma old_cell_outside:
  fixes N :: nat
  assumes "k < L" "L + n \<le> k + N" "n \<le> N - L mod N"
  shows "k mod N < L mod N \<or> L mod N + n \<le> k mod N"
proof -
  have N: "0 < N" using assms by linarith
  define c q where "c = L div N" and "q = L mod N"
  have L: "L = N * c + q" "q < N" by (auto simp: c_def q_def N)
  show ?thesis
  proof (cases "N * c \<le> k")
    case True
    then have "k mod N = k - N * c"
      using L assms(1) by (intro mod_nat_eqI) auto
    then show ?thesis using True L assms(1) by (auto simp flip: q_def)
  next
    case False
    then obtain c' where c: "c = Suc c'" by (cases c) auto
    then have "k mod N = k - N * c'"
      using False L assms(2) by (intro mod_nat_eqI) auto
    then have "q + n \<le> k mod N" using c L assms(2) by simp
    then show ?thesis by (simp add: q_def)
  qed
qed

lemma holds_last_append:
  assumes "holds_last N cell hist" "length xs \<le> N - length hist mod N"
    and new: "\<And>i. i < length xs \<Longrightarrow> cell' (length hist mod N + i) = xs ! i"
    and old: "\<And>p. p < N \<Longrightarrow> p < length hist mod N \<or> length hist mod N + length xs \<le> p \<Longrightarrow>
      cell' p = cell p"
  shows "holds_last N cell' (hist @ xs)"
  unfolding holds_last_def
proof (intro allI impI)
  fix k assume k: "k < length (hist @ xs)" "length (hist @ xs) \<le> k + N"
  show "cell' (k mod N) = (hist @ xs) ! k"
  proof (cases "k < length hist")
    case True
    then have "k mod N < length hist mod N \<or> length hist mod N + length xs \<le> k mod N"
      using k assms(2) by (intro old_cell_outside) auto
    moreover have "k mod N < N" using True k by (intro mod_less_divisor) linarith
    ultimately have "cell' (k mod N) = cell (k mod N)" by (intro old)
    also have "\<dots> = hist ! k" using assms(1) True k by (intro holds_lastD) auto
    finally show ?thesis using True by (simp add: nth_append)
  next
    case False
    define i where "i = k - length hist"
    have i: "i < length xs" "k = length hist + i" using False k by (auto simp: i_def)
    then have "length hist mod N + i < N" using assms(2) by linarith
    then have "k mod N = length hist mod N + i"
      using i by (metis mod_add_left_eq mod_less)
    then show ?thesis using i new by (simp add: nth_append)
  qed
qed

end
