(* ===== verification/Imu_Shared.thy ===== *)
theory Imu_Shared
  imports Spsc_Ring
begin

text \<open>
  The contract between the FLPR core and the application core, \<open>common/imu_shared.h\<close>: the 16-byte
  sample record, the control block and the 2048-record ring. Signed 16-bit sensor values are kept
  as 16-bit patterns.
\<close>

abbreviation IMU_SHARED_MAGIC :: u32 where "IMU_SHARED_MAGIC \<equiv> 0x494D5532"
abbreviation IMU_RING_N :: nat where "IMU_RING_N \<equiv> 2048"

abbreviation IMU_ODR_12HZ5 :: u8 where "IMU_ODR_12HZ5 \<equiv> 1"
abbreviation IMU_ODR_833HZ :: u8 where "IMU_ODR_833HZ \<equiv> 7"
abbreviation IMU_ODR_6660HZ :: u8 where "IMU_ODR_6660HZ \<equiv> 10"
abbreviation IMU_CONTENT_ACCEL :: u8 where "IMU_CONTENT_ACCEL \<equiv> 1"
abbreviation IMU_CONTENT_GYRO :: u8 where "IMU_CONTENT_GYRO \<equiv> 2"

record imu_sample =
  s_ax :: u16
  s_ay :: u16
  s_az :: u16
  s_gx :: u16
  s_gy :: u16
  s_gz :: u16
  s_temp :: u16
  s_seq16 :: u16

record imu_shared =
  magic :: u32
  flpr_version :: u32
  imu_ok :: u8
  whoami :: u8
  cfg_seq :: u32
  cfg_odr :: u8
  cfg_content :: u8
  cfg_accel_fs :: u8
  cfg_gyro_fs :: u8
  cfg_applied :: u32
  cfg_status :: int
  sh_head :: u32
  sh_tail :: u32
  overrun :: u32
  ring :: "imu_sample list"

text \<open>The bytes of a record, as the packed little-endian struct lies in memory and in flash.\<close>

definition enc_sample :: "imu_sample \<Rightarrow> u8 list" where
  "enc_sample s = le16 (s_ax s) @ le16 (s_ay s) @ le16 (s_az s) @ le16 (s_gx s) @ le16 (s_gy s)
     @ le16 (s_gz s) @ le16 (s_temp s) @ le16 (s_seq16 s)"

definition dec_sample :: "u8 list \<Rightarrow> imu_sample" where
  "dec_sample b = \<lparr>s_ax = get_le16 b, s_ay = get_le16 (drop 2 b), s_az = get_le16 (drop 4 b),
     s_gx = get_le16 (drop 6 b), s_gy = get_le16 (drop 8 b), s_gz = get_le16 (drop 10 b),
     s_temp = get_le16 (drop 12 b), s_seq16 = get_le16 (drop 14 b)\<rparr>"

lemma length_enc_sample [simp]: "length (enc_sample s) = 16"
  by (simp add: enc_sample_def)

lemma dec_enc_sample [simp]: "dec_sample (enc_sample s @ r) = s"
  by (simp add: dec_sample_def enc_sample_def eval_nat_numeral)

abbreviation zero_sample :: imu_sample where
  "zero_sample \<equiv> \<lparr>s_ax = 0, s_ay = 0, s_az = 0, s_gx = 0, s_gy = 0, s_gz = 0, s_temp = 0, s_seq16 = 0\<rparr>"

text \<open>Slot of a counter in the shared ring: \<open>ring[k & (IMU_RING_N - 1)]\<close>.\<close>

definition shared_idx :: "u32 \<Rightarrow> nat" where
  "shared_idx k = unat (k AND 2047)"

lemma shared_idx_mod: "shared_idx k = unat k mod 2048"
proof -
  have "unat (k AND mask 11) = unat k mod 2 ^ 11" by (rule unat_and_mask)
  moreover have "mask 11 = (2047 :: u32)" by (simp add: mask_eq_exp_minus_1)
  ultimately show ?thesis by (simp add: shared_idx_def)
qed

interpretation shared: ring_index IMU_RING_N shared_idx "\<lambda>_. True"
proof unfold_locales
  fix t :: u32 and i j
  assume "i < IMU_RING_N" "j < IMU_RING_N" "shared_idx (t + of_nat i) = shared_idx (t + of_nat j)"
  then show "i = j" by (intro mod_idx_inj_dvd [of IMU_RING_N i j t]) (simp_all add: shared_idx_mod)
qed (simp_all add: shared_idx_mod)

text \<open>A block in service with an empty ring, for the concrete instances.\<close>

definition blank_shared :: imu_shared where
  "blank_shared = \<lparr>magic = IMU_SHARED_MAGIC, flpr_version = 0, imu_ok = 1, whoami = 0x6B, cfg_seq = 1,
     cfg_odr = 7, cfg_content = 3, cfg_accel_fs = 0, cfg_gyro_fs = 0, cfg_applied = 1, cfg_status = 0,
     sh_head = 0, sh_tail = 0, overrun = 0, ring = replicate IMU_RING_N zero_sample\<rparr>"

end
