(* ===== verification/Imu_Sensor.thy ===== *)
theory Imu_Sensor
  imports Imu_Shared
begin

unbundle bit_operations_syntax

text \<open>
  The register-level driver of the ASM330LHHTR, \<open>flpr/src/driver_asm330lhh.c\<close>. Zephyr's SPI and
  GPIO drivers and the chip behind them are the parameter \<open>spi_bus\<close> over an unknown state \<open>'b\<close>;
  \<open>spi_laws\<close> says what the chip's data sheet promises of register accesses. The driver's own state
  is the WHO_AM_I byte, the ok flag and the data-ready semaphore (count 0 or 1).
\<close>

section \<open>The bus\<close>

record 'b spi_bus =
  spi_ready :: bool
  cs_ready :: bool
  cs_configure :: int
  int_configure :: int
  int_add_callback :: int
  int_irq_configure :: int
  spi_tx :: "'b \<Rightarrow> u8 list \<Rightarrow> int \<times> 'b"
  spi_rx :: "'b \<Rightarrow> u8 \<Rightarrow> nat \<Rightarrow> int \<times> u8 list \<times> 'b"

text \<open>
  \<open>reg b r\<close> is the chip's register \<open>r\<close>. A completed two-byte write sets it and a read leaves every
  register; a failed write changes at most the register it addresses. Calls return 0 or an error.
\<close>

definition spi_laws :: "'b spi_bus \<Rightarrow> ('b \<Rightarrow> u8 \<Rightarrow> u8) \<Rightarrow> bool" where
  "spi_laws bus reg \<longleftrightarrow>
     (\<forall>b r v ret b'. r < 0x80 \<and> spi_tx bus b [r, v] = (ret, b') \<longrightarrow>
        ret \<le> 0 \<and> (\<forall>q. q \<noteq> r \<longrightarrow> reg b' q = reg b q) \<and> (ret = 0 \<longrightarrow> reg b' r = v)) \<and>
     (\<forall>b a n ret bs b'. spi_rx bus b a n = (ret, bs, b') \<longrightarrow>
        ret \<le> 0 \<and> reg b' = reg b \<and> (ret = 0 \<longrightarrow> length bs = n))"

abbreviation REG_INT1_CTRL :: u8 where "REG_INT1_CTRL \<equiv> 0x0D"
abbreviation REG_WHO_AM_I :: u8 where "REG_WHO_AM_I \<equiv> 0x0F"
abbreviation REG_CTRL1_XL :: u8 where "REG_CTRL1_XL \<equiv> 0x10"
abbreviation REG_CTRL2_G :: u8 where "REG_CTRL2_G \<equiv> 0x11"
abbreviation REG_CTRL3_C :: u8 where "REG_CTRL3_C \<equiv> 0x12"
abbreviation REG_CTRL4_C :: u8 where "REG_CTRL4_C \<equiv> 0x13"
abbreviation REG_OUT_TEMP_L :: u8 where "REG_OUT_TEMP_L \<equiv> 0x20"
abbreviation WHO_AM_I_EXPECT :: u8 where "WHO_AM_I_EXPECT \<equiv> 0x6B"
abbreviation CTRL3_C_VAL :: u8 where "CTRL3_C_VAL \<equiv> 0x44"
abbreviation CTRL4_C_VAL :: u8 where "CTRL4_C_VAL \<equiv> 0x04"
abbreviation INT1_DRDY_XL :: u8 where "INT1_DRDY_XL \<equiv> 0x01"
abbreviation INT1_DRDY_G :: u8 where "INT1_DRDY_G \<equiv> 0x02"

definition fs_xl_bits :: "u8 list" where
  "fs_xl_bits = [0x0, 0x2, 0x3, 0x1]"

section \<open>Driver state and register access\<close>

record 'b sensor_st =
  bus :: 'b
  drv_imu_ok :: bool
  last_whoami :: u8
  drdy_sem :: bool

definition sensor_boot :: "'b \<Rightarrow> 'b sensor_st" where
  "sensor_boot b = \<lparr>bus = b, drv_imu_ok = False, last_whoami = 0, drdy_sem = False\<rparr>"

definition reg_write :: "'b spi_bus \<Rightarrow> u8 \<Rightarrow> u8 \<Rightarrow> 'b sensor_st \<Rightarrow> int \<times> 'b sensor_st" where
  "reg_write sp r v s = (let (ret, b) = spi_tx sp (bus s) [r AND 0x7F, v] in (ret, s\<lparr>bus := b\<rparr>))"

definition reg_read :: "'b spi_bus \<Rightarrow> u8 \<Rightarrow> nat \<Rightarrow> 'b sensor_st \<Rightarrow> int \<times> u8 list \<times> 'b sensor_st" where
  "reg_read sp r n s = (let (ret, bs, b) = spi_rx sp (bus s) (r OR 0x80) n in (ret, bs, s\<lparr>bus := b\<rparr>))"

definition sign_extend_pair :: "u8 \<Rightarrow> u8 \<Rightarrow> u16" where
  "sign_extend_pair l h = push_bit 8 (ucast h) OR ucast l"

definition drdy_isr :: "'b sensor_st \<Rightarrow> 'b sensor_st" where
  "drdy_isr s = s\<lparr>drdy_sem := True\<rparr>"

definition drdy_int_setup :: "'b spi_bus \<Rightarrow> int" where
  "drdy_int_setup sp =
     (if int_configure sp = 0
      then (if int_add_callback sp = 0 then int_irq_configure sp else int_add_callback sp)
      else int_configure sp)"

text \<open>The raw sample, in the order of \<open>struct asm330lhh_raw\<close>; \<open>seq16\<close> is added by the sampler.\<close>

definition raw_sample :: "u8 list \<Rightarrow> imu_sample" where
  "raw_sample raw =
     \<lparr>s_ax = sign_extend_pair (raw ! 8) (raw ! 9), s_ay = sign_extend_pair (raw ! 10) (raw ! 11),
      s_az = sign_extend_pair (raw ! 12) (raw ! 13), s_gx = sign_extend_pair (raw ! 2) (raw ! 3),
      s_gy = sign_extend_pair (raw ! 4) (raw ! 5), s_gz = sign_extend_pair (raw ! 6) (raw ! 7),
      s_temp = sign_extend_pair (raw ! 0) (raw ! 1), s_seq16 = 0\<rparr>"

definition drv_asm330lhh_read :: "'b spi_bus \<Rightarrow> 'b sensor_st \<Rightarrow> int \<times> imu_sample option \<times> 'b sensor_st" where
  "drv_asm330lhh_read sp s =
     (let (ret, raw, s1) = reg_read sp REG_OUT_TEMP_L 14 s
      in if ret < 0 then (ret, None, s1) else (0, Some (raw_sample raw), s1))"

text \<open>Taking the data-ready semaphore; what the interrupt does during the wait is the caller's.\<close>

definition drv_asm330lhh_wait_data :: "'b sensor_st \<Rightarrow> int \<times> 'b sensor_st" where
  "drv_asm330lhh_wait_data s =
     (if drdy_sem s then (0, s\<lparr>drdy_sem := False\<rparr>) else (- EAGAIN, s))"

section \<open>Initialisation\<close>

text \<open>Up to three reads of WHO_AM_I; the argument counts the attempts left.\<close>

fun whoami_retry :: "nat \<Rightarrow> 'b spi_bus \<Rightarrow> 'b sensor_st \<Rightarrow> int \<times> u8 \<times> 'b sensor_st" where
  "whoami_retry 0 sp s = (- EIO, 0, s)"
| "whoami_retry (Suc n) sp s =
     (let (ret, bs, s1) = reg_read sp REG_WHO_AM_I 1 s;
          w = (if ret = 0 then bs ! 0 else 0)
      in if ret = 0 \<and> w = WHO_AM_I_EXPECT then (0, w, s1) else whoami_retry n sp s1)"

definition drv_asm330lhh_init :: "'b spi_bus \<Rightarrow> 'b sensor_st \<Rightarrow> int \<times> 'b sensor_st" where
  "drv_asm330lhh_init sp s =
     (if \<not> spi_ready sp then (- ENODEV, s)
      else if \<not> cs_ready sp then (- ENODEV, s)
      else if cs_configure sp < 0 then (cs_configure sp, s)
      else
        let s0 = snd (snd (reg_read sp REG_WHO_AM_I 1 s));
            (ret, w, s1) = whoami_retry 3 sp s0
        in if ret < 0 then (ret, s1)
           else
             let s2 = s1\<lparr>last_whoami := w\<rparr>;
                 (ret3, s3) = reg_write sp REG_CTRL3_C CTRL3_C_VAL s2
             in if ret3 < 0 then (ret3, s3)
                else
                  let (ret4, s4) = reg_write sp REG_CTRL4_C CTRL4_C_VAL s3
                  in if ret4 < 0 then (ret4, s4)
                     else if drdy_int_setup sp < 0 then (drdy_int_setup sp, s4)
                     else (0, s4\<lparr>drv_imu_ok := True\<rparr>))"

section \<open>Configuration\<close>

definition cfg_valid :: "u8 \<Rightarrow> u8 \<Rightarrow> u8 \<Rightarrow> u8 \<Rightarrow> bool" where
  "cfg_valid odr content afs gfs \<longleftrightarrow>
     \<not> (odr < IMU_ODR_12HZ5 \<or> odr > IMU_ODR_6660HZ \<or>
        content AND NOT (IMU_CONTENT_ACCEL OR IMU_CONTENT_GYRO) \<noteq> 0 \<or> afs > 3 \<or> gfs > 3)"

definition accel_on :: "u8 \<Rightarrow> bool" where
  "accel_on content \<longleftrightarrow> content AND IMU_CONTENT_ACCEL \<noteq> 0"

definition gyro_on :: "u8 \<Rightarrow> bool" where
  "gyro_on content \<longleftrightarrow> content AND IMU_CONTENT_GYRO \<noteq> 0"

definition ctrl1_val :: "u8 \<Rightarrow> u8 \<Rightarrow> u8 \<Rightarrow> u8" where
  "ctrl1_val odr content afs =
     (if accel_on content then push_bit 4 odr OR push_bit 2 (fs_xl_bits ! unat afs) else 0)"

definition ctrl2_val :: "u8 \<Rightarrow> u8 \<Rightarrow> u8 \<Rightarrow> u8" where
  "ctrl2_val odr content gfs = (if gyro_on content then push_bit 4 odr OR push_bit 2 gfs else 0)"

definition int1_val :: "u8 \<Rightarrow> u8" where
  "int1_val content =
     (if gyro_on content then INT1_DRDY_G else if accel_on content then INT1_DRDY_XL else 0)"

definition drv_asm330lhh_configure ::
  "'b spi_bus \<Rightarrow> u8 \<Rightarrow> u8 \<Rightarrow> u8 \<Rightarrow> u8 \<Rightarrow> 'b sensor_st \<Rightarrow> int \<times> 'b sensor_st" where
  "drv_asm330lhh_configure sp odr content afs gfs s =
     (if \<not> cfg_valid odr content afs gfs then (- EINVAL, s)
      else
        let (r1, s1) = reg_write sp REG_CTRL1_XL (ctrl1_val odr content afs) s;
            (r2, s2) = (if r1 = 0 then reg_write sp REG_CTRL2_G (ctrl2_val odr content gfs) s1 else (r1, s1));
            (r3, s3) = (if r2 = 0 then reg_write sp REG_INT1_CTRL (int1_val content) s2 else (r2, s2))
        in if r3 < 0 then (r3, s3)
           else (0, (snd (snd (drv_asm330lhh_read sp s3)))\<lparr>drdy_sem := False\<rparr>))"

section \<open>What the driver programs\<close>

lemma reg_write_law:
  assumes "spi_laws sp reg" "r < 0x80" "reg_write sp r v s = (ret, s')"
  shows "ret \<le> 0 \<and> (\<forall>q. q \<noteq> r \<longrightarrow> reg (bus s') q = reg (bus s) q) \<and> (ret = 0 \<longrightarrow> reg (bus s') r = v) \<and>
    s' = s\<lparr>bus := bus s'\<rparr>"
proof -
  have r: "r AND 0x7F = r"
  proof -
    have "unat (r AND mask 7) = unat r"
      using assms(2)
      by (simp add: take_bit_eq_mask [symmetric] unsigned_take_bit_eq take_bit_nat_eq_self word_less_nat_alt)
    then have "r AND mask 7 = r" by (simp only: word_unat_eq_iff)
    moreover have "mask 7 = (0x7F :: u8)" by (simp add: mask_eq_exp_minus_1)
    ultimately show ?thesis by simp
  qed
  obtain b where b: "spi_tx sp (bus s) [r, v] = (ret, b)" "s' = s\<lparr>bus := b\<rparr>"
    using assms(3) by (auto simp: reg_write_def r split: prod.splits)
  then show ?thesis using assms(1,2) by (simp add: spi_laws_def)
qed

lemma reg_read_law:
  assumes "spi_laws sp reg" "reg_read sp r n s = (ret, bs, s')"
  shows "ret \<le> 0 \<and> reg (bus s') = reg (bus s) \<and> s' = s\<lparr>bus := bus s'\<rparr>"
proof -
  obtain b where b: "spi_rx sp (bus s) (r OR 0x80) n = (ret, bs, b)" "s' = s\<lparr>bus := b\<rparr>"
    using assms(2) by (auto simp: reg_read_def split: prod.splits)
  have "ret \<le> 0 \<and> reg b = reg (bus s)"
    using assms(1) [unfolded spi_laws_def, THEN conjunct2, rule_format, OF b(1)] by simp
  then show ?thesis using b(2) by simp
qed

lemma sensor_read_law:
  assumes "spi_laws sp reg" "drv_asm330lhh_read sp s = (ret, d, s')"
  shows "reg (bus s') = reg (bus s) \<and> s' = s\<lparr>bus := bus s'\<rparr>"
proof -
  obtain r bs s1 where "reg_read sp REG_OUT_TEMP_L 14 s = (r, bs, s1)" by (metis prod_cases3)
  then show ?thesis
    using reg_read_law [OF assms(1)] assms(2) by (auto simp: drv_asm330lhh_read_def split: if_splits)
qed

definition programmed :: "('b \<Rightarrow> u8 \<Rightarrow> u8) \<Rightarrow> 'b \<Rightarrow> u8 \<Rightarrow> u8 \<Rightarrow> u8 \<Rightarrow> u8 \<Rightarrow> bool" where
  "programmed reg b odr content afs gfs \<longleftrightarrow>
     reg b REG_CTRL1_XL = ctrl1_val odr content afs \<and> reg b REG_CTRL2_G = ctrl2_val odr content gfs \<and>
     reg b REG_INT1_CTRL = int1_val content"

text \<open>Success programs the three registers, failure and rejection leave all others alone.\<close>

lemma configure_effect:
  assumes laws: "spi_laws sp reg" and run: "drv_asm330lhh_configure sp odr content afs gfs s = (ret, s')"
  shows "ret \<le> 0 \<and>
    (\<forall>q. q \<notin> {REG_CTRL1_XL, REG_CTRL2_G, REG_INT1_CTRL} \<longrightarrow> reg (bus s') q = reg (bus s) q) \<and>
    (ret = 0 \<longrightarrow> cfg_valid odr content afs gfs \<and> programmed reg (bus s') odr content afs gfs \<and> \<not> drdy_sem s') \<and>
    (\<not> cfg_valid odr content afs gfs \<longrightarrow> ret = - EINVAL \<and> s' = s)"
proof (cases "cfg_valid odr content afs gfs")
  case False
  then show ?thesis using run by (auto simp: drv_asm330lhh_configure_def)
next
  case True
  obtain r1 s1 where w1: "reg_write sp REG_CTRL1_XL (ctrl1_val odr content afs) s = (r1, s1)" by force
  note l1 = reg_write_law [OF laws _ w1, simplified]
  show ?thesis
  proof (cases "r1 = 0")
    case False
    then show ?thesis using run True w1 l1 by (auto simp: drv_asm330lhh_configure_def Let_def)
  next
    case r1: True
    obtain r2 s2 where w2: "reg_write sp REG_CTRL2_G (ctrl2_val odr content gfs) s1 = (r2, s2)" by force
    note l2 = reg_write_law [OF laws _ w2, simplified]
    show ?thesis
    proof (cases "r2 = 0")
      case False
      then show ?thesis using run True w1 w2 l1 l2 r1 by (auto simp: drv_asm330lhh_configure_def Let_def)
    next
      case r2: True
      obtain r3 s3 where w3: "reg_write sp REG_INT1_CTRL (int1_val content) s2 = (r3, s3)" by force
      note l3 = reg_write_law [OF laws _ w3, simplified]
      obtain rr d s4 where rd: "drv_asm330lhh_read sp s3 = (rr, d, s4)" by (metis prod_cases3)
      note l4 = sensor_read_law [OF laws rd]
      show ?thesis
        using run True w1 w2 w3 rd l1 l2 l3 l4 r1 r2
        by (auto simp: drv_asm330lhh_configure_def Let_def programmed_def split: if_splits)
    qed
  qed
qed

text \<open>The register fields decode to the configuration.\<close>

lemma u8_cases:
  assumes "(x :: u8) \<le> of_nat n" "n < 256"
  shows "x \<in> of_nat ` {0..n}"
proof -
  have "unat x \<le> n" using assms by (simp add: word_le_nat_alt unat_of_nat)
  then show ?thesis by (intro image_eqI [of _ _ "unat x"]) simp_all
qed

lemma ctrl_fields:
  assumes "odr \<le> 10" "x \<le> (3 :: u8)"
  shows "drop_bit 4 (push_bit 4 odr OR push_bit 2 x) = odr \<and>
    drop_bit 2 (push_bit 4 odr OR push_bit 2 x) AND 3 = x \<and> (push_bit 4 odr OR push_bit 2 x) AND 3 = 0"
proof -
  have "odr \<in> of_nat ` {0..10}" "x \<in> of_nat ` {0..3}"
    using assms u8_cases [of odr 10] u8_cases [of x 3] by simp_all
  then obtain i j where "odr = of_nat i" "i \<le> 10" "x = of_nat j" "j \<le> 3" by auto
  moreover have "i = 0 \<or> i = 1 \<or> i = 2 \<or> i = 3 \<or> i = 4 \<or> i = 5 \<or> i = 6 \<or> i = 7 \<or> i = 8 \<or> i = 9 \<or> i = 10"
    "j = 0 \<or> j = 1 \<or> j = 2 \<or> j = 3"
    using \<open>i \<le> 10\<close> \<open>j \<le> 3\<close> by (simp_all add: eval_nat_numeral le_Suc_eq)
  ultimately show ?thesis by (elim disjE) simp_all
qed


text \<open>A chip that is its register file.\<close>

definition reg_file_bus :: "(u8 \<Rightarrow> u8) spi_bus" where
  "reg_file_bus = \<lparr>spi_ready = True, cs_ready = True, cs_configure = 0, int_configure = 0,
     int_add_callback = 0, int_irq_configure = 0,
     spi_tx = (\<lambda>b m. case m of [r, v] \<Rightarrow> (0, b(r := v)) | _ \<Rightarrow> (0, b)),
     spi_rx = (\<lambda>b a n. (0, map (\<lambda>i. b ((a AND 0x7F) + of_nat i)) [0..<n], b))\<rparr>"

lemma reg_file_laws: "spi_laws reg_file_bus (\<lambda>b. b)"
  by (auto simp: spi_laws_def reg_file_bus_def)


lemma reg_frames [simp]:
  "drv_imu_ok (snd (reg_write sp r v s)) = drv_imu_ok s"
  "last_whoami (snd (reg_write sp r v s)) = last_whoami s"
  "drv_imu_ok (snd (snd (reg_read sp r n s))) = drv_imu_ok s"
  "last_whoami (snd (snd (reg_read sp r n s))) = last_whoami s"
  "drv_imu_ok (snd (snd (drv_asm330lhh_read sp s))) = drv_imu_ok s"
  "last_whoami (snd (snd (drv_asm330lhh_read sp s))) = last_whoami s"
  by (simp_all add: reg_write_def reg_read_def drv_asm330lhh_read_def split: prod.splits)

lemma configure_frame [simp]:
  "drv_imu_ok (snd (drv_asm330lhh_configure sp odr content afs gfs s)) = drv_imu_ok s"
  "last_whoami (snd (drv_asm330lhh_configure sp odr content afs gfs s)) = last_whoami s"
  by (simp_all add: drv_asm330lhh_configure_def Let_def split_beta)

lemma whoami_retry_result:
  "whoami_retry n sp s = (ret, w, s') \<Longrightarrow> ret = 0 \<and> w = WHO_AM_I_EXPECT \<or> ret = - EIO"
  by (induction n arbitrary: s) (auto simp: Let_def split: prod.splits if_splits)

text \<open>Initialisation succeeds only on the right chip, and records its identity.\<close>

lemma init_identifies:
  assumes "drv_asm330lhh_init sp s = (0, s')"
  shows "drv_imu_ok s' \<and> last_whoami s' = WHO_AM_I_EXPECT"
proof -
  let ?s0 = "snd (snd (reg_read sp REG_WHO_AM_I 1 s))"
  obtain r w s1 where w: "whoami_retry 3 sp ?s0 = (r, w, s1)" by (metis prod_cases3)
  define s3 where "s3 = snd (reg_write sp REG_CTRL3_C CTRL3_C_VAL (s1\<lparr>last_whoami := w\<rparr>))"
  have r: "\<not> r < 0" and s': "s' = (snd (reg_write sp REG_CTRL4_C CTRL4_C_VAL s3))\<lparr>drv_imu_ok := True\<rparr>"
    using assms w by (auto simp: drv_asm330lhh_init_def Let_def split_beta s3_def split: if_splits)
  have "w = WHO_AM_I_EXPECT" using r whoami_retry_result [OF w] by auto
  then show ?thesis by (simp add: s' s3_def)
qed

end
