(* ===== verification/Flpr_Sampler.thy ===== *)
theory Flpr_Sampler
  imports Imu_Sensor
begin

text \<open>
  The firmware of the FLPR coprocessor, \<open>flpr/src/main.c\<close>: boot, the sampling loop and the
  configuration handshake with the application core. One pass of the loop is \<open>flpr_loop\<close>; the
  handshake is also given as a step relation in which the two cores interleave at every access to
  the shared block.
\<close>

section \<open>The program\<close>

record 'b flpr_st =
  sensor :: "'b sensor_st"
  sampled :: u32
  since_cfg_poll :: u32

abbreviation CFG_POLL_INTERVAL :: u32 where "CFG_POLL_INTERVAL \<equiv> 32"

definition apply_config ::
  "'b spi_bus \<Rightarrow> imu_shared \<times> 'b sensor_st \<Rightarrow> imu_shared \<times> 'b sensor_st" where
  "apply_config sp s =
     (let (sh, sn) = s; sq = cfg_seq sh
      in if sq = cfg_applied sh then (sh, sn)
         else
           let (ret, sn') = drv_asm330lhh_configure sp (cfg_odr sh) (cfg_content sh)
                 (cfg_accel_fs sh) (cfg_gyro_fs sh) sn
           in (sh\<lparr>cfg_status := ret, cfg_applied := sq\<rparr>, sn'))"

text \<open>
  \<open>main\<close> up to the loop. The result is the return value that decides between sampling and parking;
  the version word comes from the file \<open>flpr/VERSION\<close>.
\<close>

definition flpr_boot ::
  "u32 \<Rightarrow> 'b spi_bus \<Rightarrow> imu_shared \<times> 'b sensor_st \<Rightarrow> int \<times> imu_shared \<times> 'b sensor_st" where
  "flpr_boot ver sp s =
     (let (sh0, sn0) = s;
          sh = sh0\<lparr>magic := 0, sh_head := 0, sh_tail := 0, overrun := 0, cfg_applied := 0, cfg_status := 0,
                   cfg_odr := IMU_ODR_833HZ, cfg_content := 0, cfg_accel_fs := 0, cfg_gyro_fs := 0,
                   cfg_seq := 1\<rparr>;
          (r1, sn1) = drv_asm330lhh_init sp sn0;
          (ret, sn) = (if r1 = 0
             then drv_asm330lhh_configure sp (cfg_odr sh) (cfg_content sh) (cfg_accel_fs sh) (cfg_gyro_fs sh) sn1
             else (r1, sn1))
      in (ret, sh\<lparr>cfg_applied := cfg_seq sh, cfg_status := ret, imu_ok := if ret = 0 then 1 else 0,
                  whoami := last_whoami sn, flpr_version := ver, magic := IMU_SHARED_MAGIC\<rparr>, sn))"

text \<open>The ring slot and the counters for one sample that was read; \<open>k\<close> is the number of reads.\<close>

definition flpr_publish :: "imu_sample \<Rightarrow> u32 \<Rightarrow> imu_shared \<Rightarrow> imu_shared" where
  "flpr_publish d k sh =
     (if sh_head sh - sh_tail sh \<ge> of_nat IMU_RING_N then sh\<lparr>overrun := overrun sh + 1\<rparr>
      else sh\<lparr>ring := (ring sh)[shared_idx (sh_head sh) := d\<lparr>s_seq16 := ucast k\<rparr>],
              sh_head := sh_head sh + 1\<rparr>)"

text \<open>One pass of the loop; data-ready is the semaphore the interrupt gives.\<close>

definition flpr_loop :: "'b spi_bus \<Rightarrow> imu_shared \<times> 'b flpr_st \<Rightarrow> imu_shared \<times> 'b flpr_st" where
  "flpr_loop sp s =
     (let (sh, st) = s; (w, sn) = drv_asm330lhh_wait_data (sensor st)
      in if w \<noteq> 0 then
           (let (sh', sn') = apply_config sp (sh, sn) in (sh', st\<lparr>sensor := sn'\<rparr>))
         else
           let since = since_cfg_poll st + 1;
               (since', sh1, sn1) = (if since \<ge> CFG_POLL_INTERVAL
                  then (let (a, b) = apply_config sp (sh, sn) in (0, a, b)) else (since, sh, sn));
               (ret, d, sn2) = drv_asm330lhh_read sp sn1
           in case d of
                None \<Rightarrow> (sh1, st\<lparr>sensor := sn2, since_cfg_poll := since'\<rparr>)
              | Some x \<Rightarrow> (flpr_publish x (sampled st + 1) sh1,
                          st\<lparr>sensor := sn2, since_cfg_poll := since', sampled := sampled st + 1\<rparr>))"

section \<open>Boot\<close>

text \<open>After the FLPR has booted, the application may trust the shared block: the magic is set, the
  ring is empty, the boot configuration is marked applied, and if the sensor came up it is powered
  down (nothing samples before a consumer asks) and identified; if not, \<open>imu_ok\<close> is 0 and
  \<open>cfg_status\<close> carries the error.\<close>

theorem flpr_boot_state:
  assumes laws: "spi_laws sp reg" and run: "flpr_boot ver sp (sh0, sn0) = (ret, sh, sn)"
  shows "magic sh = IMU_SHARED_MAGIC \<and> sh_head sh = 0 \<and> sh_tail sh = 0 \<and> overrun sh = 0 \<and>
    cfg_applied sh = cfg_seq sh \<and> cfg_content sh = 0 \<and> cfg_status sh = ret \<and>
    (imu_ok sh = 1 \<longleftrightarrow> ret = 0) \<and> flpr_version sh = ver \<and>
    (ret = 0 \<longrightarrow> whoami sh = WHO_AM_I_EXPECT \<and> drv_imu_ok sn \<and> reg (bus sn) REG_CTRL1_XL = 0 \<and>
       reg (bus sn) REG_CTRL2_G = 0 \<and> reg (bus sn) REG_INT1_CTRL = 0)"
proof -
  obtain r1 sn1 where i: "drv_asm330lhh_init sp sn0 = (r1, sn1)" by force
  define r2 sn2 where "r2 = fst (drv_asm330lhh_configure sp IMU_ODR_833HZ 0 0 0 sn1)"
    and "sn2 = snd (drv_asm330lhh_configure sp IMU_ODR_833HZ 0 0 0 sn1)"
  have c: "drv_asm330lhh_configure sp IMU_ODR_833HZ 0 0 0 sn1 = (r2, sn2)"
    by (simp add: r2_def sn2_def)
  have ret: "ret = (if r1 = 0 then r2 else r1)" "sn = (if r1 = 0 then sn2 else sn1)"
    and sh: "magic sh = IMU_SHARED_MAGIC" "sh_head sh = 0" "sh_tail sh = 0" "overrun sh = 0"
      "cfg_applied sh = cfg_seq sh" "cfg_content sh = 0" "cfg_status sh = ret" "imu_ok sh = 1 \<longleftrightarrow> ret = 0"
      "flpr_version sh = ver" "whoami sh = last_whoami sn"
    using run by (auto simp: flpr_boot_def i c Let_def split: if_splits)
  have "whoami sh = WHO_AM_I_EXPECT \<and> drv_imu_ok sn \<and> reg (bus sn) REG_CTRL1_XL = 0 \<and>
       reg (bus sn) REG_CTRL2_G = 0 \<and> reg (bus sn) REG_INT1_CTRL = 0" if "ret = 0"
  proof -
    have z: "r1 = 0" "r2 = 0" "sn = sn2" using that ret by (auto split: if_splits)
    then have "drv_imu_ok sn1 \<and> last_whoami sn1 = WHO_AM_I_EXPECT" using init_identifies i by blast
    then have "drv_imu_ok sn2 \<and> last_whoami sn2 = WHO_AM_I_EXPECT" by (simp add: sn2_def)
    moreover have "programmed reg (bus sn2) IMU_ODR_833HZ 0 0 0" using configure_effect [OF laws c] z by simp
    ultimately show ?thesis
      using z sh by (simp add: programmed_def ctrl1_val_def ctrl2_val_def int1_val_def accel_on_def gyro_on_def)
  qed
  then show ?thesis using sh by simp
qed

lemma reg_file_init:
  "drv_asm330lhh_init reg_file_bus (sensor_boot ((\<lambda>_. 0)(REG_WHO_AM_I := WHO_AM_I_EXPECT))) =
   (0, \<lparr>bus = (\<lambda>_. 0)(REG_WHO_AM_I := WHO_AM_I_EXPECT, REG_CTRL3_C := CTRL3_C_VAL, REG_CTRL4_C := CTRL4_C_VAL),
       drv_imu_ok = True, last_whoami = WHO_AM_I_EXPECT, drdy_sem = False\<rparr>)"
  by (simp add: drv_asm330lhh_init_def reg_file_bus_def reg_read_def reg_write_def sensor_boot_def
      drdy_int_setup_def Let_def eval_nat_numeral)

theorem flpr_boot_state_witness:
  "\<exists>sh sn. flpr_boot 0x00010203 reg_file_bus (blank_shared, sensor_boot ((\<lambda>_. 0)(REG_WHO_AM_I := WHO_AM_I_EXPECT))) =
     (0, sh, sn) \<and> imu_ok sh = 1 \<and> whoami sh = WHO_AM_I_EXPECT \<and> bus sn REG_CTRL2_G = 0"
proof -
  obtain ret sh sn where run: "flpr_boot 0x00010203 reg_file_bus
      (blank_shared, sensor_boot ((\<lambda>_. 0)(REG_WHO_AM_I := WHO_AM_I_EXPECT))) = (ret, sh, sn)"
    by (metis prod_cases3)
  then have "ret = 0"
    by (simp add: flpr_boot_def reg_file_init Let_def split_beta)
       (simp add: drv_asm330lhh_configure_def cfg_valid_def reg_write_def reg_file_bus_def Let_def split_beta)
  then show ?thesis using flpr_boot_state [OF reg_file_laws run] run by simp
qed

section \<open>The configuration handshake, interleaved\<close>

text \<open>
  The application core writes the four fields one by one and then bumps \<open>cfg_seq\<close>
  (\<open>session_imu_run_update\<close>); the FLPR reads \<open>cfg_seq\<close>, then the fields one by one, programs the
  sensor, and echoes the number it read (\<open>apply_config\<close>). \<open>AWrite n c\<close> has \<open>n\<close> fields written;
  \<open>FRead q vs\<close> has read the number \<open>q\<close> and the fields \<open>vs\<close>.
\<close>

fun cfg_field :: "nat \<Rightarrow> imu_shared \<Rightarrow> u8" where
  "cfg_field 0 sh = cfg_odr sh"
| "cfg_field (Suc 0) sh = cfg_content sh"
| "cfg_field (Suc (Suc 0)) sh = cfg_accel_fs sh"
| "cfg_field (Suc (Suc (Suc _))) sh = cfg_gyro_fs sh"

fun put_cfg_field :: "nat \<Rightarrow> u8 \<Rightarrow> imu_shared \<Rightarrow> imu_shared" where
  "put_cfg_field 0 v sh = sh\<lparr>cfg_odr := v\<rparr>"
| "put_cfg_field (Suc 0) v sh = sh\<lparr>cfg_content := v\<rparr>"
| "put_cfg_field (Suc (Suc 0)) v sh = sh\<lparr>cfg_accel_fs := v\<rparr>"
| "put_cfg_field (Suc (Suc (Suc _))) v sh = sh\<lparr>cfg_gyro_fs := v\<rparr>"

datatype app_pc = AIdle | AWrite nat "u8 list"
datatype flpr_pc = FIdle | FRead u32 "u8 list" | FAck u32

record 'b hs_st =
  hs_sh :: imu_shared
  hs_sn :: "'b sensor_st"
  hs_app :: app_pc
  hs_flpr :: flpr_pc

inductive hs_step :: "'b spi_bus \<Rightarrow> 'b hs_st \<Rightarrow> 'b hs_st \<Rightarrow> bool" for sp where
  app_begin: "hs_app s = AIdle \<Longrightarrow> length c = 4 \<Longrightarrow> hs_step sp s (s\<lparr>hs_app := AWrite 0 c\<rparr>)"
| app_write: "hs_app s = AWrite n c \<Longrightarrow> n < 4 \<Longrightarrow>
    hs_step sp s (s\<lparr>hs_sh := put_cfg_field n (c ! n) (hs_sh s), hs_app := AWrite (Suc n) c\<rparr>)"
| app_bump: "hs_app s = AWrite 4 c \<Longrightarrow> unat (cfg_seq (hs_sh s)) + 1 < 2 ^ 32 \<Longrightarrow>
    hs_step sp s (s\<lparr>hs_sh := (hs_sh s)\<lparr>cfg_seq := cfg_seq (hs_sh s) + 1\<rparr>, hs_app := AIdle\<rparr>)"
| flpr_poll: "hs_flpr s = FIdle \<Longrightarrow> cfg_seq (hs_sh s) \<noteq> cfg_applied (hs_sh s) \<Longrightarrow>
    hs_step sp s (s\<lparr>hs_flpr := FRead (cfg_seq (hs_sh s)) []\<rparr>)"
| flpr_fetch: "hs_flpr s = FRead q vs \<Longrightarrow> length vs < 4 \<Longrightarrow>
    hs_step sp s (s\<lparr>hs_flpr := FRead q (vs @ [cfg_field (length vs) (hs_sh s)])\<rparr>)"
| flpr_program: "hs_flpr s = FRead q [a, b, c, d] \<Longrightarrow>
    drv_asm330lhh_configure sp a b c d (hs_sn s) = (ret, sn') \<Longrightarrow>
    hs_step sp s (s\<lparr>hs_sh := (hs_sh s)\<lparr>cfg_status := ret\<rparr>, hs_sn := sn', hs_flpr := FAck q\<rparr>)"
| flpr_ack: "hs_flpr s = FAck q \<Longrightarrow>
    hs_step sp s (s\<lparr>hs_sh := (hs_sh s)\<lparr>cfg_applied := q\<rparr>, hs_flpr := FIdle\<rparr>)"
| flpr_sample: "hs_flpr s = FIdle \<Longrightarrow> drv_asm330lhh_read sp (hs_sn s) = (r, x, sn') \<Longrightarrow>
    hs_step sp s (s\<lparr>hs_sn := sn'\<rparr>)"
| drdy_irq: "hs_step sp s (s\<lparr>hs_sn := drdy_isr (hs_sn s)\<rparr>)"

abbreviation hs_run :: "'b spi_bus \<Rightarrow> 'b hs_st \<Rightarrow> 'b hs_st \<Rightarrow> bool" where
  "hs_run sp \<equiv> (hs_step sp)\<^sup>*\<^sup>*"

text \<open>The chip runs what the shared block publishes.\<close>

definition runs_published :: "('b \<Rightarrow> u8 \<Rightarrow> u8) \<Rightarrow> 'b sensor_st \<Rightarrow> imu_shared \<Rightarrow> bool" where
  "runs_published reg sn sh \<longleftrightarrow>
     programmed reg (bus sn) (cfg_odr sh) (cfg_content sh) (cfg_accel_fs sh) (cfg_gyro_fs sh)"

definition hs_inv :: "('b \<Rightarrow> u8 \<Rightarrow> u8) \<Rightarrow> 'b hs_st \<Rightarrow> bool" where
  "hs_inv reg s \<longleftrightarrow>
     (let sh = hs_sh s; quiet = (hs_app s = AIdle)
      in cfg_applied sh \<le> cfg_seq sh \<and>
         (case hs_flpr s of
            FIdle \<Rightarrow> quiet \<and> cfg_applied sh = cfg_seq sh \<and> cfg_status sh = 0 \<longrightarrow> runs_published reg (hs_sn s) sh
          | FRead q vs \<Rightarrow> cfg_applied sh < q \<and> q \<le> cfg_seq sh \<and>
              (quiet \<and> q = cfg_seq sh \<longrightarrow> (\<forall>i < length vs. vs ! i = cfg_field i sh))
          | FAck q \<Rightarrow> cfg_applied sh < q \<and> q \<le> cfg_seq sh \<and>
              (quiet \<and> q = cfg_seq sh \<and> cfg_status sh = 0 \<longrightarrow> runs_published reg (hs_sn s) sh)))"

lemma put_cfg_field_frame [simp]:
  "cfg_seq (put_cfg_field n v sh) = cfg_seq sh" "cfg_applied (put_cfg_field n v sh) = cfg_applied sh"
  "cfg_status (put_cfg_field n v sh) = cfg_status sh"
  by (cases "(n, v, sh)" rule: put_cfg_field.cases; simp)+

lemma cfg_field_frame [simp]:
  "cfg_field n (sh\<lparr>cfg_status := r\<rparr>) = cfg_field n sh" "cfg_field n (sh\<lparr>cfg_applied := q\<rparr>) = cfg_field n sh"
  by (cases "(n, sh)" rule: cfg_field.cases; simp)+

lemma seq_bump:
  fixes q :: u32
  assumes "unat q + 1 < 2 ^ 32"
  shows "q < q + 1 \<and> (\<forall>p. p \<le> q \<longrightarrow> p \<le> q + 1 \<and> p \<noteq> q + 1)"
  using assms by (auto simp: word_less_nat_alt word_le_nat_alt unat_word_ariths)

lemma hs_step_inv:
  assumes laws: "spi_laws sp reg" and "hs_step sp s s'" "hs_inv reg s"
  shows "hs_inv reg s'"
  using assms(2,3)
proof (induction rule: hs_step.induct)
  case (app_bump s c)
  then show ?case
    using seq_bump [OF app_bump(2)] by (auto simp: hs_inv_def Let_def split: flpr_pc.splits)
next
  case (flpr_poll s)
  then show ?case by (auto simp: hs_inv_def Let_def)
next
  case (flpr_fetch s q vs)
  then show ?case by (auto simp: hs_inv_def Let_def nth_append less_Suc_eq)
next
  case (flpr_program s q a b c d ret sn')
  have "runs_published reg sn' (hs_sh s)"
    if "hs_app s = AIdle" "q = cfg_seq (hs_sh s)" "ret = 0"
  proof -
    have all: "\<forall>i < 4. [a, b, c, d] ! i = cfg_field i (hs_sh s)"
      using flpr_program(1,3) that by (simp add: hs_inv_def Let_def)
    then have "a = cfg_odr (hs_sh s)" "b = cfg_content (hs_sh s)" "c = cfg_accel_fs (hs_sh s)" "d = cfg_gyro_fs (hs_sh s)"
      using all [rule_format, of 0] all [rule_format, of 1] all [rule_format, of 2] all [rule_format, of 3]
      by (simp_all add: eval_nat_numeral)
    then show ?thesis
      using configure_effect [OF laws flpr_program(2)] that(3) by (simp add: runs_published_def)
  qed
  then show ?case using flpr_program(1,3) by (auto simp: hs_inv_def Let_def runs_published_def)
next
  case (flpr_ack s q)
  then show ?case by (auto simp: hs_inv_def Let_def runs_published_def)
next
  case (flpr_sample s r x sn')
  then show ?case
    using sensor_read_law [OF laws flpr_sample(2)]
    by (auto simp: hs_inv_def Let_def runs_published_def programmed_def)
next
  case (drdy_irq s)
  then show ?case
    by (auto simp: hs_inv_def Let_def runs_published_def drdy_isr_def split: flpr_pc.splits)
qed (auto simp: hs_inv_def Let_def split: flpr_pc.splits)

lemma hs_run_inv:
  assumes "spi_laws sp reg" "hs_run sp s s'" "hs_inv reg s"
  shows "hs_inv reg s'"
  using assms(2,3) by (induction rule: rtranclp_induct) (auto intro: hs_step_inv [OF assms(1)])

text \<open>The state the FLPR's boot leaves, with both cores between operations.\<close>

definition hs_start :: "imu_shared \<Rightarrow> 'b sensor_st \<Rightarrow> 'b hs_st" where
  "hs_start sh sn = \<lparr>hs_sh = sh, hs_sn = sn, hs_app = AIdle, hs_flpr = FIdle\<rparr>"

lemma boot_hs_inv:
  assumes laws: "spi_laws sp reg" and run: "flpr_boot ver sp (sh0, sn0) = (ret, sh, sn)"
  shows "hs_inv reg (hs_start sh sn)"
proof -
  obtain r1 sn1 where i: "drv_asm330lhh_init sp sn0 = (r1, sn1)" by force
  obtain r2 sn2 where c: "drv_asm330lhh_configure sp IMU_ODR_833HZ 0 0 0 sn1 = (r2, sn2)" by force
  have sh: "cfg_applied sh = cfg_seq sh" "cfg_odr sh = IMU_ODR_833HZ" "cfg_content sh = 0"
    "cfg_accel_fs sh = 0" "cfg_gyro_fs sh = 0"
    "cfg_status sh = 0 \<longrightarrow> r1 = 0 \<and> r2 = 0 \<and> sn = sn2"
    using run by (auto simp: flpr_boot_def i c Let_def split: if_splits)
  then show ?thesis
    using configure_effect [OF laws c]
    by (simp add: hs_inv_def hs_start_def Let_def runs_published_def)
qed


text \<open>The steps of the FLPR, run without interruption, are \<open>apply_config\<close>.\<close>

lemma hs_fetch_all:
  assumes "hs_flpr s = FRead q []"
  shows "hs_run sp s (s\<lparr>hs_flpr := FRead q [cfg_odr (hs_sh s), cfg_content (hs_sh s),
      cfg_accel_fs (hs_sh s), cfg_gyro_fs (hs_sh s)]\<rparr>)"
proof -
  let ?f = "\<lambda>vs. s\<lparr>hs_flpr := FRead q vs\<rparr>"
  have st: "hs_step sp (?f vs) (?f (vs @ [cfg_field (length vs) (hs_sh s)]))" if "length vs < 4" for vs
    using hs_step.flpr_fetch [of "?f vs" q vs sp] that by simp
  have "hs_run sp (?f []) (?f [cfg_odr (hs_sh s), cfg_content (hs_sh s), cfg_accel_fs (hs_sh s), cfg_gyro_fs (hs_sh s)])"
    using st [of "[]"] st [of "[cfg_odr (hs_sh s)]"] st [of "[cfg_odr (hs_sh s), cfg_content (hs_sh s)]"]
      st [of "[cfg_odr (hs_sh s), cfg_content (hs_sh s), cfg_accel_fs (hs_sh s)]"]
    by (simp add: eval_nat_numeral)
  moreover have "?f [] = s" using assms by simp
  ultimately show ?thesis by simp
qed

lemma apply_config_run:
  assumes "hs_flpr s = FIdle" "apply_config sp (hs_sh s, hs_sn s) = (sh', sn')"
  shows "hs_run sp s (s\<lparr>hs_sh := sh', hs_sn := sn'\<rparr>)"
proof (cases "cfg_seq (hs_sh s) = cfg_applied (hs_sh s)")
  case True
  then have "s\<lparr>hs_sh := sh', hs_sn := sn'\<rparr> = s" using assms(2) by (simp add: apply_config_def)
  then show ?thesis by simp
next
  case False
  let ?q = "cfg_seq (hs_sh s)"
  let ?vs = "[cfg_odr (hs_sh s), cfg_content (hs_sh s), cfg_accel_fs (hs_sh s), cfg_gyro_fs (hs_sh s)]"
  obtain ret sn1 where c: "drv_asm330lhh_configure sp (cfg_odr (hs_sh s)) (cfg_content (hs_sh s))
      (cfg_accel_fs (hs_sh s)) (cfg_gyro_fs (hs_sh s)) (hs_sn s) = (ret, sn1)" by force
  let ?s1 = "s\<lparr>hs_flpr := FRead ?q []\<rparr>" and ?s2 = "s\<lparr>hs_flpr := FRead ?q ?vs\<rparr>"
  let ?s3 = "s\<lparr>hs_sh := (hs_sh s)\<lparr>cfg_status := ret\<rparr>, hs_sn := sn1, hs_flpr := FAck ?q\<rparr>"
  have 1: "hs_step sp s ?s1" by (rule hs_step.flpr_poll [OF assms(1) False])
  have 2: "hs_run sp ?s1 ?s2" using hs_fetch_all [of ?s1 ?q sp] by simp
  have 3: "hs_step sp ?s2 ?s3"
    using hs_step.flpr_program [of ?s2 ?q _ _ _ _ sp ret sn1] c by simp
  have ack: "hs_flpr ?s3 = FAck ?q" by simp
  have eq: "?s3\<lparr>hs_sh := (hs_sh ?s3)\<lparr>cfg_applied := ?q\<rparr>, hs_flpr := FIdle\<rparr> = s\<lparr>hs_sh := sh', hs_sn := sn'\<rparr>"
    using assms c False by (cases s) (auto simp: apply_config_def)
  have 4: "hs_step sp ?s3 (s\<lparr>hs_sh := sh', hs_sn := sn'\<rparr>)"
    using hs_step.flpr_ack [OF ack, of sp] unfolding eq .
  show ?thesis
    using 1 2 3 4 by (meson converse_rtranclp_into_rtranclp rtranclp.rtrancl_into_rtrancl)
qed

text \<open>The steps of the application, run without interruption, publish a configuration.\<close>

definition publish_cfg :: "u8 \<Rightarrow> u8 \<Rightarrow> u8 \<Rightarrow> u8 \<Rightarrow> imu_shared \<Rightarrow> imu_shared" where
  "publish_cfg odr content afs gfs sh =
     sh\<lparr>cfg_odr := odr, cfg_content := content, cfg_accel_fs := afs, cfg_gyro_fs := gfs,
        cfg_seq := cfg_seq sh + 1\<rparr>"

lemma publish_cfg_run:
  assumes "hs_app s = AIdle" "unat (cfg_seq (hs_sh s)) + 1 < 2 ^ 32"
  shows "hs_run sp s (s\<lparr>hs_sh := publish_cfg a b c d (hs_sh s)\<rparr>)"
proof -
  let ?v = "[a, b, c, d]" and ?h = "hs_sh s"
  let ?s0 = "s\<lparr>hs_app := AWrite 0 ?v\<rparr>"
  let ?s1 = "s\<lparr>hs_sh := put_cfg_field 0 a ?h, hs_app := AWrite 1 ?v\<rparr>"
  let ?s2 = "s\<lparr>hs_sh := put_cfg_field 1 b (put_cfg_field 0 a ?h), hs_app := AWrite 2 ?v\<rparr>"
  let ?s3 = "s\<lparr>hs_sh := put_cfg_field 2 c (put_cfg_field 1 b (put_cfg_field 0 a ?h)), hs_app := AWrite 3 ?v\<rparr>"
  let ?s4 = "s\<lparr>hs_sh := put_cfg_field 3 d (put_cfg_field 2 c (put_cfg_field 1 b (put_cfg_field 0 a ?h))),
      hs_app := AWrite 4 ?v\<rparr>"
  have 0: "hs_step sp s ?s0" using assms(1) by (intro hs_step.app_begin) simp_all
  have 1: "hs_step sp ?s0 ?s1" "hs_step sp ?s1 ?s2" "hs_step sp ?s2 ?s3" "hs_step sp ?s3 ?s4"
    using hs_step.app_write [of ?s0 0 ?v sp] hs_step.app_write [of ?s1 1 ?v sp]
      hs_step.app_write [of ?s2 2 ?v sp] hs_step.app_write [of ?s3 3 ?v sp]
    by (simp_all add: eval_nat_numeral)
  have e: "s\<lparr>hs_sh := h, hs_app := AIdle\<rparr> = s\<lparr>hs_sh := h\<rparr>" for h using assms(1) by (cases s) simp
  have "(put_cfg_field 3 d (put_cfg_field 2 c (put_cfg_field 1 b (put_cfg_field 0 a ?h))))
      \<lparr>cfg_seq := cfg_seq ?h + 1\<rparr> = publish_cfg a b c d ?h"
    by (simp add: publish_cfg_def eval_nat_numeral)
  then have 5: "hs_step sp ?s4 (s\<lparr>hs_sh := publish_cfg a b c d ?h\<rparr>)"
    using hs_step.app_bump [of ?s4 ?v sp] assms(2) e by simp
  show ?thesis
    using 0 1 5 by (meson converse_rtranclp_into_rtranclp r_into_rtranclp)
qed

lemma reg_file_configure:
  "cfg_valid odr content afs gfs \<Longrightarrow> fst (drv_asm330lhh_configure reg_file_bus odr content afs gfs s) = 0"
  by (simp add: drv_asm330lhh_configure_def reg_write_def reg_file_bus_def Let_def split_beta)


end
