(* ===== verification/Flash.thy ===== *)
theory Flash
  imports Prelude
begin

text \<open>
  The flash controller of the application core, as the log and the settings store use it: Zephyr's
  \<open>device_is_ready\<close>, \<open>flash_read\<close> and \<open>flash_write\<close>. The driver is not part of the repository, so
  it is a parameter of the model: a record of functions over an unknown medium state \<open>'f\<close>.
  \<open>flash_laws\<close>, \<open>flash_readable\<close> and \<open>flash_writable\<close> name what Zephyr documents of it.
\<close>

record 'f flash_dev =
  fd_ready :: bool
  fd_read :: "'f \<Rightarrow> nat \<Rightarrow> nat \<Rightarrow> int \<times> u8 list"
  fd_write :: "'f \<Rightarrow> nat \<Rightarrow> u8 list \<Rightarrow> int \<times> 'f"

text \<open>
  A call returns 0 or a negative error. A read that returns 0 delivers the bytes of the medium.
  A write changes no byte outside its range, whatever it returns, and has stored its data when it
  returns 0; a failed or interrupted write may leave anything inside its range.
\<close>

definition flash_laws :: "'f flash_dev \<Rightarrow> ('f \<Rightarrow> nat \<Rightarrow> u8) \<Rightarrow> bool" where
  "flash_laws fd img \<longleftrightarrow>
     (\<forall>f a n bs. fd_read fd f a n = (0, bs) \<longrightarrow> bs = map (img f) [a..<a + n]) \<and>
     (\<forall>f a n. fst (fd_read fd f a n) \<le> 0) \<and>
     (\<forall>f a bs r f'. fd_write fd f a bs = (r, f') \<longrightarrow>
        r \<le> 0 \<and> (\<forall>x. x < a \<or> a + length bs \<le> x \<longrightarrow> img f' x = img f x) \<and>
        (r = 0 \<longrightarrow> (\<forall>i < length bs. img f' (a + i) = bs ! i)))"

text \<open>Reads, respectively writes, that stay inside \<open>[lo, hi)\<close> succeed.\<close>

definition flash_readable :: "'f flash_dev \<Rightarrow> nat \<Rightarrow> nat \<Rightarrow> bool" where
  "flash_readable fd lo hi \<longleftrightarrow>
     (\<forall>f a n. lo \<le> a \<and> a + n \<le> hi \<longrightarrow> fst (fd_read fd f a n) = 0)"

definition flash_writable :: "'f flash_dev \<Rightarrow> nat \<Rightarrow> nat \<Rightarrow> bool" where
  "flash_writable fd lo hi \<longleftrightarrow>
     (\<forall>f a bs. lo \<le> a \<and> a + length bs \<le> hi \<longrightarrow> fst (fd_write fd f a bs) = 0)"

lemma flash_readD:
  assumes "flash_laws fd img" "fd_read fd f a n = (0, bs)"
  shows "bs = map (img f) [a..<a + n]"
  using assms(1) [unfolded flash_laws_def, THEN conjunct1, rule_format, OF assms(2)] .

lemma flash_read_le0:
  assumes "flash_laws fd img" "fd_read fd f a n = (r, bs)"
  shows "r \<le> 0"
  using assms(1) [unfolded flash_laws_def, THEN conjunct2, THEN conjunct1, rule_format, of f a n]
    assms(2) by simp

lemma flash_write_law:
  assumes "flash_laws fd img" "fd_write fd f a bs = (r, f')"
  shows "r \<le> 0 \<and> (\<forall>x. x < a \<or> a + length bs \<le> x \<longrightarrow> img f' x = img f x) \<and>
    (r = 0 \<longrightarrow> (\<forall>i < length bs. img f' (a + i) = bs ! i))"
  using assms(1) [unfolded flash_laws_def, THEN conjunct2, THEN conjunct2, rule_format, OF assms(2)]
  by simp

lemma flash_write_le0: "flash_laws fd img \<Longrightarrow> fd_write fd f a bs = (r, f') \<Longrightarrow> r \<le> 0"
  by (drule (1) flash_write_law) simp

lemma flash_write_outside:
  "flash_laws fd img \<Longrightarrow> fd_write fd f a bs = (r, f') \<Longrightarrow> x < a \<or> a + length bs \<le> x \<Longrightarrow>
   img f' x = img f x"
  by (drule (1) flash_write_law) auto

lemma flash_write_inside:
  "flash_laws fd img \<Longrightarrow> fd_write fd f a bs = (0, f') \<Longrightarrow> i < length bs \<Longrightarrow> img f' (a + i) = bs ! i"
  by (drule (1) flash_write_law) simp

lemma reliable_read:
  assumes "flash_laws fd img" "flash_readable fd lo hi" "lo \<le> a" "a + n \<le> hi"
  shows "fd_read fd f a n = (0, map (img f) [a..<a + n])"
proof -
  obtain r bs where r: "fd_read fd f a n = (r, bs)" by force
  then have "r = 0" using assms(2-4) unfolding flash_readable_def by (metis fst_conv)
  then show ?thesis using r flash_readD [OF assms(1)] by simp
qed

lemma reliable_write:
  assumes "flash_writable fd lo hi" "lo \<le> a" "a + length bs \<le> hi"
  shows "fd_write fd f a bs = (0, snd (fd_write fd f a bs))"
  using assms unfolding flash_writable_def by (metis prod.collapse)

text \<open>The bytes a successful write leaves, as a window of the medium.\<close>

definition flash_window :: "('f \<Rightarrow> nat \<Rightarrow> u8) \<Rightarrow> 'f \<Rightarrow> nat \<Rightarrow> nat \<Rightarrow> u8 list" where
  "flash_window img f a n = map (img f) [a..<a + n]"

lemma length_flash_window [simp]: "length (flash_window img f a n) = n"
  by (simp add: flash_window_def)

lemma flash_window_nth [simp]: "i < n \<Longrightarrow> flash_window img f a n ! i = img f (a + i)"
  by (simp add: flash_window_def)

lemma flash_window_eqI:
  "(\<And>x. a \<le> x \<Longrightarrow> x < a + n \<Longrightarrow> img f x = img f' x) \<Longrightarrow>
   flash_window img f a n = flash_window img f' a n"
  by (simp add: flash_window_def)

lemma flash_window_written:
  "flash_laws fd img \<Longrightarrow> fd_write fd f a bs = (0, f') \<Longrightarrow> flash_window img f' a (length bs) = bs"
  by (auto simp: list_eq_iff_nth_eq flash_write_inside)

lemma flash_window_untouched:
  "flash_laws fd img \<Longrightarrow> fd_write fd f b bs = (r, f') \<Longrightarrow> a + n \<le> b \<or> b + length bs \<le> a \<Longrightarrow>
   flash_window img f' a n = flash_window img f a n"
  by (intro flash_window_eqI, erule (1) flash_write_outside) auto

text \<open>A medium that is plain memory of the RRAM's extent satisfies them; the witnesses run on it.\<close>

definition ram_patch :: "(nat \<Rightarrow> u8) \<Rightarrow> nat \<Rightarrow> u8 list \<Rightarrow> nat \<Rightarrow> u8" where
  "ram_patch m a bs x = (if a \<le> x \<and> x < a + length bs then bs ! (x - a) else m x)"

definition ram_flash :: "(nat \<Rightarrow> u8) flash_dev" where
  "ram_flash = \<lparr>fd_ready = True,
     fd_read = (\<lambda>m a n. if a + n \<le> 0x165000 then (0, map m [a..<a + n]) else (- EINVAL, [])),
     fd_write = (\<lambda>m a bs. if a + length bs \<le> 0x165000 then (0, ram_patch m a bs) else (- EINVAL, m))\<rparr>"

lemma ram_flash_laws: "flash_laws ram_flash (\<lambda>m. m)"
  by (auto simp: flash_laws_def ram_flash_def ram_patch_def split: if_splits)

lemma ram_flash_readable: "flash_readable ram_flash lo 0x165000"
  by (auto simp: flash_readable_def ram_flash_def)

lemma ram_flash_writable: "flash_writable ram_flash lo 0x165000"
  by (auto simp: flash_writable_def ram_flash_def)

lemma ram_flash_ready: "fd_ready ram_flash"
  by (simp add: ram_flash_def)

text \<open>A faulty medium: the first \<open>k\<close> writes fail without effect, all later ones stop after \<open>t\<close> bytes.\<close>

definition faulty_flash :: "nat \<Rightarrow> ((nat \<Rightarrow> u8) \<times> nat) flash_dev" where
  "faulty_flash t = \<lparr>fd_ready = True,
     fd_read = (\<lambda>(m, k) a n. (0, map m [a..<a + n])),
     fd_write = (\<lambda>(m, k) a bs. (- EIO, if 0 < k then (m, k - 1) else (ram_patch m a (take t bs), 0)))\<rparr>"

lemma faulty_flash_laws: "flash_laws (faulty_flash t) fst"
  by (auto simp: flash_laws_def faulty_flash_def ram_patch_def split: if_splits)

lemma faulty_flash_readable: "flash_readable (faulty_flash t) lo hi"
  by (auto simp: flash_readable_def faulty_flash_def)

end
