(* ===== verification/Messages.thy ===== *)
theory Messages
  imports Spsc_Ring
begin

text \<open>
  The message channel of \<open>src/ble/ble_transport.c\<close>: every warning line goes into a queue of four
  lines for the TX thread (0xFFEC) and, stamped with the uptime, into the 2 KB tier-2 text ring
  that 0xFFF0 reads. The uptime is \<open>k_uptime_get()\<close>, milliseconds since boot.
\<close>

abbreviation MSGQ_N :: nat where "MSGQ_N \<equiv> 4"
abbreviation MSG_LEN :: nat where "MSG_LEN \<equiv> 120"
abbreviation T2_RING_SIZE :: nat where "T2_RING_SIZE \<equiv> 2048"

record msg_st =
  msgq :: "string list"
  msgq_head :: u32
  msgq_tail :: u32
  t2_ring :: string
  t2_head :: u32

definition msg_boot :: msg_st where
  "msg_boot = \<lparr>msgq = replicate MSGQ_N [], msgq_head = 0, msgq_tail = 0,
     t2_ring = replicate T2_RING_SIZE (CHR 0x00), t2_head = 0\<rparr>"

text \<open>Slots: \<open>msgq[k % MSGQ_N]\<close> and \<open>t2_ring[k % T2_RING_SIZE]\<close>.\<close>

definition msgq_idx :: "u32 \<Rightarrow> nat" where
  "msgq_idx k = unat k mod MSGQ_N"

interpretation msgs: ring_index MSGQ_N msgq_idx "\<lambda>_. True"
proof unfold_locales
  fix t :: u32 and i j
  assume "i < MSGQ_N" "j < MSGQ_N" "msgq_idx (t + of_nat i) = msgq_idx (t + of_nat j)"
  then show "i = j" by (intro mod_idx_inj_dvd [of MSGQ_N i j t]) (simp_all add: msgq_idx_def)
qed (simp_all add: msgq_idx_def)

section \<open>The tier-2 ring\<close>

text \<open>\<open>snprintf(stamped, 136, "[%5lld.%03lld] %s\n", up / 1000, up % 1000, line)\<close>, cut to 135.\<close>

definition t2_stamp :: "int \<Rightarrow> string \<Rightarrow> string" where
  "t2_stamp up line =
     take (MSG_LEN + 16 - 1)
       (''['' @ pad_left 5 CHR '' '' (fmt_d (up div 1000)) @ ''.'' @
        pad_left 3 CHR ''0'' (fmt_d (up mod 1000)) @ ''] '' @ line @ [CHR 0x0A])"

definition t2_put :: "char \<Rightarrow> msg_st \<Rightarrow> msg_st" where
  "t2_put c m = m\<lparr>t2_ring := (t2_ring m)[unat (t2_head m) mod T2_RING_SIZE := c],
                  t2_head := t2_head m + 1\<rparr>"

definition t2_store :: "int \<Rightarrow> string \<Rightarrow> msg_st \<Rightarrow> msg_st" where
  "t2_store up line m = fold t2_put (t2_stamp up line) m"

definition ble_transport_t2_snapshot :: "u32 \<Rightarrow> msg_st \<Rightarrow> string" where
  "ble_transport_t2_snapshot mx m =
     (let used = min (min (t2_head m) (of_nat T2_RING_SIZE)) mx;
          start = t2_head m - used
      in map (\<lambda>i. t2_ring m ! (unat (start + of_nat i) mod T2_RING_SIZE)) [0..<unat used])"

section \<open>Posting a line\<close>

text \<open>
  \<open>text\<close> is the line \<open>vsnprintf\<close> would print without a limit; the buffer keeps 119 characters of
  it. Nothing is posted for an empty line.
\<close>

definition ble_msg :: "int \<Rightarrow> string \<Rightarrow> msg_st \<Rightarrow> msg_st" where
  "ble_msg up text m =
     (if text = [] then m
      else
        let line = take (MSG_LEN - 1) text;
            m' = t2_store up line m
        in if msgq_head m' - msgq_tail m' < of_nat MSGQ_N
           then m'\<lparr>msgq := (msgq m')[msgq_idx (msgq_head m') := line],
                   msgq_head := msgq_head m' + 1\<rparr>
           else m')"

text \<open>The lines waiting to be sent, oldest first.\<close>

definition msgq_lines :: "msg_st \<Rightarrow> string list" where
  "msgq_lines m = ring_contents msgq_idx (msgq_head m) (msgq_tail m) (msgq m)"

definition msg_inv :: "msg_st \<Rightarrow> bool" where
  "msg_inv m \<longleftrightarrow> length (msgq m) = MSGQ_N \<and> unat (msgq_head m - msgq_tail m) \<le> MSGQ_N \<and>
     length (t2_ring m) = T2_RING_SIZE"

text \<open>The ring against the whole text ever stamped.\<close>

definition t2_rel :: "msg_st \<Rightarrow> string \<Rightarrow> bool" where
  "t2_rel m hist \<longleftrightarrow> length (t2_ring m) = T2_RING_SIZE \<and> unat (t2_head m) = length hist \<and>
     holds_last T2_RING_SIZE (\<lambda>i. t2_ring m ! i) hist"

lemma t2_put_frame [simp]:
  "msgq (t2_put c m) = msgq m" "msgq_head (t2_put c m) = msgq_head m"
  "msgq_tail (t2_put c m) = msgq_tail m" "length (t2_ring (t2_put c m)) = length (t2_ring m)"
  by (simp_all add: t2_put_def)

lemma t2_store_frame [simp]:
  "msgq (t2_store up line m) = msgq m" "msgq_head (t2_store up line m) = msgq_head m"
  "msgq_tail (t2_store up line m) = msgq_tail m"
  "length (t2_ring (t2_store up line m)) = length (t2_ring m)"
proof -
  have "msgq (fold t2_put cs m) = msgq m \<and> msgq_head (fold t2_put cs m) = msgq_head m \<and>
      msgq_tail (fold t2_put cs m) = msgq_tail m \<and>
      length (t2_ring (fold t2_put cs m)) = length (t2_ring m)" for cs
    by (induction cs arbitrary: m) auto
  then show "msgq (t2_store up line m) = msgq m" "msgq_head (t2_store up line m) = msgq_head m"
    "msgq_tail (t2_store up line m) = msgq_tail m"
    "length (t2_ring (t2_store up line m)) = length (t2_ring m)"
    by (simp_all add: t2_store_def)
qed

lemma t2_put_rel:
  assumes "t2_rel m hist" "length hist < 2 ^ 32 - 1"
  shows "t2_rel (t2_put c m) (hist @ [c])"
proof -
  have "unat (t2_head m + 1) = Suc (length hist)"
    using assms by (simp add: t2_rel_def unat_word_ariths)
  moreover have "holds_last T2_RING_SIZE (\<lambda>i. t2_ring (t2_put c m) ! i) (hist @ [c])"
    using assms(1)
    by (intro holds_last_append [where cell = "\<lambda>i. t2_ring m ! i"])
       (auto simp: t2_rel_def t2_put_def Suc_leI)
  ultimately show ?thesis
    using assms(1) by (simp add: t2_rel_def) (simp add: t2_put_def)
qed

lemma fold_t2_put_rel:
  "t2_rel m hist \<Longrightarrow> length hist + length cs < 2 ^ 32 \<Longrightarrow> t2_rel (fold t2_put cs m) (hist @ cs)"
proof (induction cs arbitrary: m hist)
  case Nil
  then show ?case by simp
next
  case (Cons c cs)
  then have "t2_rel (t2_put c m) (hist @ [c])" by (intro t2_put_rel) auto
  then show ?case using Cons.IH [of "t2_put c m" "hist @ [c]"] Cons.prems(2) by simp
qed

lemma ble_msg_inv: "msg_inv m \<Longrightarrow> msg_inv (ble_msg up text m)"
  by (auto simp: ble_msg_def msg_inv_def Let_def word_less_nat_alt msgs.fill_push)

lemma ble_msg_t2_rel:
  assumes "t2_rel m hist" "text \<noteq> []" "length hist + (MSG_LEN + 16) < 2 ^ 32"
  shows "t2_rel (ble_msg up text m) (hist @ t2_stamp up (take (MSG_LEN - 1) text))"
proof -
  have "t2_rel (t2_store up (take (MSG_LEN - 1) text) m) (hist @ t2_stamp up (take (MSG_LEN - 1) text))"
    unfolding t2_store_def
    using assms by (intro fold_t2_put_rel) (auto simp: t2_stamp_def)
  then show ?thesis
    using assms(2) by (auto simp: ble_msg_def Let_def t2_rel_def)
qed

lemma snapshot_rel:
  assumes "t2_rel m hist"
  shows "ble_transport_t2_snapshot mx m =
    drop (length hist - min (min (length hist) T2_RING_SIZE) (unat mx)) hist"
proof -
  define used where "used = min (min (t2_head m) (of_nat T2_RING_SIZE)) mx"
  have len: "unat (t2_head m) = length hist" and small: "length hist < 2 ^ 32"
    using assms unat_bound [of "t2_head m"] by (auto simp: t2_rel_def)
  have used: "unat used = min (min (length hist) T2_RING_SIZE) (unat mx)"
    using len by (simp add: used_def min_def word_le_nat_alt)
  have start: "unat (t2_head m - used) = length hist - unat used"
    using used len by (subst unat_sub) (auto simp: word_le_nat_alt)
  have "t2_ring m ! (unat (t2_head m - used + of_nat i) mod T2_RING_SIZE) =
      hist ! (length hist - unat used + i)" if i: "i < unat used" for i
  proof -
    have k: "length hist - unat used + i < length hist" "length hist - unat used + T2_RING_SIZE \<ge> length hist"
      using i used by arith+
    have "unat (t2_head m - used + of_nat i) = length hist - unat used + i"
      using start k small by (subst unat_add_of_nat_nowrap) auto
    moreover have "holds_last T2_RING_SIZE (\<lambda>i. t2_ring m ! i) hist"
      using assms by (simp add: t2_rel_def)
    ultimately show ?thesis
      using k used i by (simp only:) (rule holds_lastD, linarith+)
  qed
  then have "ble_transport_t2_snapshot mx m =
      map (\<lambda>i. hist ! (length hist - unat used + i)) [0..<unat used]"
    unfolding ble_transport_t2_snapshot_def Let_def used_def [symmetric] by (intro map_cong) auto
  also have "\<dots> = drop (length hist - unat used) hist"
    using used by (simp add: list_eq_iff_nth_eq)
  finally show ?thesis by (simp only: used)
qed

end
