(* ===== verification/Settings_Store.thy ===== *)
theory Settings_Store
  imports Flash Spsc_Ring
begin

text \<open>
  The persisted settings registry: the generated table \<open>src/settings/settings_gen.h\<close> and the
  two-slot store \<open>src/settings/settings_store.c\<close>. The record in RAM is \<open>rec\<close>; the delayable work
  item is \<open>persist_pending\<close>. Zephyr's \<open>crc32_ieee\<close> is the parameter \<open>crc32\<close>.
\<close>

section \<open>The registry\<close>

abbreviation SETTING_MOTOR_FREQ_HZ :: u8 where "SETTING_MOTOR_FREQ_HZ \<equiv> 1"
abbreviation SETTING_MOTOR_VDC_MV :: u8 where "SETTING_MOTOR_VDC_MV \<equiv> 2"
abbreviation SETTING_IMU_ODR_CODE :: u8 where "SETTING_IMU_ODR_CODE \<equiv> 3"
abbreviation SETTING_IMU_CONTENT :: u8 where "SETTING_IMU_CONTENT \<equiv> 4"
abbreviation SETTING_IMU_ACCEL_FS :: u8 where "SETTING_IMU_ACCEL_FS \<equiv> 5"
abbreviation SETTING_IMU_GYRO_FS :: u8 where "SETTING_IMU_GYRO_FS \<equiv> 6"
abbreviation SETTING_PREVIEW_HZ :: u8 where "SETTING_PREVIEW_HZ \<equiv> 7"
abbreviation SETTING_LED_ENABLED :: u8 where "SETTING_LED_ENABLED \<equiv> 8"
abbreviation SETTING_ROBOT_ID :: u8 where "SETTING_ROBOT_ID \<equiv> 9"
abbreviation SETTINGS_MAX_ID :: nat where "SETTINGS_MAX_ID \<equiv> 9"

record setting_meta =
  sm_id :: u8
  sm_name :: string
  sm_def :: u16
  sm_min :: u16
  sm_max :: u16

definition settings_table :: "setting_meta list" where
  "settings_table =
    [\<lparr>sm_id = 1, sm_name = ''motor_freq_hz'', sm_def = 150, sm_min = 4, sm_max = 1000\<rparr>,
     \<lparr>sm_id = 2, sm_name = ''motor_vdc_mv'', sm_def = 3100, sm_min = 750, sm_max = 4200\<rparr>,
     \<lparr>sm_id = 3, sm_name = ''imu_odr_code'', sm_def = 7, sm_min = 1, sm_max = 10\<rparr>,
     \<lparr>sm_id = 4, sm_name = ''imu_content'', sm_def = 3, sm_min = 1, sm_max = 3\<rparr>,
     \<lparr>sm_id = 5, sm_name = ''imu_accel_fs'', sm_def = 0, sm_min = 0, sm_max = 3\<rparr>,
     \<lparr>sm_id = 6, sm_name = ''imu_gyro_fs'', sm_def = 0, sm_min = 0, sm_max = 3\<rparr>,
     \<lparr>sm_id = 7, sm_name = ''preview_hz'', sm_def = 0, sm_min = 0, sm_max = 6660\<rparr>,
     \<lparr>sm_id = 8, sm_name = ''led_enabled'', sm_def = 1, sm_min = 0, sm_max = 1\<rparr>,
     \<lparr>sm_id = 9, sm_name = ''robot_id'', sm_def = 0, sm_min = 0, sm_max = 20\<rparr>]"

definition meta_for :: "u8 \<Rightarrow> setting_meta option" where
  "meta_for i = find (\<lambda>m. sm_id m = i) settings_table"

section \<open>The stored record\<close>

abbreviation STORE_BASE :: u32 where "STORE_BASE \<equiv> 0x164000"
abbreviation SLOT_SIZE :: u32 where "SLOT_SIZE \<equiv> 256"
abbreviation STORE_MAGIC :: u32 where "STORE_MAGIC \<equiv> 0x54455343"

definition slot_addr :: "u32 \<Rightarrow> nat" where
  "slot_addr i = unat (STORE_BASE + i * SLOT_SIZE)"

record store_rec =
  st_magic :: u32
  generation :: u32
  "values" :: "u16 list"
  crc :: u32

text \<open>The packed struct: the bytes the CRC covers, then the CRC.\<close>

definition enc_body :: "store_rec \<Rightarrow> u8 list" where
  "enc_body r = le32 (st_magic r) @ le32 (generation r) @ concat (map le16 (values r))"

definition enc_rec :: "store_rec \<Rightarrow> u8 list" where
  "enc_rec r = enc_body r @ le32 (crc r)"

definition dec_rec :: "u8 list \<Rightarrow> store_rec" where
  "dec_rec b = \<lparr>st_magic = get_le32 b, generation = get_le32 (drop 4 b),
     values = map (\<lambda>i. get_le16 (drop (8 + 2 * i) b)) [0..<10], crc = get_le32 (drop 28 b)\<rparr>"

abbreviation REC_BYTES :: nat where "REC_BYTES \<equiv> 32"

definition rec_crc :: "(u8 list \<Rightarrow> u32) \<Rightarrow> store_rec \<Rightarrow> u32" where
  "rec_crc crc32 r = crc32 (enc_body r)"

record settings_st =
  rec :: store_rec
  loaded :: bool
  persist_pending :: bool

definition settings_boot :: settings_st where
  "settings_boot = \<lparr>rec = \<lparr>st_magic = 0, generation = 0, values = replicate 10 0, crc = 0\<rparr>,
     loaded = False, persist_pending = False\<rparr>"

section \<open>Operations\<close>

definition load_defaults :: "store_rec \<Rightarrow> store_rec" where
  "load_defaults r =
     r\<lparr>values := fold (\<lambda>m vs. vs[unat (sm_id m) := sm_def m]) settings_table (replicate 10 0),
       st_magic := STORE_MAGIC, generation := 0\<rparr>"

definition clamp_loaded :: "u16 list \<Rightarrow> u16 list" where
  "clamp_loaded vs =
     fold (\<lambda>m vs. let v = vs ! unat (sm_id m)
                  in if v < sm_min m \<or> v > sm_max m then vs[unat (sm_id m) := sm_def m] else vs)
       settings_table vs"

text \<open>One slot as the boot code reads it: its record, if the read, the magic and the CRC agree.\<close>

definition read_slot :: "(u8 list \<Rightarrow> u32) \<Rightarrow> 'f flash_dev \<Rightarrow> 'f \<Rightarrow> u32 \<Rightarrow> store_rec option" where
  "read_slot crc32 fd f i =
     (let (r, b) = fd_read fd f (slot_addr i) REC_BYTES; a = dec_rec b
      in if r = 0 \<and> st_magic a = STORE_MAGIC \<and> crc a = rec_crc crc32 a then Some a else None)"

definition settings_store_init ::
  "(u8 list \<Rightarrow> u32) \<Rightarrow> 'f flash_dev \<Rightarrow> 'f \<Rightarrow> settings_st \<Rightarrow> settings_st" where
  "settings_store_init crc32 fd f st =
     (if \<not> fd_ready fd then st\<lparr>rec := load_defaults (rec st), loaded := True\<rparr>
      else
        let chosen = (case (read_slot crc32 fd f 0, read_slot crc32 fd f 1) of
              (Some a, Some b) \<Rightarrow> if generation a \<ge> generation b then Some a else Some b
            | (Some a, None) \<Rightarrow> Some a
            | (None, Some b) \<Rightarrow> Some b
            | (None, None) \<Rightarrow> None)
        in case chosen of
             None \<Rightarrow> st\<lparr>rec := load_defaults (rec st), loaded := True\<rparr>
           | Some r \<Rightarrow> st\<lparr>rec := r\<lparr>values := clamp_loaded (values r)\<rparr>, loaded := True\<rparr>)"

definition settings_max :: "u8 \<Rightarrow> u16" where
  "settings_max i = (case meta_for i of Some m \<Rightarrow> sm_max m | None \<Rightarrow> 0)"

definition settings_get :: "u8 \<Rightarrow> settings_st \<Rightarrow> u16" where
  "settings_get i st =
     (case meta_for i of
        None \<Rightarrow> 0
      | Some m \<Rightarrow> if \<not> loaded st then sm_def m else values (rec st) ! unat i)"

definition settings_set :: "u8 \<Rightarrow> u16 \<Rightarrow> settings_st \<Rightarrow> settings_st" where
  "settings_set i v st =
     (case meta_for i of
        None \<Rightarrow> st
      | Some m \<Rightarrow>
          if \<not> loaded st then st
          else let v' = clamp v (sm_min m) (sm_max m)
               in if values (rec st) ! unat i = v' then st
                  else st\<lparr>rec := (rec st)\<lparr>values := (values (rec st))[unat i := v']\<rparr>,
                          persist_pending := True\<rparr>)"

text \<open>
  The work item, in two parts, because another thread may call \<open>settings_set\<close> while the flash
  driver waits for its radio timeslot: the generation step with the CRC, then the write.
\<close>

definition persist_prepare :: "(u8 list \<Rightarrow> u32) \<Rightarrow> settings_st \<Rightarrow> settings_st" where
  "persist_prepare crc32 st =
     (let r = (rec st)\<lparr>generation := generation (rec st) + 1\<rparr>
      in st\<lparr>rec := r\<lparr>crc := rec_crc crc32 r\<rparr>, persist_pending := False\<rparr>)"

definition persist_write :: "'f flash_dev \<Rightarrow> settings_st \<Rightarrow> 'f \<Rightarrow> int \<times> 'f" where
  "persist_write fd st f = fd_write fd f (slot_addr (generation (rec st) mod 2)) (enc_rec (rec st))"

definition persist_work_fn ::
  "(u8 list \<Rightarrow> u32) \<Rightarrow> 'f flash_dev \<Rightarrow> settings_st \<times> 'f \<Rightarrow> settings_st \<times> 'f" where
  "persist_work_fn crc32 fd s =
     (let st = persist_prepare crc32 (fst s) in (st, snd (persist_write fd st (snd s))))"

section \<open>Registry facts\<close>

definition settings_ok :: "settings_st \<Rightarrow> bool" where
  "settings_ok st \<longleftrightarrow> loaded st \<and> length (values (rec st)) = 10 \<and>
     (\<forall>m \<in> set settings_table.
        sm_min m \<le> values (rec st) ! unat (sm_id m) \<and> values (rec st) ! unat (sm_id m) \<le> sm_max m)"

lemma table_ids: "distinct (map (\<lambda>m. unat (sm_id m)) settings_table)"
  by (simp add: settings_table_def)

lemma table_entry:
  "m \<in> set settings_table \<Longrightarrow>
   unat (sm_id m) < 10 \<and> sm_min m \<le> sm_def m \<and> sm_def m \<le> sm_max m"
  by (auto simp: settings_table_def)

lemma meta_for_Some: "meta_for i = Some m \<Longrightarrow> m \<in> set settings_table \<and> sm_id m = i"
  by (auto simp: meta_for_def find_Some_iff)

text \<open>A pass over a table with distinct indices updates each entry independently.\<close>

lemma length_fold_update [simp]: "length (fold (\<lambda>m vs. vs[k m := g m vs]) ms vs) = length vs"
  by (induction ms arbitrary: vs) auto

lemma fold_update_other:
  "j \<notin> k ` set ms \<Longrightarrow> fold (\<lambda>m vs. vs[k m := g m (vs ! k m)]) ms vs ! j = vs ! j"
  by (induction ms arbitrary: vs) auto

lemma fold_update_distinct:
  assumes "distinct (map k ms)" "\<forall>m \<in> set ms. k m < length vs" "m \<in> set ms"
  shows "fold (\<lambda>m vs. vs[k m := g m (vs ! k m)]) ms vs ! k m = g m (vs ! k m)"
  using assms
proof (induction ms arbitrary: vs)
  case Nil
  then show ?case by simp
next
  case (Cons a ms)
  show ?case
  proof (cases "m = a")
    case True
    then show ?thesis using Cons.prems by (simp add: fold_update_other)
  next
    case False
    then have "m \<in> set ms" "k a \<noteq> k m" using Cons.prems by auto
    then show ?thesis using Cons.prems by (simp add: Cons.IH)
  qed
qed

lemma clamp_loaded_fold:
  "clamp_loaded vs = fold (\<lambda>m vs. vs[unat (sm_id m) :=
     (if vs ! unat (sm_id m) < sm_min m \<or> vs ! unat (sm_id m) > sm_max m then sm_def m
      else vs ! unat (sm_id m))]) settings_table vs"
  unfolding clamp_loaded_def
  by (intro fold_cong) (auto simp: Let_def)

lemma length_clamp_loaded [simp]: "length (clamp_loaded vs) = length vs"
  unfolding clamp_loaded_fold by simp

lemma clamp_loaded_nth:
  "length vs = 10 \<Longrightarrow> m \<in> set settings_table \<Longrightarrow> clamp_loaded vs ! unat (sm_id m) =
    (if vs ! unat (sm_id m) < sm_min m \<or> vs ! unat (sm_id m) > sm_max m then sm_def m
     else vs ! unat (sm_id m))"
  unfolding clamp_loaded_fold
  by (subst fold_update_distinct [OF table_ids]) (auto simp: table_entry)

lemma clamp_loaded_other: "clamp_loaded vs ! 0 = vs ! 0"
  unfolding clamp_loaded_fold by (rule fold_update_other) (auto simp: settings_table_def)

lemma clamp_loaded_id:
  assumes "settings_ok st"
  shows "clamp_loaded (values (rec st)) = values (rec st)"
proof (rule nth_equalityI)
  fix i assume "i < length (clamp_loaded (values (rec st)))"
  then have "i < 10" using assms by (simp add: settings_ok_def)
  then have "i = 0 \<or> (\<exists>m \<in> set settings_table. unat (sm_id m) = i)"
    by (auto simp: settings_table_def)
  then show "clamp_loaded (values (rec st)) ! i = values (rec st) ! i"
  proof
    assume "\<exists>m \<in> set settings_table. unat (sm_id m) = i"
    then obtain m where "m \<in> set settings_table" "unat (sm_id m) = i" by blast
    then show ?thesis
      using assms clamp_loaded_nth [of "values (rec st)" m] by (auto simp: settings_ok_def not_less)
  qed (simp add: clamp_loaded_other)
qed simp

lemma load_defaults_values:
  "length (values (load_defaults r)) = 10"
  "m \<in> set settings_table \<Longrightarrow> values (load_defaults r) ! unat (sm_id m) = sm_def m"
  using fold_update_distinct [OF table_ids, of "replicate 10 0" m "\<lambda>m _. sm_def m"]
  by (auto simp: load_defaults_def table_entry)

section \<open>The interface other components rely on\<close>

text \<open>
  What the clients of the registry use: every known id reads a value of its range, a write stores
  the clamped value and touches no other id.
\<close>

locale settings_api =
  fixes get :: "u8 \<Rightarrow> 's \<Rightarrow> u16"
    and put :: "u8 \<Rightarrow> u16 \<Rightarrow> 's \<Rightarrow> 's"
    and good :: "'s \<Rightarrow> bool"
  assumes get_range: "good s \<Longrightarrow> meta_for i = Some m \<Longrightarrow> sm_min m \<le> get i s \<and> get i s \<le> sm_max m"
    and get_put: "good s \<Longrightarrow> meta_for i = Some m \<Longrightarrow> get i (put i v s) = clamp v (sm_min m) (sm_max m)"
    and get_put_other: "i \<noteq> j \<Longrightarrow> get j (put i v s) = get j s"
    and good_put: "good s \<Longrightarrow> good (put i v s)"
begin

lemma get_put_in_range:
  "good s \<Longrightarrow> meta_for i = Some m \<Longrightarrow> sm_min m \<le> v \<Longrightarrow> v \<le> sm_max m \<Longrightarrow> get i (put i v s) = v"
  by (simp add: get_put)

text \<open>The four sampling settings always form a configuration the sensor driver accepts.\<close>

lemma imu_cfg_valid:
  assumes "good s"
  shows "1 \<le> get SETTING_IMU_ODR_CODE s" "get SETTING_IMU_ODR_CODE s \<le> 10"
    "1 \<le> get SETTING_IMU_CONTENT s" "get SETTING_IMU_CONTENT s \<le> 3"
    "get SETTING_IMU_ACCEL_FS s \<le> 3" "get SETTING_IMU_GYRO_FS s \<le> 3"
  using get_range [OF assms, of SETTING_IMU_ODR_CODE] get_range [OF assms, of SETTING_IMU_CONTENT]
    get_range [OF assms, of SETTING_IMU_ACCEL_FS] get_range [OF assms, of SETTING_IMU_GYRO_FS]
  by (auto simp: meta_for_def settings_table_def)

lemma motor_cfg_valid:
  assumes "good s"
  shows "4 \<le> get SETTING_MOTOR_FREQ_HZ s" "get SETTING_MOTOR_FREQ_HZ s \<le> 1000"
    "750 \<le> get SETTING_MOTOR_VDC_MV s" "get SETTING_MOTOR_VDC_MV s \<le> 4200"
    "get SETTING_ROBOT_ID s \<le> 20" "get SETTING_LED_ENABLED s \<le> 1"
  using get_range [OF assms, of SETTING_MOTOR_FREQ_HZ] get_range [OF assms, of SETTING_MOTOR_VDC_MV]
    get_range [OF assms, of SETTING_ROBOT_ID] get_range [OF assms, of SETTING_LED_ENABLED]
  by (auto simp: meta_for_def settings_table_def)

end

sublocale settings_api \<subseteq> puts: step_invariant "\<lambda>(j, v). put j v" good "\<lambda>_. True"
  by unfold_locales (auto intro: good_put)

lemma settings_set_ok:
  assumes "settings_ok st"
  shows "settings_ok (settings_set i v st)"
proof (cases "meta_for i")
  case None
  then show ?thesis using assms by (simp add: settings_set_def)
next
  case (Some m)
  then have m: "m \<in> set settings_table" "sm_id m = i" using meta_for_Some by auto
  have "clamp v (sm_min m) (sm_max m) \<le> sm_max m" "sm_min m \<le> clamp v (sm_min m) (sm_max m)"
    using clamp_bounds [of "sm_min m" "sm_max m" v] table_entry [OF m(1)] by auto
  moreover have "m' = m" if "m' \<in> set settings_table" "unat (sm_id m') = unat i" for m'
    using that m table_ids unfolding distinct_map by (metis inj_onD)
  ultimately have "sm_min m' \<le> (values (rec st))[unat i := clamp v (sm_min m) (sm_max m)] ! unat (sm_id m') \<and>
      (values (rec st))[unat i := clamp v (sm_min m) (sm_max m)] ! unat (sm_id m') \<le> sm_max m'"
    if "m' \<in> set settings_table" for m'
    using that assms table_entry [OF that]
    by (cases "unat (sm_id m') = unat i") (simp_all add: settings_ok_def)
  then show ?thesis
    using assms Some by (simp add: settings_set_def settings_ok_def Let_def)
qed

interpretation registry: settings_api settings_get settings_set settings_ok
proof unfold_locales
  fix i v and st :: settings_st and m
  assume "settings_ok st" "meta_for i = Some m"
  then show "sm_min m \<le> settings_get i st \<and> settings_get i st \<le> sm_max m"
    and "settings_get i (settings_set i v st) = clamp v (sm_min m) (sm_max m)"
    using meta_for_Some [of i m] table_entry [of m]
    by (auto simp: settings_get_def settings_set_def settings_ok_def Let_def)
next
  fix i j :: u8 and v and st :: settings_st
  assume "i \<noteq> j"
  then have "unat i \<noteq> unat j" by (simp add: word_unat_eq_iff)
  then show "settings_get j (settings_set i v st) = settings_get j st"
    by (auto simp: settings_get_def settings_set_def Let_def split: option.splits)
qed (rule settings_set_ok)

section \<open>Boot\<close>

lemma length_dec_values [simp]: "length (values (dec_rec b)) = 10"
  by (simp add: dec_rec_def)

lemma read_slot_values: "read_slot crc32 fd f i = Some r \<Longrightarrow> length (values r) = 10"
  by (auto simp: read_slot_def Let_def split: prod.splits if_splits)

lemma loaded_clamped_ok:
  assumes "length (values r) = 10"
  shows "settings_ok (st\<lparr>rec := r\<lparr>values := clamp_loaded (values r)\<rparr>, loaded := True\<rparr>)"
  using assms by (auto simp: settings_ok_def clamp_loaded_nth table_entry)

lemma loaded_defaults_ok: "settings_ok (st\<lparr>rec := load_defaults r, loaded := True\<rparr>)"
  by (auto simp: settings_ok_def load_defaults_values table_entry)

lemma settings_init_ok: "settings_ok (settings_store_init crc32 fd f st)"
  by (auto simp: settings_store_init_def Let_def split: option.splits
      intro!: loaded_clamped_ok loaded_defaults_ok dest: read_slot_values)

section \<open>Persistence\<close>

lemma slot_addr_simps [simp]: "slot_addr 0 = 0x164000" "slot_addr 1 = 0x164100"
  by (simp_all add: slot_addr_def)

lemma slot_range: "i = 0 \<or> i = 1 \<Longrightarrow> 0x164000 \<le> slot_addr i \<and> slot_addr i + REC_BYTES \<le> 0x165000"
  by auto

lemma mod2_cases: "(g :: u32) mod 2 = 0 \<or> g mod 2 = 1"
proof -
  have "unat (g mod 2) < 2" by (simp add: unat_mod)
  then have "unat (g mod 2) = unat (0 :: u32) \<or> unat (g mod 2) = unat (1 :: u32)" by auto
  then show ?thesis by (simp only: word_unat_eq_iff)
qed

lemma succ_mod2:
  fixes g :: u32
  shows "(g + 1) mod 2 = 1 - g mod 2"
proof -
  have "unat ((g + 1) mod 2) = (unat g + 1) mod 2"
    using unat_add_mod_dvd [of 2 g 1] by (simp add: unat_mod)
  also have "\<dots> = (unat (g mod 2) + 1) mod 2" by (simp add: unat_mod mod_simps)
  finally have "unat ((g + 1) mod 2) = (unat (g mod 2) + 1) mod 2" .
  then show ?thesis
    using mod2_cases [of g] mod2_cases [of "g + 1"] by (elim disjE) simp_all
qed

lemma ten_list:
  assumes "length vs = 10"
  obtains a b c d e f g h i j where "vs = [a, b, c, d, e, f, g, h, i, j]"
  using assms by (auto simp: eval_nat_numeral length_Suc_conv)

lemma length_enc_rec [simp]: "length (values r) = 10 \<Longrightarrow> length (enc_rec r) = REC_BYTES"
  by (simp add: enc_rec_def enc_body_def length_concat_const [of _ le16 2])

lemma dec_enc_rec:
  assumes "length (values r) = 10"
  shows "dec_rec (enc_rec r) = r"
proof -
  obtain a b c d e f g h i j where v: "values r = [a, b, c, d, e, f, g, h, i, j]"
    using assms by (rule ten_list)
  then show ?thesis
    by (simp add: dec_rec_def enc_rec_def enc_body_def upt_rec le16_def [symmetric])
qed

text \<open>The highest generation in flash is not above the one in RAM.\<close>

definition newest :: "(u8 list \<Rightarrow> u32) \<Rightarrow> 'f flash_dev \<Rightarrow> 'f \<Rightarrow> u32 \<Rightarrow> bool" where
  "newest crc32 fd f g \<longleftrightarrow>
     (\<forall>r. read_slot crc32 fd f 0 = Some r \<longrightarrow> generation r \<le> g) \<and>
     (\<forall>r. read_slot crc32 fd f 1 = Some r \<longrightarrow> generation r \<le> g)"

lemma newestD:
  "newest crc32 fd f g \<Longrightarrow> i = 0 \<or> i = 1 \<Longrightarrow> read_slot crc32 fd f i = Some r \<Longrightarrow> generation r \<le> g"
  by (auto simp: newest_def)

lemma newestI:
  "i = 0 \<or> i = 1 \<Longrightarrow> (\<And>r. read_slot crc32 fd f i = Some r \<Longrightarrow> generation r \<le> g) \<Longrightarrow>
   (\<And>r. read_slot crc32 fd f (1 - i) = Some r \<Longrightarrow> generation r \<le> g) \<Longrightarrow> newest crc32 fd f g"
  by (auto simp: newest_def)

text \<open>Boot takes the slot with the record of generation \<open>g\<close> when the other one is not newer.\<close>

lemma init_picks:
  assumes "fd_ready fd" "i = 0 \<or> i = 1" "read_slot crc32 fd f i = Some r"
    and "\<And>r'. read_slot crc32 fd f (1 - i) = Some r' \<Longrightarrow> generation r' < generation r"
  shows "settings_store_init crc32 fd f st =
    st\<lparr>rec := r\<lparr>values := clamp_loaded (values r)\<rparr>, loaded := True\<rparr>"
  using assms
  by (cases "read_slot crc32 fd f (1 - i)") (auto simp: settings_store_init_def)

lemma read_slot_window:
  assumes "flash_laws fd img" "flash_readable fd 0x164000 0x165000" "i = 0 \<or> i = 1"
  shows "read_slot crc32 fd f i =
    (let a = dec_rec (flash_window img f (slot_addr i) REC_BYTES)
     in if st_magic a = STORE_MAGIC \<and> crc a = rec_crc crc32 a then Some a else None)"
proof -
  have "fd_read fd f (slot_addr i) REC_BYTES = (0, flash_window img f (slot_addr i) REC_BYTES)"
    unfolding flash_window_def by (rule reliable_read [OF assms(1,2)]) (use assms(3) in auto)
  then show ?thesis by (simp add: read_slot_def)
qed

lemma read_slot_other:
  assumes "flash_laws fd img" "flash_readable fd 0x164000 0x165000" "i = 0 \<or> i = 1"
    "fd_write fd f (slot_addr i) bs = (r, f')" "length bs = REC_BYTES"
  shows "read_slot crc32 fd f' (1 - i) = read_slot crc32 fd f (1 - i)"
proof -
  have "flash_window img f' (slot_addr (1 - i)) REC_BYTES = flash_window img f (slot_addr (1 - i)) REC_BYTES"
    by (rule flash_window_untouched [OF assms(1,4)]) (use assms(3,5) in auto)
  then show ?thesis
    using assms(3) by (auto simp: read_slot_window [OF assms(1,2)])
qed

lemma read_slot_written:
  assumes "flash_laws fd img" "flash_readable fd 0x164000 0x165000" "i = 0 \<or> i = 1"
    "fd_write fd f (slot_addr i) (enc_rec r) = (0, f')" "length (values r) = 10"
    "st_magic r = STORE_MAGIC" "crc r = rec_crc crc32 r"
  shows "read_slot crc32 fd f' i = Some r"
proof -
  have "flash_window img f' (slot_addr i) REC_BYTES = enc_rec r"
    using flash_window_written [OF assms(1,4)] assms(5) by simp
  then show ?thesis
    using assms(3,5-) by (simp add: read_slot_window [OF assms(1,2)] dec_enc_rec)
qed

text \<open>A RAM state whose values differ from a stored record only through \<open>settings_set\<close>.\<close>

definition storable :: "settings_st \<Rightarrow> bool" where
  "storable st \<longleftrightarrow> settings_ok st \<and> st_magic (rec st) = STORE_MAGIC \<and> generation (rec st) < 0xFFFFFFFF"

lemma prepared:
  fixes crc32 :: "u8 list \<Rightarrow> u32"
  assumes "storable st"
  defines "r \<equiv> rec (persist_prepare crc32 st)"
  shows "length (values r) = 10" "st_magic r = STORE_MAGIC" "crc r = rec_crc crc32 r"
    "values r = values (rec st)" "generation r = generation (rec st) + 1"
    "generation (rec st) < generation r"
proof -
  have "unat (generation (rec st)) < 2 ^ 32 - 1"
    using assms(1) by (simp add: storable_def word_less_nat_alt)
  then show "generation (rec st) < generation r"
    by (simp add: r_def persist_prepare_def Let_def word_less_nat_alt unat_word_ariths)
qed (use assms(1) in \<open>simp_all add: r_def persist_prepare_def Let_def storable_def settings_ok_def
    rec_crc_def enc_body_def\<close>)

lemma prepare_get: "settings_get i (persist_prepare c32 st) = settings_get i st"
  unfolding settings_get_def persist_prepare_def Let_def by (auto split: option.split)

lemma get_after_load:
  assumes "settings_ok st" "values r = values (rec st)"
  shows "settings_get i (st'\<lparr>rec := r\<lparr>values := clamp_loaded (values r)\<rparr>, loaded := True\<rparr>) =
    settings_get i st"
  using assms by (auto simp: settings_get_def clamp_loaded_id settings_ok_def split: option.splits)

text \<open>A persist whose flash write succeeds survives a reboot: the next boot reads back every
  setting, and the store is again ready for the next persist (the slots alternate).\<close>

theorem settings_persist_reboot:
  assumes laws: "flash_laws fd img" "flash_readable fd 0x164000 0x165000"
      "flash_writable fd 0x164000 0x165000" "fd_ready fd"
    and st: "storable st" "newest crc32 fd f (generation (rec st))"
    and run: "persist_work_fn crc32 fd (st, f) = (st', f')"
  shows "settings_get i (settings_store_init crc32 fd f' settings_boot) = settings_get i st \<and>
    newest crc32 fd f' (generation (rec st')) \<and> settings_ok st'"
proof -
  let ?r = "rec (persist_prepare crc32 st)" and ?s = "generation (rec st') mod 2"
  note pr = prepared [OF st(1), of crc32]
  have st': "st' = persist_prepare crc32 st"
    using run by (simp add: persist_work_fn_def Let_def)
  have s: "?s = 0 \<or> ?s = 1" "1 - ?s = 0 \<or> 1 - ?s = 1"
    using mod2_cases [of "generation (rec st')"] by auto
  have "0x164000 \<le> slot_addr ?s" "slot_addr ?s + length (enc_rec ?r) \<le> 0x165000"
    using slot_range [OF s(1)] pr(1) by simp_all
  then have w: "fd_write fd f (slot_addr ?s) (enc_rec ?r) = (0, f')"
    using run reliable_write [OF laws(3), of "slot_addr ?s" "enc_rec ?r" f]
    by (simp add: persist_work_fn_def persist_write_def Let_def st')
  have new: "read_slot crc32 fd f' ?s = Some ?r"
    by (rule read_slot_written [OF laws(1,2) s(1) w pr(1-3)])
  have old: "read_slot crc32 fd f' (1 - ?s) = read_slot crc32 fd f (1 - ?s)"
    using read_slot_other [OF laws(1,2) s(1) w] pr(1) by simp
  have less: "generation r' < generation ?r" if "read_slot crc32 fd f (1 - ?s) = Some r'" for r'
    using newestD [OF st(2) s(2) that] pr(6) by (rule le_less_trans)
  have "settings_store_init crc32 fd f' settings_boot =
      settings_boot\<lparr>rec := ?r\<lparr>values := clamp_loaded (values ?r)\<rparr>, loaded := True\<rparr>"
    by (rule init_picks [OF laws(4) s(1) new]) (simp add: old less)
  moreover have "newest crc32 fd f' (generation ?r)"
    using new old less s(1) by (intro newestI [of ?s]) (auto intro: less_imp_le)
  moreover have "settings_ok st'"
    using st(1) unfolding st' by (simp add: persist_prepare_def Let_def storable_def settings_ok_def)
  ultimately show ?thesis
    using get_after_load [OF _ pr(4)] st(1) by (simp add: st' storable_def)
qed


text \<open>A factory-fresh board: an erased store, and the first change of a setting.\<close>

definition fresh :: settings_st where
  "fresh = settings_store_init (\<lambda>_. 0) ram_flash (\<lambda>_. 0) settings_boot"

lemma get_le32_zeros: "get_le32 (replicate n 0) = 0"
proof (cases "n < 4")
  case True
  then have "n = 0 \<or> n = 1 \<or> n = 2 \<or> n = 3" by auto
  then show ?thesis by (elim disjE) (simp_all add: eval_nat_numeral)
next
  case False
  then obtain m where "n = Suc (Suc (Suc (Suc m)))"
    by (intro that [of "n - 4"]) simp
  then show ?thesis by simp
qed

lemma blank_slots: "read_slot crc32 ram_flash (\<lambda>_. 0) i = None"
  by (auto simp: read_slot_def ram_flash_def dec_rec_def map_replicate_const get_le32_zeros)

lemma defaults_eq:
  "load_defaults (rec settings_boot) = \<lparr>st_magic = STORE_MAGIC, generation = 0,
     values = [0, 150, 3100, 7, 3, 0, 0, 0, 1, 0], crc = 0\<rparr>"
  by code_simp

lemma fresh_eq:
  "fresh = \<lparr>rec = \<lparr>st_magic = STORE_MAGIC, generation = 0,
     values = [0, 150, 3100, 7, 3, 0, 0, 0, 1, 0], crc = 0\<rparr>, loaded = True, persist_pending = False\<rparr>"
  by (simp add: fresh_def settings_store_init_def blank_slots defaults_eq)
     (simp add: ram_flash_def settings_boot_def)

lemma fresh_storable: "storable (settings_set SETTING_ROBOT_ID 3 fresh)"
  using settings_set_ok [OF settings_init_ok, of SETTING_ROBOT_ID 3 "\<lambda>_. 0" ram_flash "\<lambda>_. 0" settings_boot]
  by (simp add: storable_def fresh_def [symmetric])
     (simp add: fresh_eq settings_set_def meta_for_def settings_table_def clamp_def Let_def)

theorem settings_persist_reboot_witness:
  "\<exists>st' f'. persist_work_fn (\<lambda>_. 0) ram_flash (settings_set SETTING_ROBOT_ID 3 fresh, \<lambda>_. 0) = (st', f') \<and>
     settings_get SETTING_ROBOT_ID (settings_store_init (\<lambda>_. 0) ram_flash f' settings_boot) =
     settings_get SETTING_ROBOT_ID (settings_set SETTING_ROBOT_ID 3 fresh)"
proof -
  let ?st = "settings_set SETTING_ROBOT_ID 3 fresh"
  obtain st' f' where run: "persist_work_fn (\<lambda>_. 0) ram_flash (?st, \<lambda>_. 0) = (st', f')" by force
  have "newest (\<lambda>_. 0) ram_flash (\<lambda>_. 0) (generation (rec ?st))"
    by (simp add: newest_def blank_slots)
  then show ?thesis
    using settings_persist_reboot [OF ram_flash_laws ram_flash_readable ram_flash_writable
        ram_flash_ready fresh_storable _ run, of SETTING_ROBOT_ID] run by blast
qed

text \<open>
  A board with frequency 200 Hz saved as generation 0 in slot 0, on a medium whose next \<open>k\<close>
  writes fail and whose later ones are cut after 10 bytes.
\<close>

definition csum :: "u8 list \<Rightarrow> u32" where
  "csum b = sum_list (map ucast b)"

definition saved :: settings_st where
  "saved = \<lparr>rec = \<lparr>st_magic = STORE_MAGIC, generation = 0,
     values = [0, 200, 3100, 7, 3, 0, 0, 0, 1, 0], crc = 554\<rparr>, loaded = True, persist_pending = False\<rparr>"

definition saved_mem :: "nat \<Rightarrow> u8" where
  "saved_mem = ram_patch (\<lambda>_. 0) (slot_addr 0) (enc_rec (rec saved))"

lemma saved_ok: "settings_ok saved"
  by (simp add: settings_ok_def saved_def settings_table_def)

lemma saved_storable: "storable saved" "storable (settings_set i v saved)"
proof -
  show "storable saved" using saved_ok by (simp add: storable_def) (simp add: saved_def)
  show "storable (settings_set i v saved)"
    using settings_set_ok [OF saved_ok, of i v]
    by (simp add: storable_def)
       (simp add: saved_def settings_set_def Let_def split: option.splits)
qed

lemma saved_window: "flash_window fst (saved_mem, k) (slot_addr 0) REC_BYTES = enc_rec (rec saved)"
  by (auto simp: list_eq_iff_nth_eq saved_mem_def ram_patch_def)
     (auto simp: saved_def)

lemma saved_slots:
  "read_slot csum (faulty_flash t) (saved_mem, k) 0 = Some (rec saved)"
  "read_slot csum (faulty_flash t) (saved_mem, k) 1 = None"
proof -
  have len: "length (values (rec saved)) = 10" by (simp add: saved_def)
  then show "read_slot csum (faulty_flash t) (saved_mem, k) 0 = Some (rec saved)"
    by (simp add: read_slot_window [OF faulty_flash_laws faulty_flash_readable] saved_window
        dec_enc_rec [OF len] del: slot_addr_simps)
       (simp add: saved_def rec_crc_def csum_def enc_body_def le16_def le32_def)
  have "flash_window fst (saved_mem, k) (slot_addr 1) REC_BYTES = replicate REC_BYTES 0"
    using len by (auto simp: list_eq_iff_nth_eq saved_mem_def ram_patch_def)
  then show "read_slot csum (faulty_flash t) (saved_mem, k) 1 = None"
    by (simp add: read_slot_window [OF faulty_flash_laws faulty_flash_readable] dec_rec_def
        get_le32_zeros)
qed

lemma window_patch:
  "length bs \<le> n \<Longrightarrow> flash_window fst (ram_patch m a bs, k) a n =
   bs @ flash_window fst (m, k) (a + length bs) (n - length bs)"
  by (auto simp: list_eq_iff_nth_eq nth_append ram_patch_def)

lemma saved_mem_blank: "0x164020 \<le> a \<Longrightarrow> flash_window fst (saved_mem, k) a n = replicate n 0"
  by (auto simp: list_eq_iff_nth_eq saved_mem_def ram_patch_def saved_def)

text \<open>A first write torn after 10 bytes: the slot fails the check, whichever slot it is.\<close>

lemma torn_first:
  "take 10 (enc_rec (rec (persist_prepare csum (settings_set SETTING_ROBOT_ID 3 saved)))) =
   [0x43, 0x53, 0x45, 0x54, 1, 0, 0, 0, 0, 0]"
  by (simp add: saved_def settings_set_def meta_for_def settings_table_def clamp_def
      persist_prepare_def Let_def enc_rec_def enc_body_def le16_def le32_def)

lemma torn_slot1:
  "read_slot csum (faulty_flash t)
     (ram_patch saved_mem 0x164100 [0x43, 0x53, 0x45, 0x54, 1, 0, 0, 0, 0, 0], k) 1 = None"
proof -
  have w: "flash_window fst (ram_patch saved_mem 0x164100 [0x43, 0x53, 0x45, 0x54, 1, 0, 0, 0, 0, 0], k)
      0x164100 REC_BYTES = [0x43, 0x53, 0x45, 0x54, 1, 0, 0, 0, 0, 0] @ replicate 22 0"
    by (subst window_patch) (simp_all add: saved_mem_blank)
  have z: "replicate 22 (0 :: u8) = [0, 0, 0, 0, 0, 0, 0, 0, 0, 0, 0, 0, 0, 0, 0, 0, 0, 0, 0, 0, 0, 0]"
    by (simp add: eval_nat_numeral)
  show ?thesis
    by (simp add: read_slot_window [OF faulty_flash_laws faulty_flash_readable] w z)
       (simp add: dec_rec_def rec_crc_def enc_body_def csum_def le16_def le32_def upt_rec)
qed


lemma torn_slot0:
  "read_slot csum (faulty_flash t)
     (ram_patch saved_mem 0x164000 [0x43, 0x53, 0x45, 0x54, 2, 0, 0, 0, 0, 0], k) 0 = None"
proof -
  have "flash_window fst (saved_mem, k) 0x16400A 22 = drop 10 (flash_window fst (saved_mem, k) (slot_addr 0) REC_BYTES)"
    by (simp add: list_eq_iff_nth_eq)
  also have "\<dots> = drop 10 (enc_rec (rec saved))" by (simp only: saved_window)
  finally have "flash_window fst (ram_patch saved_mem 0x164000 [0x43, 0x53, 0x45, 0x54, 2, 0, 0, 0, 0, 0], k)
      0x164000 REC_BYTES = [0x43, 0x53, 0x45, 0x54, 2, 0, 0, 0, 0, 0] @ drop 10 (enc_rec (rec saved))"
    by (subst window_patch) simp_all
  then show ?thesis
    by (simp add: read_slot_window [OF faulty_flash_laws faulty_flash_readable])
       (simp add: dec_rec_def rec_crc_def enc_rec_def enc_body_def csum_def le16_def le32_def upt_rec
        saved_def)
qed

lemma torn_second:
  "take 10 (enc_rec (rec (persist_prepare csum (settings_set SETTING_ROBOT_ID 4
     (persist_prepare csum (settings_set SETTING_ROBOT_ID 3 saved)))))) =
   [0x43, 0x53, 0x45, 0x54, 2, 0, 0, 0, 0, 0]"
  by (simp add: saved_def settings_set_def meta_for_def settings_table_def clamp_def
      persist_prepare_def Let_def enc_rec_def enc_body_def le16_def le32_def)

text \<open>C36: The store does not survive a failed write followed by a power cut: the failed persist has
  already advanced the generation, so the next one overwrites the only valid slot. Here 200 Hz is
  saved, one write fails without effect, the next is cut after 10 bytes, and the reboot falls back
  to the default 150 Hz, although 200 Hz was never changed.\<close>

theorem settings_failed_write_then_cut:
  "let fd = faulty_flash 10;
       (st1, f1) = persist_work_fn csum fd (settings_set SETTING_ROBOT_ID 3 saved, (saved_mem, 1));
       (st2, f2) = persist_work_fn csum fd (settings_set SETTING_ROBOT_ID 4 st1, f1)
   in settings_get SETTING_MOTOR_FREQ_HZ (settings_store_init csum fd (saved_mem, 1) settings_boot) = 200 \<and>
      settings_get SETTING_MOTOR_FREQ_HZ (settings_store_init csum fd f1 settings_boot) = 200 \<and>
      settings_get SETTING_MOTOR_FREQ_HZ st2 = 200 \<and>
      settings_get SETTING_MOTOR_FREQ_HZ (settings_store_init csum fd f2 settings_boot) = 150"
proof -
  let ?fd = "faulty_flash 10" and ?p = "persist_prepare csum"
  let ?st1 = "?p (settings_set SETTING_ROBOT_ID 3 saved)"
  let ?st2 = "?p (settings_set SETTING_ROBOT_ID 4 ?st1)"
  let ?f2 = "(ram_patch saved_mem 0x164000 [0x43, 0x53, 0x45, 0x54, 2, 0, 0, 0, 0, 0], 0 :: nat)"
  have gen: "generation (rec ?st1) = 1" "generation (rec ?st2) = 2"
    and freq: "settings_get SETTING_MOTOR_FREQ_HZ ?st2 = 200"
    by (simp_all add: saved_def settings_set_def meta_for_def settings_table_def clamp_def
        persist_prepare_def Let_def settings_get_def)
  have run: "persist_work_fn csum ?fd (settings_set SETTING_ROBOT_ID 3 saved, (saved_mem, 1)) =
      (?st1, (saved_mem, 0))"
    "persist_work_fn csum ?fd (settings_set SETTING_ROBOT_ID 4 ?st1, (saved_mem, 0)) = (?st2, ?f2)"
    by (simp_all add: persist_work_fn_def persist_write_def gen Let_def)
       (simp_all add: faulty_flash_def torn_second)
  have ready: "fd_ready ?fd" by (simp add: faulty_flash_def)
  have old: "settings_get SETTING_MOTOR_FREQ_HZ (settings_store_init csum ?fd (saved_mem, k) settings_boot) = 200" for k
    using init_picks [OF ready, of 0 csum "(saved_mem, k)" "rec saved" settings_boot]
    by (simp add: saved_slots clamp_loaded_id [OF saved_ok])
       (simp add: settings_get_def meta_for_def settings_table_def saved_def)
  have "read_slot csum ?fd ?f2 1 = None"
    using read_slot_other [OF faulty_flash_laws faulty_flash_readable, of 0 10 "(saved_mem, 0)"
        "enc_rec (rec ?st2)" "- EIO" ?f2 csum] saved_slots(2) [of 10 0]
    by (simp add: faulty_flash_def torn_second)
       (simp add: saved_def settings_set_def persist_prepare_def Let_def split: option.splits)
  then have "settings_get SETTING_MOTOR_FREQ_HZ (settings_store_init csum ?fd ?f2 settings_boot) = 150"
    by (simp add: settings_store_init_def torn_slot0 defaults_eq)
       (simp add: settings_get_def meta_for_def settings_table_def)
  then show ?thesis by (simp add: Let_def run old freq del: One_nat_def)
qed

text \<open>C35: Whatever the flash holds at boot, and whatever ids and values are set afterwards, every
  registered setting reads back inside the range of its registry entry.\<close>

theorem settings_always_in_range:
  assumes "meta_for i = Some m"
  shows "sm_min m \<le> settings_get i (fold (\<lambda>(j, v). settings_set j v) sets
      (settings_store_init crc32 fd f st)) \<and>
    settings_get i (fold (\<lambda>(j, v). settings_set j v) sets (settings_store_init crc32 fd f st)) \<le> sm_max m"
  by (intro registry.get_range [OF _ assms] registry.puts.run_keeps settings_init_ok)
    (simp add: list_all_iff)

theorem settings_always_in_range_witness:
  "settings_get SETTING_MOTOR_VDC_MV (fold (\<lambda>(j, v). settings_set j v)
     [(SETTING_MOTOR_VDC_MV, 9999), (SETTING_ROBOT_ID, 4)]
     (settings_store_init (\<lambda>_. 0) ram_flash (\<lambda>_. 0xFF) settings_boot)) \<le> 4200"
  using settings_always_in_range [of SETTING_MOTOR_VDC_MV
      "\<lparr>sm_id = 2, sm_name = ''motor_vdc_mv'', sm_def = 3100, sm_min = 750, sm_max = 4200\<rparr>"
      "[(SETTING_MOTOR_VDC_MV, 9999), (SETTING_ROBOT_ID, 4)]" "\<lambda>_. 0" ram_flash "\<lambda>_. 0xFF" settings_boot]
  by (simp add: meta_for_def settings_table_def del: fold_simps)

end
