(* ===== verification/Imu_Log.thy ===== *)
theory Imu_Log
  imports Flash Imu_Shared Messages Settings_Store
begin

text \<open>
  The multi-session sample log in RRAM, \<open>src/imu/imu_log.c\<close>: the flash directory, the record ring,
  the staging ring between the pump and the flash writer, and every public operation. The static
  variables of the file are the record \<open>log_st\<close>; \<open>flash\<close> is the medium behind the controller.
  Operations that post warnings take and return the message channel. The mutex, the semaphores
  and the console log have no effect on the data and are not modelled.
\<close>

section \<open>Layout\<close>

abbreviation IMU_LOG_MAX_SESSIONS :: u32 where "IMU_LOG_MAX_SESSIONS \<equiv> 16"
abbreviation STAGE_N :: nat where "STAGE_N \<equiv> 1536"
abbreviation BATCH_RECS :: u32 where "BATCH_RECS \<equiv> 256"
abbreviation DIR_REFRESH_RECS :: u32 where "DIR_REFRESH_RECS \<equiv> 512"
abbreviation ENTRY_MAGIC :: u32 where "ENTRY_MAGIC \<equiv> 0x53455353"
abbreviation META_MAGIC :: u32 where "META_MAGIC \<equiv> 0x474F4C43"
abbreviation META_LAYOUT :: u32 where "META_LAYOUT \<equiv> 2"

definition REGION_A_BASE :: u32 where "REGION_A_BASE = 0xB9000"
definition REGION_A_SIZE :: u32 where "REGION_A_SIZE = 0xAB000"
definition TRAILER_RESERVE :: u32 where "TRAILER_RESERVE = 128"
definition HDR_RESERVE :: u32 where "HDR_RESERVE = 0x1000"
definition ENTRY_SIZE :: u32 where "ENTRY_SIZE = 32"
definition DIR_BASE :: u32 where "DIR_BASE = REGION_A_BASE + HDR_RESERVE"
definition DIR_BYTES :: u32 where "DIR_BYTES = (IMU_LOG_MAX_SESSIONS + 1) * ENTRY_SIZE"
definition REC_SIZE :: u32 where "REC_SIZE = 16"
definition DATA_CAPACITY :: u32 where
  "DATA_CAPACITY = REGION_A_SIZE - HDR_RESERVE - DIR_BYTES - TRAILER_RESERVE"
definition REC_CAPACITY :: u32 where "REC_CAPACITY = DATA_CAPACITY div REC_SIZE"
definition DATA_BASE :: u32 where "DATA_BASE = DIR_BASE + DIR_BYTES"

lemma layout_values [layout, simp]:
  "ENTRY_SIZE = 32" "DIR_BASE = 0xBA000" "DIR_BYTES = 544" "REC_SIZE = 16"
  "DATA_CAPACITY = 695648" "REC_CAPACITY = 43478" "DATA_BASE = 0xBA220"
  by (simp_all add: REGION_A_BASE_def REGION_A_SIZE_def TRAILER_RESERVE_def HDR_RESERVE_def
      ENTRY_SIZE_def DIR_BASE_def DIR_BYTES_def REC_SIZE_def DATA_CAPACITY_def REC_CAPACITY_def
      DATA_BASE_def)

section \<open>Directory entries\<close>

record dir_entry =
  de_magic :: u32
  de_seq :: u32
  de_start_rec :: u32
  de_rec_count :: u32
  de_wall_start :: u32
  de_odr_code :: u8
  de_content :: u8
  de_accel_fs :: u8
  de_gyro_fs :: u8
  de_policy :: u8
  de_open :: u8
  de_rsvd :: u16
  de_rsvd2 :: u32

definition enc_entry :: "dir_entry \<Rightarrow> u8 list" where
  "enc_entry e = le32 (de_magic e) @ le32 (de_seq e) @ le32 (de_start_rec e) @ le32 (de_rec_count e)
     @ le32 (de_wall_start e) @ [de_odr_code e, de_content e, de_accel_fs e, de_gyro_fs e,
       de_policy e, de_open e] @ le16 (de_rsvd e) @ le32 (de_rsvd2 e)"

definition dec_entry :: "u8 list \<Rightarrow> dir_entry" where
  "dec_entry b = \<lparr>de_magic = get_le32 b, de_seq = get_le32 (drop 4 b),
     de_start_rec = get_le32 (drop 8 b), de_rec_count = get_le32 (drop 12 b),
     de_wall_start = get_le32 (drop 16 b), de_odr_code = b ! 20, de_content = b ! 21,
     de_accel_fs = b ! 22, de_gyro_fs = b ! 23, de_policy = b ! 24, de_open = b ! 25,
     de_rsvd = get_le16 (drop 26 b), de_rsvd2 = get_le32 (drop 28 b)\<rparr>"

lemma length_enc_entry [simp]: "length (enc_entry e) = 32"
  by (simp add: enc_entry_def)

lemma dec_enc_entry [simp]: "dec_entry (enc_entry e) = e"
  by (simp add: dec_entry_def enc_entry_def eval_nat_numeral nth_append)

text \<open>Version numbers of the running image; the build generates them from the file \<open>VERSION\<close>.\<close>

record app_version =
  ver_major :: u8
  ver_minor :: u8
  ver_patch :: u8

definition fw_version_word :: "app_version \<Rightarrow> u32" where
  "fw_version_word v =
     push_bit 16 (ucast (ver_major v)) OR push_bit 8 (ucast (ver_minor v)) OR ucast (ver_patch v)"

section \<open>State\<close>

record 'f log_st =
  flash :: 'f
  total_abs :: u32
  seq_next :: u32
  active :: bool
  session_detached :: bool
  cur_seq :: u32
  cur_start :: u32
  cur_count :: u32
  cur_slot :: u32
  last_dir_refresh :: u32
  stage :: "imu_sample list"
  stage_head :: u32
  stage_tail :: u32
  log_dropped :: u32

definition log_boot :: "'f \<Rightarrow> 'f log_st" where
  "log_boot f = \<lparr>flash = f, total_abs = 0, seq_next = 1, active = False, session_detached = False,
     cur_seq = 0, cur_start = 0, cur_count = 0, cur_slot = 0, last_dir_refresh = 0,
     stage = replicate STAGE_N zero_sample, stage_head = 0, stage_tail = 0, log_dropped = 0\<rparr>"

definition slots :: "u32 list" where
  "slots = map of_nat [0..<16]"

text \<open>Slot of a staging counter: \<open>stage[k % STAGE_N]\<close>.\<close>

definition stage_idx :: "u32 \<Rightarrow> nat" where
  "stage_idx k = unat k mod STAGE_N"

section \<open>Directory helpers\<close>

definition entry_addr :: "u32 \<Rightarrow> u32" where
  "entry_addr slot = DIR_BASE + (slot + 1) * ENTRY_SIZE"

definition enc_meta :: "app_version \<Rightarrow> u8 list" where
  "enc_meta v = le32 META_MAGIC @ le32 META_LAYOUT @ le32 (fw_version_word v) @ replicate 20 0xFF"

definition dir_wipe_and_stamp :: "'f flash_dev \<Rightarrow> app_version \<Rightarrow> 'f \<Rightarrow> 'f" where
  "dir_wipe_and_stamp fd v f =
     (let f1 = snd (fd_write fd f (unat DIR_BASE) (replicate (unat DIR_BYTES) 0xFF))
      in snd (fd_write fd f1 (unat DIR_BASE) (enc_meta v)))"

definition entry_read :: "'f flash_dev \<Rightarrow> 'f \<Rightarrow> u32 \<Rightarrow> int \<times> dir_entry" where
  "entry_read fd f slot = (let (r, b) = fd_read fd f (unat (entry_addr slot)) 32 in (r, dec_entry b))"

definition entry_write :: "'f flash_dev \<Rightarrow> 'f \<Rightarrow> u32 \<Rightarrow> dir_entry \<Rightarrow> int \<times> 'f" where
  "entry_write fd f slot e = fd_write fd f (unat (entry_addr slot)) (enc_entry e)"

definition invalid_entry :: dir_entry where
  "invalid_entry = (dec_entry (replicate 32 0xFF))\<lparr>de_magic := 0\<rparr>"

definition entry_invalidate :: "'f flash_dev \<Rightarrow> 'f \<Rightarrow> u32 \<Rightarrow> 'f" where
  "entry_invalidate fd f slot = snd (entry_write fd f slot invalid_entry)"

text \<open>The guard of every directory scan: the entry of a slot, if it reads and carries the magic.\<close>

definition live_entry :: "'f flash_dev \<Rightarrow> 'f \<Rightarrow> u32 \<Rightarrow> dir_entry option" where
  "live_entry fd f slot =
     (let (r, e) = entry_read fd f slot
      in if r \<noteq> 0 \<or> de_magic e \<noteq> ENTRY_MAGIC then None else Some e)"

definition ring_floor :: "'f log_st \<Rightarrow> u32" where
  "ring_floor st = (if total_abs st > REC_CAPACITY then total_abs st - REC_CAPACITY else 0)"

definition overwritten_msg :: "u32 \<Rightarrow> u32 \<Rightarrow> string" where
  "overwritten_msg old new = ''session #'' @ fmt_u old @ '' overwritten by session #'' @ fmt_u new @
     '' '' @ [CHR 0xE2, CHR 0x80, CHR 0x94] @ '' removed''"

definition consume_slot ::
  "'f flash_dev \<Rightarrow> int \<Rightarrow> u32 \<Rightarrow> u32 \<Rightarrow> 'f log_st \<times> msg_st \<Rightarrow> 'f log_st \<times> msg_st" where
  "consume_slot fd up floor i s =
     (let (st, ms) = s
      in if active st \<and> i = cur_slot st then s
         else case live_entry fd (flash st) i of
                None \<Rightarrow> s
              | Some e \<Rightarrow>
                  if de_start_rec e < floor
                  then (st\<lparr>flash := entry_invalidate fd (flash st) i\<rparr>,
                        ble_msg up (overwritten_msg (de_seq e) (cur_seq st)) ms)
                  else s)"

definition invalidate_consumed ::
  "'f flash_dev \<Rightarrow> int \<Rightarrow> 'f log_st \<times> msg_st \<Rightarrow> 'f log_st \<times> msg_st" where
  "invalidate_consumed fd up s = fold (consume_slot fd up (ring_floor (fst s))) slots s"

definition dir_refresh_current :: "'f flash_dev \<Rightarrow> bool \<Rightarrow> 'f log_st \<Rightarrow> 'f log_st" where
  "dir_refresh_current fd closing st =
     (case live_entry fd (flash st) (cur_slot st) of
        None \<Rightarrow> st
      | Some e \<Rightarrow>
          st\<lparr>flash := snd (entry_write fd (flash st) (cur_slot st)
                 (e\<lparr>de_rec_count := cur_count st, de_open := if closing then 0 else 1\<rparr>)),
             last_dir_refresh := cur_count st\<rparr>)"

section \<open>Writer thread\<close>

definition phys_write :: "'f flash_dev \<Rightarrow> 'f \<Rightarrow> u32 \<Rightarrow> u8 list \<Rightarrow> int \<times> 'f" where
  "phys_write fd f off buf = fd_write fd f (unat (DATA_BASE + off)) buf"

definition phys_read :: "'f flash_dev \<Rightarrow> 'f \<Rightarrow> u32 \<Rightarrow> u32 \<Rightarrow> int \<times> u8 list" where
  "phys_read fd f off len = fd_read fd f (unat (DATA_BASE + off)) (unat len)"

text \<open>Records one call persists: staged, at most a batch, not across the wrap of the ring.\<close>

definition drain_count :: "'f log_st \<Rightarrow> u32" where
  "drain_count st = min (min (stage_head st - stage_tail st) BATCH_RECS)
     (REC_CAPACITY - total_abs st mod REC_CAPACITY)"

definition drain_batch :: "'f log_st \<Rightarrow> imu_sample list" where
  "drain_batch st =
     map (\<lambda>i. stage st ! stage_idx (stage_tail st + of_nat i)) [0..<unat (drain_count st)]"

definition writer_drain_batch ::
  "'f flash_dev \<Rightarrow> int \<Rightarrow> 'f log_st \<times> msg_st \<Rightarrow> 'f log_st \<times> msg_st" where
  "writer_drain_batch fd up s =
     (let (st, ms) = s
      in if stage_head st - stage_tail st = 0 then s
         else
           let n = drain_count st;
               st1 = st\<lparr>flash := snd (phys_write fd (flash st) ((total_abs st mod REC_CAPACITY) * REC_SIZE)
                          (concat (map enc_sample (drain_batch st)))),
                        stage_tail := stage_tail st + n,
                        total_abs := total_abs st + n,
                        cur_count := cur_count st + n\<rparr>
           in if cur_count st1 - last_dir_refresh st1 \<ge> DIR_REFRESH_RECS
              then invalidate_consumed fd up (dir_refresh_current fd False st1, ms)
              else (st1, ms))"

text \<open>One pass of the writer thread's inner loop, \<open>while (active && stage_head != stage_tail)\<close>.\<close>

definition writer_step ::
  "'f flash_dev \<Rightarrow> int \<Rightarrow> 'f log_st \<times> msg_st \<Rightarrow> 'f log_st \<times> msg_st" where
  "writer_step fd up s =
     (if active (fst s) \<and> stage_head (fst s) \<noteq> stage_tail (fst s) then writer_drain_batch fd up s else s)"

text \<open>
  \<open>writer_flush\<close> sleeps up to 200 times 5 ms while anything is staged. What the other threads do in
  the \<open>i\<close>-th sleep is the parameter \<open>env i\<close>; the first argument counts the sleeps left.
\<close>

fun writer_flush ::
  "nat \<Rightarrow> (nat \<Rightarrow> 'f log_st \<times> msg_st \<Rightarrow> 'f log_st \<times> msg_st) \<Rightarrow> 'f log_st \<times> msg_st \<Rightarrow> 'f log_st \<times> msg_st" where
  "writer_flush 0 env s = s"
| "writer_flush (Suc n) env s =
     (if stage_head (fst s) \<noteq> stage_tail (fst s) then writer_flush n env (env (200 - Suc n) s) else s)"

section \<open>Public operations\<close>

definition init_slot :: "'f flash_dev \<Rightarrow> u32 \<Rightarrow> 'f log_st \<Rightarrow> 'f log_st" where
  "init_slot fd i st =
     (case live_entry fd (flash st) i of
        None \<Rightarrow> st
      | Some e0 \<Rightarrow>
          let e1 = (if de_rec_count e0 = 0xFFFFFFFF then e0\<lparr>de_rec_count := 0\<rparr> else e0);
              (f', e) = (if de_open e1 \<noteq> 0
                 then (let e2 = e1\<lparr>de_open := 0\<rparr> in (snd (entry_write fd (flash st) i e2), e2))
                 else (flash st, e1));
              endr = de_start_rec e + de_rec_count e
          in st\<lparr>flash := f',
                total_abs := if endr > total_abs st then endr else total_abs st,
                seq_next := if de_seq e \<ge> seq_next st then de_seq e + 1 else seq_next st\<rparr>)"

definition dir_trusted :: "'f flash_dev \<Rightarrow> app_version \<Rightarrow> 'f \<Rightarrow> bool" where
  "dir_trusted fd v f =
     (let (r, b) = fd_read fd f (unat DIR_BASE) 32
      in \<not> (r \<noteq> 0 \<or> get_le32 b \<noteq> META_MAGIC \<or> get_le32 (drop 4 b) \<noteq> META_LAYOUT \<or>
           get_le32 (drop 8 b) \<noteq> fw_version_word v))"

definition imu_log_init :: "'f flash_dev \<Rightarrow> app_version \<Rightarrow> 'f log_st \<Rightarrow> int \<times> 'f log_st" where
  "imu_log_init fd v st =
     (if \<not> fd_ready fd then (- ENODEV, st)
      else if \<not> dir_trusted fd v (flash st) then (0, st\<lparr>flash := dir_wipe_and_stamp fd v (flash st)\<rparr>)
      else (0, fold (init_slot fd) slots st))"

text \<open>The directory entry of a session that starts: the sampling settings and the wall clock.\<close>

definition start_entry :: "settings_st \<Rightarrow> u32 \<Rightarrow> u32 \<Rightarrow> u32 \<Rightarrow> dir_entry" where
  "start_entry cfg wall sq start =
     \<lparr>de_magic = ENTRY_MAGIC, de_seq = sq, de_start_rec = start, de_rec_count = 0, de_wall_start = wall,
      de_odr_code = ucast (settings_get SETTING_IMU_ODR_CODE cfg),
      de_content = ucast (settings_get SETTING_IMU_CONTENT cfg),
      de_accel_fs = ucast (settings_get SETTING_IMU_ACCEL_FS cfg),
      de_gyro_fs = ucast (settings_get SETTING_IMU_GYRO_FS cfg),
      de_policy = 1, de_open = 1, de_rsvd = 0, de_rsvd2 = 0\<rparr>"

definition imu_log_start ::
  "'f flash_dev \<Rightarrow> settings_st \<Rightarrow> u32 \<Rightarrow> 'f log_st \<Rightarrow> int \<times> 'f log_st" where
  "imu_log_start fd cfg wall st =
     (if active st then (- EBUSY, st)
      else
        let sq = seq_next st;
            st1 = st\<lparr>cur_seq := sq, seq_next := sq + 1,
                     cur_slot := (sq - 1) mod IMU_LOG_MAX_SESSIONS,
                     cur_start := total_abs st, cur_count := 0, last_dir_refresh := 0,
                     stage_tail := stage_head st, log_dropped := 0\<rparr>;
            (ret, f') = entry_write fd (flash st1) (cur_slot st1)
              (start_entry cfg wall (cur_seq st1) (cur_start st1))
        in if ret < 0 then (ret, st1\<lparr>flash := f'\<rparr>) else (0, st1\<lparr>flash := f', active := True\<rparr>))"

text \<open>The locked part of stop, after the flush.\<close>

definition stop_finish :: "'f flash_dev \<Rightarrow> 'f log_st \<Rightarrow> 'f log_st" where
  "stop_finish fd st =
     (if active st
      then dir_refresh_current fd True (st\<lparr>active := False, session_detached := False\<rparr>)
      else st)"

definition imu_log_stop ::
  "'f flash_dev \<Rightarrow> (nat \<Rightarrow> 'f log_st \<times> msg_st \<Rightarrow> 'f log_st \<times> msg_st) \<Rightarrow>
   'f log_st \<times> msg_st \<Rightarrow> 'f log_st \<times> msg_st" where
  "imu_log_stop fd env s =
     (if \<not> active (fst s) then s
      else let (st, ms) = writer_flush 200 env s in (stop_finish fd st, ms))"

definition imu_log_erase ::
  "'f flash_dev \<Rightarrow> app_version \<Rightarrow> (nat \<Rightarrow> 'f log_st \<times> msg_st \<Rightarrow> 'f log_st \<times> msg_st) \<Rightarrow>
   'f log_st \<times> msg_st \<Rightarrow> 'f log_st \<times> msg_st" where
  "imu_log_erase fd v env s =
     (let (st, ms) = imu_log_stop fd env s
      in (st\<lparr>flash := dir_wipe_and_stamp fd v (flash st), total_abs := 0, seq_next := 1, cur_count := 0\<rparr>,
          ms))"

definition imu_log_mark_detached :: "'f log_st \<Rightarrow> 'f log_st" where
  "imu_log_mark_detached st = st\<lparr>session_detached := True\<rparr>"

definition imu_log_detached :: "'f log_st \<Rightarrow> bool" where
  "imu_log_detached st = (active st \<and> session_detached st)"

definition imu_log_bytes_stored :: "'f log_st \<Rightarrow> u32" where
  "imu_log_bytes_stored st =
     (if cur_count st > REC_CAPACITY then REC_CAPACITY else cur_count st) * REC_SIZE"

definition append_one :: "imu_sample \<Rightarrow> 'f log_st \<Rightarrow> 'f log_st" where
  "append_one x st =
     (if stage_head st - stage_tail st \<ge> of_nat STAGE_N then st\<lparr>log_dropped := log_dropped st + 1\<rparr>
      else st\<lparr>stage := (stage st)[stage_idx (stage_head st) := x], stage_head := stage_head st + 1\<rparr>)"

definition imu_log_append :: "imu_sample list \<Rightarrow> 'f log_st \<Rightarrow> 'f log_st" where
  "imu_log_append xs st = (if \<not> active st then st else fold append_one xs st)"

section \<open>Listing sessions\<close>

record imu_log_session =
  ls_seq :: u32
  ls_wall_start :: u32
  ls_rec_count :: u32
  ls_odr_code :: u8
  ls_content :: u8
  ls_accel_fs :: u8
  ls_gyro_fs :: u8

definition session_of_slot :: "'f flash_dev \<Rightarrow> 'f log_st \<Rightarrow> u32 \<Rightarrow> imu_log_session option" where
  "session_of_slot fd st i =
     (case live_entry fd (flash st) i of
        None \<Rightarrow> None
      | Some e \<Rightarrow>
          let floor = ring_floor st;
              count = (if active st \<and> i = cur_slot st then cur_count st else de_rec_count e);
              start = de_start_rec e;
              endr = start + count
          in if endr \<le> floor then None
             else let start' = (if start < floor then floor else start)
                  in Some \<lparr>ls_seq = de_seq e, ls_wall_start = de_wall_start e,
                       ls_rec_count = endr - start', ls_odr_code = de_odr_code e,
                       ls_content = de_content e, ls_accel_fs = de_accel_fs e,
                       ls_gyro_fs = de_gyro_fs e\<rparr>)"

text \<open>The in-place insertion sort, newest first: element \<open>j\<close> moves left by swaps.\<close>

fun sift_left :: "imu_log_session list \<Rightarrow> nat \<Rightarrow> imu_log_session list" where
  "sift_left xs 0 = xs"
| "sift_left xs (Suc j) =
     (if ls_seq (xs ! Suc j) > ls_seq (xs ! j)
      then sift_left (xs[Suc j := xs ! j, j := xs ! Suc j]) j else xs)"

definition sort_newest :: "imu_log_session list \<Rightarrow> imu_log_session list" where
  "sort_newest xs = fold (\<lambda>i ys. sift_left ys i) [1..<length xs] xs"

definition imu_log_session_list :: "'f flash_dev \<Rightarrow> nat \<Rightarrow> 'f log_st \<Rightarrow> imu_log_session list" where
  "imu_log_session_list fd mx st = take mx (sort_newest (List.map_filter (session_of_slot fd st) slots))"

section \<open>Reading a session back\<close>

definition find_session :: "'f flash_dev \<Rightarrow> 'f log_st \<Rightarrow> u32 \<Rightarrow> dir_entry option" where
  "find_session fd st sq =
     (case find (\<lambda>i. case live_entry fd (flash st) i of None \<Rightarrow> False | Some e \<Rightarrow> de_seq e = sq) slots of
        None \<Rightarrow> None
      | Some i \<Rightarrow>
          map_option (\<lambda>e. if active st \<and> i = cur_slot st then e\<lparr>de_rec_count := cur_count st\<rparr> else e)
            (live_entry fd (flash st) i))"

lemma span_pos:
  fixes len cap off :: u32
  assumes "len \<noteq> 0" "off < cap"
  shows "min len (cap - off) \<noteq> 0" "min len (cap - off) \<le> len"
proof -
  have "cap - off \<noteq> 0" using assms(2) by auto
  then show "min len (cap - off) \<noteq> 0" using assms(1) by (simp add: min_def)
qed simp

lemma unat_sub_less:
  fixes a b :: u32
  assumes "b \<noteq> 0" "b \<le> a"
  shows "unat (a - b) < unat a"
  using assms by (simp add: unat_sub word_le_nat_alt word_unat_eq_iff)

lemma mod_capacity_less: "(k :: u32) mod 695648 < 695648" "(k :: u32) mod 43478 < 43478"
  by (simp_all add: word_less_nat_alt unat_mod)

text \<open>The copy loop: spans of the byte ring, split where the ring wraps.\<close>

function read_ring :: "'f flash_dev \<Rightarrow> 'f \<Rightarrow> u32 \<Rightarrow> u32 \<Rightarrow> u32 \<Rightarrow> u8 list \<Rightarrow> int \<times> u8 list" where
  "read_ring fd f abs_byte len dn out =
     (if len = 0 then (int (unat dn), out)
      else
        let ring_off = abs_byte mod DATA_CAPACITY;
            span = min len (DATA_CAPACITY - ring_off);
            (ret, b) = phys_read fd f ring_off span
        in if ret < 0 then (ret, out)
           else read_ring fd f (abs_byte + span) (len - span) (dn + span) (out @ b))"
  by pat_completeness auto
termination
proof (relation "measure (\<lambda>(fd, f, a, len, d, out). unat len)", goal_cases)
  case (2 fd f abs_byte len d out ring_off span r ret b)
  then have "ring_off < DATA_CAPACITY" "len \<noteq> 0" by (simp_all add: mod_capacity_less)
  then have "unat (len - span) < unat len"
    using 2(3) span_pos [of len ring_off DATA_CAPACITY] by (intro unat_sub_less) auto
  then show ?case by simp
qed simp

declare read_ring.simps [simp del]

definition imu_log_read_session ::
  "'f flash_dev \<Rightarrow> 'f log_st \<Rightarrow> u32 \<Rightarrow> u32 \<Rightarrow> u32 \<Rightarrow> int \<times> u8 list" where
  "imu_log_read_session fd st sq offset len =
     (case find_session fd st sq of
        None \<Rightarrow> (0, [])
      | Some e \<Rightarrow>
          let floor = ring_floor st;
              start0 = de_start_rec e;
              endr = de_start_rec e + de_rec_count e;
              start = (if start0 < floor then floor else start0)
          in if endr \<le> start then (0, [])
             else
               let avail = (endr - start) * REC_SIZE
               in if offset \<ge> avail then (0, [])
                  else read_ring fd (flash st) (start * REC_SIZE + offset) (min len (avail - offset)) 0 [])"

end
