(* ===== verification/Log_Ring.thy ===== *)
theory Log_Ring
  imports Imu_Log
begin

text \<open>
  The record ring of the log against its specification, the history of all records ever written.
  \<open>log_rel\<close> says that the ring holds the last 43478 records of a history; the writer extends the
  history by exactly the records it takes from the staging ring, and a read returns a slice of it.
  The bound \<open>2 ^ 28\<close> on the history is where the byte counter of the read loop wraps
  (\<open>read_offset_wraps\<close> below shows what happens past it).
\<close>

section \<open>Staging ring\<close>

interpretation staging: ring_index STAGE_N stage_idx "\<lambda>t. unat t + STAGE_N \<le> 2 ^ 32"
proof unfold_locales
  fix t :: u32 and i j
  assume "unat t + STAGE_N \<le> 2 ^ 32" "i < STAGE_N" "j < STAGE_N"
    "stage_idx (t + of_nat i) = stage_idx (t + of_nat j)"
  then show "i = j" by (intro mod_idx_inj_nowrap [of t STAGE_N i j]) (simp_all add: stage_idx_def)
qed (simp_all add: stage_idx_def)

definition staged :: "'f log_st \<Rightarrow> imu_sample list" where
  "staged st = ring_contents stage_idx (stage_head st) (stage_tail st) (stage st)"

text \<open>The staging counters are in order and have not run over \<open>2 ^ 32\<close>.\<close>

definition stage_ok :: "'f log_st \<Rightarrow> bool" where
  "stage_ok st \<longleftrightarrow> length (stage st) = STAGE_N \<and> stage_tail st \<le> stage_head st \<and>
     unat (stage_head st) \<le> unat (stage_tail st) + STAGE_N \<and> unat (stage_head st) + STAGE_N \<le> 2 ^ 32"

lemma stage_okD:
  assumes "stage_ok st"
  shows "length (stage st) = STAGE_N" "unat (stage_tail st) + STAGE_N \<le> 2 ^ 32"
    "unat (stage_head st - stage_tail st) = unat (stage_head st) - unat (stage_tail st)"
    "unat (stage_head st - stage_tail st) \<le> STAGE_N" "length (staged st) \<le> STAGE_N"
    "length (staged st) = unat (stage_head st - stage_tail st)"
  using assms
  by (auto simp: stage_ok_def staged_def staging.length_contents unat_sub word_le_nat_alt)

lemma append_one_staged:
  assumes "stage_ok st" "unat (stage_head st) + STAGE_N < 2 ^ 32"
  shows "stage_ok (append_one x st) \<and>
    (if length (staged st) < STAGE_N
     then staged (append_one x st) = staged st @ [x] \<and> log_dropped (append_one x st) = log_dropped st
     else staged (append_one x st) = staged st \<and> log_dropped (append_one x st) = log_dropped st + 1)"
proof (cases "length (staged st) < STAGE_N")
  case True
  note ok = stage_okD [OF assms(1)]
  have fill: "unat (stage_head st - stage_tail st) < STAGE_N" using True ok(6) by simp
  have eq: "append_one x st = st\<lparr>stage := (stage st)[stage_idx (stage_head st) := x],
      stage_head := stage_head st + 1\<rparr>"
    using fill by (simp add: append_one_def word_le_nat_alt)
  have "unat (stage_head st + 1) = Suc (unat (stage_head st))"
    using assms(2) by (simp add: unat_word_ariths)
  then have "stage_ok (append_one x st)"
    using assms fill ok(3) unfolding eq by (simp add: stage_ok_def word_le_nat_alt)
  moreover have "staged (append_one x st) = staged st @ [x]"
    unfolding eq staged_def using staging.contents_push [OF ok(2) fill ok(1)] by simp
  ultimately show ?thesis using True eq by simp
next
  case False
  note ok = stage_okD [OF assms(1)]
  have "of_nat STAGE_N \<le> stage_head st - stage_tail st"
    using False ok by (simp add: word_le_nat_alt)
  then have "append_one x st = st\<lparr>log_dropped := log_dropped st + 1\<rparr>"
    by (simp add: append_one_def)
  then show ?thesis using False assms(1) by (simp add: staged_def stage_ok_def)
qed

section \<open>Where the log writes\<close>

lemma entry_addr_range:
  assumes "slot < 16"
  shows "unat (entry_addr slot) = 0xBA020 + 32 * unat slot" "unat (entry_addr slot) + 32 \<le> 0xBA220"
proof -
  have "unat slot < 16" using assms by (simp add: word_less_nat_alt)
  then have "unat (slot + 1) = unat slot + 1" "unat slot + 1 \<le> 16"
    by (simp_all add: unat_word_ariths)
  then have "unat ((slot + 1) * 32) = 32 * (unat slot + 1)"
    by (simp add: unat_word_ariths)
  then show "unat (entry_addr slot) = 0xBA020 + 32 * unat slot"
    using \<open>unat slot + 1 \<le> 16\<close> by (simp add: entry_addr_def unat_word_ariths)
  then show "unat (entry_addr slot) + 32 \<le> 0xBA220" using \<open>unat slot < 16\<close> by simp
qed

lemma slots_less: "i \<in> set slots \<longleftrightarrow> i < 16"
proof
  assume "i < 16"
  then have "unat i < 16" by (simp add: word_less_nat_alt)
  then have "i = of_nat (unat i) \<and> unat i \<in> {0..<16}" by simp
  then show "i \<in> set slots" unfolding slots_def by (metis image_eqI set_map set_upt)
qed (auto simp: slots_def word_less_nat_alt unat_of_nat_u32)

lemma distinct_slots: "distinct slots"
  by (simp add: slots_def upt_rec)

text \<open>A medium that agrees with another one outside an address range.\<close>

definition same_outside :: "('f \<Rightarrow> nat \<Rightarrow> u8) \<Rightarrow> nat \<Rightarrow> nat \<Rightarrow> 'f \<Rightarrow> 'f \<Rightarrow> bool" where
  "same_outside img lo hi f f' \<longleftrightarrow> (\<forall>x. x < lo \<or> hi \<le> x \<longrightarrow> img f' x = img f x)"

abbreviation LOG_LO :: nat where "LOG_LO \<equiv> 0xBA000"
abbreviation LOG_DATA :: nat where "LOG_DATA \<equiv> 0xBA220"
abbreviation LOG_HI :: nat where "LOG_HI \<equiv> 0x163F80"

lemma same_outside_refl [simp]: "same_outside img lo hi f f"
  by (simp add: same_outside_def)

lemma same_outside_trans:
  "same_outside img lo hi f f1 \<Longrightarrow> same_outside img lo hi f1 f2 \<Longrightarrow> same_outside img lo hi f f2"
  by (simp add: same_outside_def)

lemma same_outside_mono:
  "same_outside img lo hi f f' \<Longrightarrow> lo' \<le> lo \<Longrightarrow> hi \<le> hi' \<Longrightarrow> same_outside img lo' hi' f f'"
  by (auto simp: same_outside_def)

lemma write_same_outside:
  assumes "flash_laws fd img" "lo \<le> a" "a + length bs \<le> hi"
  shows "same_outside img lo hi f (snd (fd_write fd f a bs))"
  unfolding same_outside_def
proof (intro allI impI)
  fix x assume "x < lo \<or> hi \<le> x"
  then have "x < a \<or> a + length bs \<le> x" using assms(2,3) by auto
  then show "img (snd (fd_write fd f a bs)) x = img f x"
    by (rule flash_write_outside [OF assms(1) prod.collapse [symmetric]])
qed

lemma entry_write_outside:
  assumes "flash_laws fd img" "slot < 16"
  shows "same_outside img LOG_LO LOG_DATA f (snd (entry_write fd f slot e))"
  unfolding entry_write_def
  by (rule write_same_outside [OF assms(1)])
     (use entry_addr_range [OF assms(2)] in simp_all)

lemma wipe_outside:
  assumes "flash_laws fd img"
  shows "same_outside img LOG_LO LOG_DATA f (dir_wipe_and_stamp fd v f)"
  unfolding dir_wipe_and_stamp_def Let_def
  by (rule same_outside_trans; rule write_same_outside [OF assms]) (simp_all add: enc_meta_def)

text \<open>Directory maintenance touches the directory and \<open>last_dir_refresh\<close> only.\<close>

lemma dir_refresh_current_frame:
  "\<exists>f' l. dir_refresh_current fd c st = st\<lparr>flash := f', last_dir_refresh := l\<rparr> \<and>
     (flash_laws fd img \<longrightarrow> cur_slot st < 16 \<longrightarrow> same_outside img LOG_LO LOG_DATA (flash st) f')"
proof (cases "live_entry fd (flash st) (cur_slot st)")
  case None
  then have "dir_refresh_current fd c st =
      st\<lparr>flash := flash st, last_dir_refresh := last_dir_refresh st\<rparr>"
    by (simp add: dir_refresh_current_def)
  then show ?thesis by (metis same_outside_refl)
next
  case (Some e)
  then show ?thesis
    unfolding dir_refresh_current_def by (auto intro!: exI entry_write_outside)
qed

lemma consume_slot_frame:
  "\<exists>f' m. consume_slot fd up fl i (st, ms) = (st\<lparr>flash := f'\<rparr>, m) \<and>
     (flash_laws fd img \<longrightarrow> i < 16 \<longrightarrow> same_outside img LOG_LO LOG_DATA (flash st) f')"
proof -
  have "consume_slot fd up fl i (st, ms) = (st\<lparr>flash := flash st\<rparr>, ms) \<or>
    (\<exists>m. consume_slot fd up fl i (st, ms) = (st\<lparr>flash := entry_invalidate fd (flash st) i\<rparr>, m))"
    by (auto simp: consume_slot_def split: option.splits)
  then show ?thesis
    unfolding entry_invalidate_def by (metis same_outside_refl entry_write_outside)
qed

lemma fold_consume_frame:
  "\<forall>i \<in> set js. i < 16 \<Longrightarrow>
   \<exists>f' m. fold (consume_slot fd up fl) js (st, ms) = (st\<lparr>flash := f'\<rparr>, m) \<and>
     (flash_laws fd img \<longrightarrow> same_outside img LOG_LO LOG_DATA (flash st) f')"
proof (induction js arbitrary: st ms)
  case Nil
  have "(st, ms) = (st\<lparr>flash := flash st\<rparr>, ms)" by simp
  then show ?case by (metis fold_simps(1) same_outside_refl)
next
  case (Cons i js)
  obtain f m where 1: "consume_slot fd up fl i (st, ms) = (st\<lparr>flash := f\<rparr>, m)"
    "flash_laws fd img \<longrightarrow> i < 16 \<longrightarrow> same_outside img LOG_LO LOG_DATA (flash st) f"
    using consume_slot_frame [of fd up fl i st ms img] by blast
  obtain f' m' where 2: "fold (consume_slot fd up fl) js (st\<lparr>flash := f\<rparr>, m) = (st\<lparr>flash := f\<rparr>\<lparr>flash := f'\<rparr>, m')"
    "flash_laws fd img \<longrightarrow> same_outside img LOG_LO LOG_DATA f f'"
    using Cons.IH [of "st\<lparr>flash := f\<rparr>" m] Cons.prems by auto
  then have "fold (consume_slot fd up fl) (i # js) (st, ms) = (st\<lparr>flash := f'\<rparr>, m')"
    using 1(1) by simp
  moreover have "flash_laws fd img \<longrightarrow> same_outside img LOG_LO LOG_DATA (flash st) f'"
    using 1(2) 2(2) Cons.prems same_outside_trans [of img LOG_LO LOG_DATA "flash st" f f'] by simp
  ultimately show ?case by blast
qed

lemma invalidate_consumed_frame:
  "\<exists>f' m. invalidate_consumed fd up (st, ms) = (st\<lparr>flash := f'\<rparr>, m) \<and>
     (flash_laws fd img \<longrightarrow> same_outside img LOG_LO LOG_DATA (flash st) f')"
  unfolding invalidate_consumed_def by (rule fold_consume_frame) (simp add: slots_less)

text \<open>The refresh and the invalidation as the writer runs them, or neither.\<close>

definition dir_maintenance ::
  "'f flash_dev \<Rightarrow> int \<Rightarrow> 'f log_st \<times> msg_st \<Rightarrow> 'f log_st \<times> msg_st" where
  "dir_maintenance fd up s =
     (if cur_count (fst s) - last_dir_refresh (fst s) \<ge> DIR_REFRESH_RECS
      then invalidate_consumed fd up (dir_refresh_current fd False (fst s), snd s) else s)"

lemma dir_maintenance_frame:
  "\<exists>f' l m. dir_maintenance fd up (st, ms) = (st\<lparr>flash := f', last_dir_refresh := l\<rparr>, m) \<and>
     (flash_laws fd img \<longrightarrow> cur_slot st < 16 \<longrightarrow> same_outside img LOG_LO LOG_DATA (flash st) f')"
proof (cases "cur_count st - last_dir_refresh st \<ge> DIR_REFRESH_RECS")
  case True
  obtain f l where 1: "dir_refresh_current fd False st = st\<lparr>flash := f, last_dir_refresh := l\<rparr>"
    "flash_laws fd img \<longrightarrow> cur_slot st < 16 \<longrightarrow> same_outside img LOG_LO LOG_DATA (flash st) f"
    using dir_refresh_current_frame [of fd False st img] by blast
  obtain f' m where 2: "invalidate_consumed fd up (st\<lparr>flash := f, last_dir_refresh := l\<rparr>, ms) =
      (st\<lparr>flash := f, last_dir_refresh := l\<rparr>\<lparr>flash := f'\<rparr>, m)"
    "flash_laws fd img \<longrightarrow> same_outside img LOG_LO LOG_DATA f f'"
    using invalidate_consumed_frame [of fd up "st\<lparr>flash := f, last_dir_refresh := l\<rparr>" ms img] by auto
  have "dir_maintenance fd up (st, ms) = (st\<lparr>flash := f', last_dir_refresh := l\<rparr>, m)"
    using True 1(1) 2(1) by (simp add: dir_maintenance_def)
  moreover have "flash_laws fd img \<longrightarrow> cur_slot st < 16 \<longrightarrow> same_outside img LOG_LO LOG_DATA (flash st) f'"
    using 1(2) 2(2) same_outside_trans [of img LOG_LO LOG_DATA "flash st" f f'] by blast
  ultimately show ?thesis by blast
next
  case False
  then have "dir_maintenance fd up (st, ms) =
      (st\<lparr>flash := flash st, last_dir_refresh := last_dir_refresh st\<rparr>, ms)"
    by (simp add: dir_maintenance_def)
  then show ?thesis by (metis same_outside_refl)
qed

text \<open>The write of a batch: data, then counters.\<close>

definition drain_write :: "'f flash_dev \<Rightarrow> 'f log_st \<Rightarrow> 'f log_st" where
  "drain_write fd st = st\<lparr>flash := snd (phys_write fd (flash st) ((total_abs st mod REC_CAPACITY) * REC_SIZE)
                          (concat (map enc_sample (drain_batch st)))),
                        stage_tail := stage_tail st + drain_count st,
                        total_abs := total_abs st + drain_count st,
                        cur_count := cur_count st + drain_count st\<rparr>"

lemma writer_drain_batch_split:
  "writer_drain_batch fd up (st, ms) =
    (if stage_head st = stage_tail st then (st, ms) else dir_maintenance fd up (drain_write fd st, ms))"
  by (simp add: writer_drain_batch_def dir_maintenance_def drain_write_def Let_def)

lemma drain_count_bounds:
  "unat (drain_count st) \<le> unat (stage_head st - stage_tail st)"
  "unat (drain_count st) \<le> 256"
  "unat (drain_count st) \<le> 43478 - unat (total_abs st) mod 43478"
proof -
  have "unat (43478 - total_abs st mod 43478) = 43478 - unat (total_abs st) mod 43478"
    using mod_capacity_less(2) [of "total_abs st"]
    by (subst unat_sub) (auto simp: unat_mod word_less_nat_alt word_le_nat_alt)
  then show "unat (drain_count st) \<le> unat (stage_head st - stage_tail st)"
    "unat (drain_count st) \<le> 256"
    "unat (drain_count st) \<le> 43478 - unat (total_abs st) mod 43478"
    by (auto simp: drain_count_def min_def word_le_nat_alt)
qed

lemma drain_count_pos: "stage_head st \<noteq> stage_tail st \<Longrightarrow> 0 < unat (drain_count st)"
proof -
  assume "stage_head st \<noteq> stage_tail st"
  then have "min (stage_head st - stage_tail st) 256 \<noteq> 0" by (simp add: min_def)
  then have "drain_count st \<noteq> 0"
    using span_pos(1) mod_capacity_less(2) by (simp add: drain_count_def)
  then show ?thesis by (simp add: unat_gt_0)
qed

section \<open>The ring as the tail of a history\<close>

abbreviation CAP :: nat where "CAP \<equiv> 43478"

definition rec_cell :: "('f \<Rightarrow> nat \<Rightarrow> u8) \<Rightarrow> 'f \<Rightarrow> nat \<Rightarrow> u8 list" where
  "rec_cell img f i = flash_window img f (LOG_DATA + 16 * i) 16"

definition log_rel :: "('f \<Rightarrow> nat \<Rightarrow> u8) \<Rightarrow> 'f log_st \<Rightarrow> imu_sample list \<Rightarrow> bool" where
  "log_rel img st hist \<longleftrightarrow> unat (total_abs st) = length hist \<and>
     holds_last CAP (rec_cell img (flash st)) (map enc_sample hist)"

text \<open>Directory writes do not reach the record ring.\<close>

lemma rec_cell_outside:
  assumes "same_outside img LOG_LO LOG_DATA f f'"
  shows "rec_cell img f' = rec_cell img f"
  using assms by (auto simp: fun_eq_iff rec_cell_def same_outside_def intro!: flash_window_eqI)

lemma log_rel_outside:
  "log_rel img st hist \<Longrightarrow> same_outside img LOG_LO LOG_DATA (flash st) f' \<Longrightarrow>
   log_rel img (st\<lparr>flash := f', last_dir_refresh := l\<rparr>) hist"
  by (simp add: log_rel_def rec_cell_outside)

lemma log_rel_cong:
  "total_abs st' = total_abs st \<Longrightarrow> flash st' = flash st \<Longrightarrow> log_rel img st' hist = log_rel img st hist"
  by (simp add: log_rel_def)

lemma length_drain_batch [simp]: "length (drain_batch st) = unat (drain_count st)"
  by (simp add: drain_batch_def)

lemma drain_batch_staged:
  assumes "stage_ok st"
  shows "drain_batch st = take (unat (drain_count st)) (staged st)"
  unfolding drain_batch_def staged_def
  by (rule staging.contents_peek [OF drain_count_bounds(1)])

text \<open>Byte address of the slot that the next record goes to.\<close>

lemma write_pos:
  "unat (DATA_BASE + (total_abs st mod REC_CAPACITY) * REC_SIZE) =
   LOG_DATA + 16 * (unat (total_abs st) mod CAP)"
proof -
  have p: "unat (total_abs st mod 43478) = unat (total_abs st) mod CAP" by (simp add: unat_mod)
  have "unat (total_abs st) mod CAP < CAP" by simp
  then have m: "unat ((total_abs st mod 43478) * 16) = 16 * (unat (total_abs st) mod CAP)"
    by (subst unat_mult_nowrap) (simp_all add: p)
  then show ?thesis
    using \<open>unat (total_abs st) mod CAP < CAP\<close> by (subst layout_values)+ (subst unat_add_nowrap, simp_all)
qed

lemma length_enc_batch: "length (concat (map enc_sample xs)) = 16 * length xs"
  by (simp add: length_concat_const)

lemma drain_write_outside:
  assumes "flash_laws fd img"
  shows "same_outside img LOG_DATA LOG_HI (flash st) (flash (drain_write fd st))"
proof -
  have "unat (total_abs st) mod CAP + unat (drain_count st) \<le> CAP"
    using drain_count_bounds(3) [of st] by (simp add: mod_le_divisor)
  then show ?thesis
    using write_same_outside [OF assms, of LOG_DATA "LOG_DATA + 16 * (unat (total_abs st) mod CAP)"
        "concat (map enc_sample (drain_batch st))" LOG_HI "flash st"]
    by (simp add: drain_write_def phys_write_def write_pos length_enc_batch
        del: layout_values)
qed

lemma drain_write_rel:
  assumes laws: "flash_laws fd img" "flash_writable fd LOG_LO LOG_HI"
    and rel: "log_rel img st hist" and ok: "stage_ok st"
    and small: "length hist + unat (drain_count st) < 2 ^ 32"
  shows "log_rel img (drain_write fd st) (hist @ take (unat (drain_count st)) (staged st))"
proof -
  let ?n = "unat (drain_count st)" and ?p = "length hist mod CAP"
  let ?bs = "concat (map enc_sample (drain_batch st))" and ?f = "flash (drain_write fd st)"
  have len: "unat (total_abs st) = length hist" using rel by (simp add: log_rel_def)
  have n: "?n \<le> CAP - ?p" using drain_count_bounds(3) [of st] len by simp
  then have fits: "?p + ?n \<le> CAP" by (simp add: mod_le_divisor)
  let ?a = "LOG_DATA + 16 * ?p"
  have w: "fd_write fd (flash st) ?a ?bs = (0, ?f)"
    using reliable_write [OF laws(2), of ?a ?bs "flash st"] fits
    by (simp add: drain_write_def phys_write_def write_pos len length_enc_batch del: layout_values)
  have new: "rec_cell img ?f (?p + i) = enc_sample (drain_batch st ! i)" if i: "i < ?n" for i
  proof (rule nth_equalityI)
    fix j assume j: "j < length (rec_cell img ?f (?p + i))"
    then have j: "j < 16" by (simp add: rec_cell_def)
    have "img ?f (?a + (16 * i + j)) = ?bs ! (16 * i + j)"
      using i j by (intro flash_write_inside [OF laws(1) w]) (simp add: length_enc_batch)
    also have "\<dots> = enc_sample (drain_batch st ! i) ! j"
      using i j by (intro nth_concat_const) simp_all
    finally show "rec_cell img ?f (?p + i) ! j = enc_sample (drain_batch st ! i) ! j"
      using j by (simp add: rec_cell_def algebra_simps)
  qed (simp add: rec_cell_def)
  have old: "rec_cell img ?f q = rec_cell img (flash st) q" if "q < CAP" "q < ?p \<or> ?p + ?n \<le> q" for q
    unfolding rec_cell_def
    by (rule flash_window_untouched [OF laws(1) w]) (use that in \<open>auto simp: length_enc_batch\<close>)
  have "holds_last CAP (rec_cell img ?f) (map enc_sample hist @ map enc_sample (drain_batch st))"
    using rel n new old
    by (intro holds_last_append [where cell = "rec_cell img (flash st)"]) (auto simp: log_rel_def)
  moreover have "unat (total_abs (drain_write fd st)) = length hist + ?n"
    using small len by (simp add: drain_write_def unat_add_nowrap)
  moreover have "?n \<le> length (staged st)"
    using drain_count_bounds(1) [of st] stage_okD(6) [OF ok] by simp
  ultimately show ?thesis
    by (simp add: log_rel_def drain_batch_staged [OF ok, symmetric])
qed

lemma drain_write_stage:
  assumes "stage_ok st"
  shows "stage_ok (drain_write fd st)"
    "staged (drain_write fd st) = drop (unat (drain_count st)) (staged st)"
proof -
  have n: "unat (drain_count st) \<le> unat (stage_head st - stage_tail st)" by (rule drain_count_bounds)
  have "staged (drain_write fd st) =
      ring_contents stage_idx (stage_head st) (stage_tail st + of_nat (unat (drain_count st))) (stage st)"
    by (simp add: staged_def drain_write_def)
  then show "staged (drain_write fd st) = drop (unat (drain_count st)) (staged st)"
    by (simp only: staging.contents_pop [OF n] staged_def)
  have "unat (stage_tail st + drain_count st) = unat (stage_tail st) + unat (drain_count st)"
    using n assms stage_okD(3) [OF assms] by (intro unat_add_nowrap) (auto simp: stage_ok_def word_le_nat_alt)
  then show "stage_ok (drain_write fd st)"
    using n assms stage_okD(3) [OF assms] by (auto simp: stage_ok_def drain_write_def word_le_nat_alt)
qed

text \<open>One pass of the writer: a prefix of the staging ring goes to the end of the history.\<close>

lemma dir_maintenance_rel:
  assumes "flash_laws fd img" "cur_slot st < 16" "log_rel img st hist"
  shows "log_rel img (fst (dir_maintenance fd up (st, ms))) hist \<and>
    staged (fst (dir_maintenance fd up (st, ms))) = staged st \<and>
    (stage_ok st \<longrightarrow> stage_ok (fst (dir_maintenance fd up (st, ms)))) \<and>
    cur_count (fst (dir_maintenance fd up (st, ms))) = cur_count st"
proof -
  obtain f l m where "dir_maintenance fd up (st, ms) = (st\<lparr>flash := f, last_dir_refresh := l\<rparr>, m)"
    "same_outside img LOG_LO LOG_DATA (flash st) f"
    using dir_maintenance_frame [of fd up st ms img] assms by blast
  then show ?thesis using log_rel_outside [OF assms(3)] by (simp add: staged_def stage_ok_def)
qed

lemma writer_drain_batch_rel:
  assumes "flash_laws fd img" "flash_writable fd LOG_LO LOG_HI"
    and "log_rel img st hist" "stage_ok st" "cur_slot st < 16" "length hist + 256 < 2 ^ 32"
    and "writer_drain_batch fd up (st, ms) = (st', ms')"
  shows "\<exists>n. n \<le> length (staged st) \<and> (staged st \<noteq> [] \<longrightarrow> 0 < n) \<and>
    log_rel img st' (hist @ take n (staged st)) \<and> staged st' = drop n (staged st) \<and> stage_ok st' \<and>
    cur_count st' = cur_count st + of_nat n"
proof (cases "stage_head st = stage_tail st")
  case True
  then have "st' = st" "staged st = []"
    using assms(7) stage_okD(6) [OF assms(4)] by (auto simp: writer_drain_batch_split)
  then show ?thesis using assms(3,4) by (intro exI [of _ 0]) simp
next
  case False
  let ?n = "unat (drain_count st)" and ?w = "drain_write fd st"
  have "cur_slot ?w < 16" "st' = fst (dir_maintenance fd up (?w, ms))"
    using assms(5,7) False by (simp_all add: drain_write_def writer_drain_batch_split del: layout_values)
  moreover have "log_rel img ?w (hist @ take ?n (staged st))"
    using assms(6) drain_count_bounds(2) [of st]
    by (intro drain_write_rel [OF assms(1-4)]) simp
  ultimately have "log_rel img st' (hist @ take ?n (staged st)) \<and> staged st' = drop ?n (staged st) \<and>
      stage_ok st' \<and> cur_count st' = cur_count ?w"
    using dir_maintenance_rel [OF assms(1), of ?w] drain_write_stage [OF assms(4)] by simp
  moreover have "cur_count ?w = cur_count st + of_nat ?n" by (simp add: drain_write_def)
  moreover have "?n \<le> length (staged st)" "0 < ?n"
    using drain_count_bounds(1) [of st] stage_okD(6) [OF assms(4)] drain_count_pos [OF False] by simp_all
  ultimately show ?thesis by metis
qed

section \<open>Reading\<close>

text \<open>The bytes of records \<open>a\<close> to \<open>b\<close> of a history that are still in the ring.\<close>

definition window_bytes :: "imu_sample list \<Rightarrow> nat \<Rightarrow> nat \<Rightarrow> u8 list" where
  "window_bytes hist a b = concat (map enc_sample (drop a (take b hist)))"

text \<open>The ring as one byte array: byte \<open>k\<close> of the history is at \<open>k mod (16 * CAP)\<close>.\<close>

lemma log_rel_byte:
  assumes "log_rel img st hist" "k < 16 * length hist" "16 * length hist \<le> k + 16 * CAP"
  shows "img (flash st) (LOG_DATA + k mod (16 * CAP)) = concat (map enc_sample hist) ! k"
proof -
  let ?q = "k div 16" and ?r = "k mod 16"
  have q: "?q < length hist" "length hist \<le> ?q + CAP"
    using assms(2,3) by (simp_all add: less_mult_imp_div_less mult.commute)
  then have "rec_cell img (flash st) (?q mod CAP) = enc_sample (hist ! ?q)"
    using holds_lastD [of CAP "rec_cell img (flash st)" "map enc_sample hist" ?q] assms(1)
    by (simp add: log_rel_def)
  then have "rec_cell img (flash st) (?q mod CAP) ! ?r = enc_sample (hist ! ?q) ! ?r" by simp
  moreover have "k mod (16 * CAP) = 16 * (?q mod CAP) + ?r"
    by (rule mod_mult2_eq)
  moreover have "concat (map enc_sample hist) ! k = enc_sample (hist ! ?q) ! ?r"
    using assms(2) by (intro nth_concat_const_divmod) simp_all
  ultimately show ?thesis by (simp add: rec_cell_def add.assoc)
qed

lemma phys_read_ring:
  assumes "flash_laws fd img" "flash_readable fd LOG_LO LOG_HI" "unat off + unat n \<le> 16 * CAP"
  shows "phys_read fd f off n = (0, map (\<lambda>j. img f (LOG_DATA + (unat off + j))) [0..<unat n])"
proof -
  have "unat (DATA_BASE + off) = LOG_DATA + unat off"
    using assms(3) by (subst layout_values) (subst unat_add_nowrap, simp_all)
  moreover have "map (img f) [LOG_DATA + unat off..<LOG_DATA + unat off + unat n] =
      map (\<lambda>j. img f (LOG_DATA + (unat off + j))) [0..<unat n]"
    by (rule nth_equalityI) (simp_all add: add.assoc)
  ultimately show ?thesis
    using reliable_read [OF assms(1,2), of "LOG_DATA + unat off" "unat n" f] assms(3)
    by (simp add: phys_read_def)
qed

lemma span_bytes:
  assumes "log_rel img st hist" "m = a mod (16 * CAP)" "m + n \<le> 16 * CAP"
    and "a + n \<le> 16 * length hist" "16 * length hist \<le> a + 16 * CAP"
  shows "map (\<lambda>j. img (flash st) (LOG_DATA + (m + j))) [0..<n] = take n (drop a (concat (map enc_sample hist)))"
proof (rule nth_equalityI)
  fix j assume "j < length (map (\<lambda>j. img (flash st) (LOG_DATA + (m + j))) [0..<n])"
  then have j: "j < n" by simp
  then have "(m + j) mod (16 * CAP) = m + j" using assms(3) by (intro mod_less) simp
  then have "(a + j) mod (16 * CAP) = m + j" unfolding assms(2) by (simp only: mod_add_left_eq)
  then show "map (\<lambda>j. img (flash st) (LOG_DATA + (m + j))) [0..<n] ! j =
      take n (drop a (concat (map enc_sample hist))) ! j"
    using log_rel_byte [OF assms(1), of "a + j"] j assms(4,5) by (simp add: length_enc_batch)
qed (use assms(4) in \<open>simp add: length_enc_batch\<close>)

lemma read_ring_bytes:
  assumes "flash_laws fd img" "flash_readable fd LOG_LO LOG_HI" "log_rel img st hist"
    and "unat a + unat len \<le> 16 * length hist" "16 * length hist \<le> unat a + 16 * CAP"
    and "16 * length hist < 2 ^ 32" "unat dn + unat len < 2 ^ 32"
  shows "read_ring fd (flash st) a len dn out =
    (int (unat dn + unat len), out @ take (unat len) (drop (unat a) (concat (map enc_sample hist))))"
  using assms(4,5,7)
proof (induction "unat len" arbitrary: a len dn out rule: less_induct)
  case less
  show ?case
  proof (cases "len = 0")
    case True
    then show ?thesis by (simp add: read_ring.simps)
  next
    case False
    let ?D = "concat (map enc_sample hist)"
    define off span where "off = a mod 695648" and "span = min len (695648 - off)"
    have off: "unat off = unat a mod (16 * CAP)" by (simp add: off_def unat_mod)
    have "unat (695648 - off) = 16 * CAP - unat off"
      using mod_capacity_less(1) [of a]
      by (subst unat_sub) (simp_all add: off_def word_less_nat_alt word_le_nat_alt)
    then have span: "unat span = min (unat len) (16 * CAP - unat off)"
      by (auto simp: span_def min_def word_le_nat_alt)
    have offlt: "unat off < 16 * CAP" unfolding off by simp
    have pos: "0 < unat span" using False span offlt by (simp add: unat_gt_0)
    have le: "unat span \<le> unat len" "unat off + unat span \<le> 16 * CAP" using span offlt by auto
    have bytes: "map (\<lambda>j. img (flash st) (LOG_DATA + (unat off + j))) [0..<unat span] =
        take (unat span) (drop (unat a) ?D)"
      using le less.prems by (intro span_bytes [OF assms(3) off]) simp_all
    have step: "read_ring fd (flash st) a len dn out =
        read_ring fd (flash st) (a + span) (len - span) (dn + span) (out @ take (unat span) (drop (unat a) ?D))"
      using phys_read_ring [OF assms(1,2) le(2), of "flash st"] False bytes
      by (subst read_ring.simps) (simp add: off_def [symmetric] span_def [symmetric])
    have la: "unat (len - span) = unat len - unat span" "unat (a + span) = unat a + unat span"
      "unat (dn + span) = unat dn + unat span"
      using le(1) less.prems(1,3) assms(6)
      by (simp_all add: unat_sub word_le_nat_alt unat_add_nowrap)
    let ?X = "drop (unat a) ?D"
    have cat: "take (unat span) ?X @ take (unat len - unat span) (drop (unat span) ?X) = take (unat len) ?X"
      using le(1) by (metis le_add_diff_inverse take_add)
    have "read_ring fd (flash st) (a + span) (len - span) (dn + span) (out @ take (unat span) ?X) =
       (int (unat (dn + span) + unat (len - span)),
        (out @ take (unat span) ?X) @ take (unat (len - span)) (drop (unat (a + span)) ?D))"
      using pos le(1) less.prems la by (intro less.hyps) simp_all
    then show ?thesis
      using le(1) cat unfolding step by (simp add: la add.commute del: take_append)
  qed
qed

text \<open>A whole read: the requested slice of the records that survive in the ring.\<close>

lemma ring_floor_unat:
  "unat (total_abs st) = n \<Longrightarrow> unat (ring_floor st) = n - CAP"
  by (auto simp: ring_floor_def unat_sub word_less_nat_alt word_le_nat_alt)

lemma length_window_bytes: "length (window_bytes hist a b) = 16 * (min b (length hist) - a)"
  by (simp add: window_bytes_def length_enc_batch min.commute)

lemma take_drop_slice:
  "take n (drop m (drop p (take q xs))) = take (min n (q - p - m)) (drop (p + m) xs)"
  by (simp add: drop_take min.commute add.commute)

lemma window_bytes_alt:
  "take n (drop m (window_bytes hist a b)) =
   take (min n (16 * (b - a) - m)) (drop (16 * a + m) (concat (map enc_sample hist)))"
proof -
  have "window_bytes hist a b = drop (16 * a) (take (16 * b) (concat (map enc_sample hist)))"
    by (simp add: window_bytes_def take_concat_const drop_concat_const)
  then show ?thesis by (simp only: take_drop_slice diff_mult_distrib2)
qed

lemma read_window:
  fixes len off sa av :: u32
  assumes "flash_laws fd img" "flash_readable fd LOG_LO LOG_HI" "log_rel img st hist" "16 * length hist < 2 ^ 32"
    and "unat sa = a" "unat av = 16 * (b - a)" "\<not> av \<le> off" "b \<le> length hist" "length hist - CAP \<le> a"
  defines "bs \<equiv> take (unat len) (drop (unat off) (window_bytes hist a b))"
  shows "read_ring fd (flash st) (sa * 16 + off) (min len (av - off)) 0 [] = (int (length bs), bs)"
proof -
  have o: "unat off < 16 * (b - a)" using assms(6,7) by (simp add: word_le_nat_alt)
  have n: "unat (min len (av - off)) = min (unat len) (16 * (b - a) - unat off)"
    using o assms(6) by (simp add: min_def word_le_nat_alt unat_sub)
  have "unat (sa * 16) = 16 * a" using o assms(4,5,8) by (subst unat_mult_nowrap) simp_all
  then have so: "unat (sa * 16 + off) = 16 * a + unat off"
    using o assms(4,8) by (subst unat_add_nowrap) simp_all
  have "16 * length hist \<le> 16 * a + unat off + 16 * CAP" using assms(9) by simp
  moreover have "16 * a + unat off + min (unat len) (16 * (b - a) - unat off) \<le> 16 * length hist"
    using o assms(8) by linarith
  ultimately have "read_ring fd (flash st) (sa * 16 + off) (min len (av - off)) 0 [] =
      (int (min (unat len) (16 * (b - a) - unat off)), bs)"
    using read_ring_bytes [OF assms(1-3) _ _ assms(4), of "sa * 16 + off" "min len (av - off)" 0 "[]"] unat_bound [of len]
    unfolding bs_def n so window_bytes_alt by simp
  moreover have "length bs = min (unat len) (16 * (b - a) - unat off)"
    unfolding bs_def using assms(8) by (simp add: length_window_bytes)
  ultimately show ?thesis by simp
qed

lemma read_session_bytes:
  fixes len off :: u32
  assumes "flash_laws fd img" "flash_readable fd LOG_LO LOG_HI" "log_rel img st hist"
    and "find_session fd st sq = Some e"
    and "unat (de_start_rec e) + unat (de_rec_count e) \<le> length hist" "16 * length hist < 2 ^ 32"
  defines "bs \<equiv> take (unat len) (drop (unat off) (window_bytes hist
      (max (unat (de_start_rec e)) (length hist - CAP)) (unat (de_start_rec e) + unat (de_rec_count e))))"
  shows "imu_log_read_session fd st sq off len = (int (length bs), bs)"
proof -
  define a b where "a = max (unat (de_start_rec e)) (length hist - CAP)"
    and "b = unat (de_start_rec e) + unat (de_rec_count e)"
  define sa where "sa = (if de_start_rec e < ring_floor st then ring_floor st else de_start_rec e)"
  define en where "en = de_start_rec e + de_rec_count e"
  have len: "unat (total_abs st) = length hist" using assms(3) by (simp add: log_rel_def)
  have fl: "unat (ring_floor st) = length hist - CAP" by (rule ring_floor_unat [OF len])
  have sa: "unat sa = a" using fl by (auto simp: sa_def a_def word_less_nat_alt)
  have en: "unat en = b" using assms(5,6) by (simp add: en_def b_def unat_add_nowrap)
  have b: "b \<le> length hist" using assms(5) by (simp add: b_def)
  have bs: "bs = take (unat len) (drop (unat off) (window_bytes hist a b))"
    by (simp add: bs_def a_def b_def)
  show ?thesis
  proof (cases "b \<le> a")
    case True
    then have "bs = []" unfolding bs by (simp add: window_bytes_def)
    moreover have "en \<le> sa" using True sa en by (simp add: word_le_nat_alt)
    ultimately show ?thesis
      using assms(4) by (simp add: imu_log_read_session_def sa_def [symmetric] en_def [symmetric] del: layout_values)
  next
    case False
    then have ne: "\<not> en \<le> sa" using sa en by (simp add: word_le_nat_alt)
    have "unat (en - sa) = b - a" using False sa en by (simp add: unat_sub word_le_nat_alt)
    then have avail: "unat ((en - sa) * 16) = 16 * (b - a)"
      using b assms(6) by (subst unat_mult_nowrap) simp_all
    show ?thesis
    proof (cases "(en - sa) * 16 \<le> off")
      case True
      then have "bs = []"
        unfolding bs using avail b by (simp add: word_le_nat_alt length_window_bytes)
      then show ?thesis
        using assms(4) ne True
        by (simp add: imu_log_read_session_def Let_def sa_def [symmetric] en_def [symmetric])
    next
      case lt: False
      have "read_ring fd (flash st) (sa * 16 + off) (min len ((en - sa) * 16 - off)) 0 [] = (int (length bs), bs)"
        unfolding bs using lt b by (intro read_window [OF assms(1-3,6) sa avail]) (simp_all add: a_def)
      then show ?thesis
        using assms(4) ne lt
        by (simp add: imu_log_read_session_def Let_def sa_def [symmetric] en_def [symmetric])
    qed
  qed
qed

end
