(* ===== verification/Log_Directory.thy ===== *)
theory Log_Directory
  imports Log_Ring
begin

text \<open>
  The session directory of the log against its specification, a map from slots to entries. The byte
  operations of \<open>imu_log.c\<close> refine map operations when the controller works in the log region
  (\<open>dir_dev\<close>); the invariant \<open>dir_ok\<close> ties the map to the counters of the log, and every operation
  keeps it. Its consequences: a started session is found again, closed and read back whole, and a
  reboot recovers the counters from the directory.
\<close>

section \<open>The directory as a map\<close>

definition dir_map :: "('f \<Rightarrow> nat \<Rightarrow> u8) \<Rightarrow> 'f \<Rightarrow> u32 \<Rightarrow> dir_entry option" where
  "dir_map img f slot =
     (let e = dec_entry (flash_window img f (unat (entry_addr slot)) 32)
      in if slot < 16 \<and> de_magic e = ENTRY_MAGIC then Some e else None)"

text \<open>A controller that works in the region of the log.\<close>

definition dir_dev :: "'f flash_dev \<Rightarrow> ('f \<Rightarrow> nat \<Rightarrow> u8) \<Rightarrow> bool" where
  "dir_dev fd img \<longleftrightarrow> flash_laws fd img \<and> flash_readable fd LOG_LO LOG_HI \<and> flash_writable fd LOG_LO LOG_HI"

lemma dir_devD:
  "dir_dev fd img \<Longrightarrow> flash_laws fd img"
  "dir_dev fd img \<Longrightarrow> flash_readable fd LOG_LO LOG_HI"
  "dir_dev fd img \<Longrightarrow> flash_writable fd LOG_LO LOG_HI"
  by (simp_all add: dir_dev_def)

lemma ram_flash_dir_dev: "dir_dev ram_flash (\<lambda>m. m)"
  using ram_flash_laws ram_flash_readable ram_flash_writable
  by (auto simp: dir_dev_def flash_readable_def flash_writable_def)

lemma live_entry_dir:
  assumes "dir_dev fd img" "slot < 16"
  shows "live_entry fd f slot = dir_map img f slot"
  using reliable_read [OF dir_devD(1,2) [OF assms(1)], of "unat (entry_addr slot)" 32 f]
    entry_addr_range [OF assms(2)] assms(2)
  by (simp add: live_entry_def entry_read_def dir_map_def flash_window_def Let_def)

lemma dir_map_cong:
  "flash_window img f (unat (entry_addr i)) 32 = flash_window img f' (unat (entry_addr i)) 32 \<Longrightarrow>
   dir_map img f i = dir_map img f' i"
  by (simp add: dir_map_def)

lemma entry_addr_apart:
  assumes "i < 16" "j < 16" "i \<noteq> j"
  shows "unat (entry_addr i) + 32 \<le> unat (entry_addr j) \<or> unat (entry_addr j) + 32 \<le> unat (entry_addr i)"
proof -
  have "unat i \<noteq> unat j" using assms(3) by (metis word_unat_eq_iff)
  then show ?thesis using entry_addr_range(1) [OF assms(1)] entry_addr_range(1) [OF assms(2)] by linarith
qed

lemma dir_map_outside: "\<not> i < 16 \<Longrightarrow> dir_map img f i = None"
  by (simp add: dir_map_def)

lemma entry_write_dir:
  assumes "dir_dev fd img" "slot < 16"
  shows "\<exists>f'. entry_write fd f slot e = (0, f') \<and>
    dir_map img f' = (dir_map img f)(slot := if de_magic e = ENTRY_MAGIC then Some e else None) \<and>
    same_outside img LOG_LO LOG_DATA f f'"
proof -
  let ?a = "unat (entry_addr slot)"
  define f' where "f' = snd (fd_write fd f ?a (enc_entry e))"
  note laws = dir_devD [OF assms(1)]
  have w: "fd_write fd f ?a (enc_entry e) = (0, f')"
    unfolding f'_def using entry_addr_range [OF assms(2)] by (intro reliable_write [OF laws(3)]) simp_all
  have self: "dir_map img f' slot = (if de_magic e = ENTRY_MAGIC then Some e else None)"
    using flash_window_written [OF laws(1) w] assms(2) by (simp add: dir_map_def)
  have other: "dir_map img f' i = dir_map img f i" if "i \<noteq> slot" for i
  proof (cases "i < 16")
    case True
    then show ?thesis
      using entry_addr_apart [OF True assms(2) that]
      by (intro dir_map_cong flash_window_untouched [OF laws(1) w]) auto
  qed (simp add: dir_map_outside)
  have "dir_map img f' = (dir_map img f)(slot := if de_magic e = ENTRY_MAGIC then Some e else None)"
    using self other by (auto simp: fun_eq_iff)
  then show ?thesis
    using w entry_write_outside [OF laws(1) assms(2), of f e] by (auto simp: entry_write_def)
qed

lemma dir_map_data:
  assumes "same_outside img LOG_DATA LOG_HI f f'"
  shows "dir_map img f' = dir_map img f"
proof
  fix i show "dir_map img f' i = dir_map img f i"
  proof (cases "i < 16")
    case True
    then show ?thesis
      using assms entry_addr_range(2) [OF True]
      by (intro dir_map_cong flash_window_eqI) (simp add: same_outside_def)
  qed (simp add: dir_map_outside)
qed

lemma invalid_entry_magic [simp]: "de_magic invalid_entry = 0"
  by (simp add: invalid_entry_def)

lemma entry_invalidate_dir:
  assumes "dir_dev fd img" "slot < 16"
  shows "dir_map img (entry_invalidate fd f slot) = (dir_map img f)(slot := None) \<and>
    same_outside img LOG_LO LOG_DATA f (entry_invalidate fd f slot)"
  using entry_write_dir [OF assms, of f invalid_entry] by (auto simp: entry_invalidate_def)

section \<open>Refinement of the directory operations\<close>

lemma erased_magic: "de_magic (dec_entry (replicate 32 0xFF)) = 0xFFFFFFFF"
  by code_simp

lemma wipe_dir:
  assumes "dir_dev fd img"
  shows "dir_map img (dir_wipe_and_stamp fd v f) = Map.empty \<and>
    dir_trusted fd v' (dir_wipe_and_stamp fd v f) = (fw_version_word v' = fw_version_word v)"
proof -
  note laws = dir_devD [OF assms]
  define f1 where "f1 = snd (fd_write fd f LOG_LO (replicate 544 0xFF))"
  define f2 where "f2 = snd (fd_write fd f1 LOG_LO (enc_meta v))"
  have w1: "fd_write fd f LOG_LO (replicate 544 0xFF) = (0, f1)"
    unfolding f1_def by (rule reliable_write [OF laws(3)]) simp_all
  have w2: "fd_write fd f1 LOG_LO (enc_meta v) = (0, f2)"
    unfolding f2_def by (rule reliable_write [OF laws(3)]) (simp_all add: enc_meta_def)
  have f2: "dir_wipe_and_stamp fd v f = f2" by (simp add: dir_wipe_and_stamp_def f1_def f2_def)
  have "dir_map img f2 i = None" for i
  proof (cases "i < 16")
    case True
    let ?a = "unat (entry_addr i)"
    have a: "LOG_LO + 32 \<le> ?a" "?a + 32 \<le> LOG_LO + 544" using entry_addr_range [OF True] by simp_all
    have "flash_window img f2 ?a 32 = flash_window img f1 ?a 32"
      using a by (intro flash_window_untouched [OF laws(1) w2]) (simp add: enc_meta_def)
    moreover have "img f1 (?a + j) = 0xFF" if "j < 32" for j
      using flash_write_inside [OF laws(1) w1, of "?a + j - LOG_LO"] a that by simp
    then have "flash_window img f1 ?a 32 = replicate 32 0xFF" by (simp add: list_eq_iff_nth_eq)
    ultimately show ?thesis using erased_magic by (simp add: dir_map_def)
  qed (simp add: dir_map_outside)
  moreover have "fd_read fd f2 LOG_LO 32 = (0, enc_meta v)"
    using reliable_read [OF laws(1,2), of LOG_LO 32 f2] flash_window_written [OF laws(1) w2]
    by (simp add: flash_window_def enc_meta_def)
  then have "dir_trusted fd v' f2 = (fw_version_word v' = fw_version_word v)"
    by (auto simp: dir_trusted_def enc_meta_def)
  ultimately show ?thesis unfolding f2 by auto
qed

lemma dir_refresh_current_dir:
  assumes "dir_dev fd img" "cur_slot st < 16"
  shows "\<exists>f'. dir_refresh_current fd closing st = st\<lparr>flash := f', last_dir_refresh :=
        (if dir_map img (flash st) (cur_slot st) = None then last_dir_refresh st else cur_count st)\<rparr> \<and>
    dir_map img f' = (dir_map img (flash st))(cur_slot st :=
        map_option (\<lambda>e. e\<lparr>de_rec_count := cur_count st, de_open := if closing then 0 else 1\<rparr>)
          (dir_map img (flash st) (cur_slot st))) \<and>
    same_outside img LOG_LO LOG_DATA (flash st) f'"
proof (cases "dir_map img (flash st) (cur_slot st)")
  case None
  then have "dir_refresh_current fd closing st = st\<lparr>flash := flash st, last_dir_refresh := last_dir_refresh st\<rparr>"
    by (simp add: dir_refresh_current_def live_entry_dir [OF assms])
  then show ?thesis
    using None by (intro exI [of _ "flash st"]) (simp add: fun_eq_iff)
next
  case (Some e)
  let ?e = "e\<lparr>de_rec_count := cur_count st, de_open := if closing then 0 else 1\<rparr>"
  have "de_magic ?e = ENTRY_MAGIC" using Some by (auto simp: dir_map_def Let_def split: if_splits)
  then show ?thesis
    using entry_write_dir [OF assms, of "flash st" ?e] Some
    by (auto simp: dir_refresh_current_def live_entry_dir [OF assms])
qed

definition consumed :: "u32 \<Rightarrow> 'f log_st \<Rightarrow> u32 \<Rightarrow> dir_entry \<Rightarrow> bool" where
  "consumed fl st i e \<longleftrightarrow> de_start_rec e < fl \<and> \<not> (active st \<and> i = cur_slot st)"

lemma consume_slot_dir:
  assumes "dir_dev fd img" "i < 16"
  shows "\<exists>f' m. consume_slot fd up fl i (st, ms) = (st\<lparr>flash := f'\<rparr>, m) \<and>
    dir_map img f' = (dir_map img (flash st))(i :=
      (case dir_map img (flash st) i of None \<Rightarrow> None | Some e \<Rightarrow> if consumed fl st i e then None else Some e)) \<and>
    same_outside img LOG_LO LOG_DATA (flash st) f'"
proof (cases "\<exists>e. dir_map img (flash st) i = Some e \<and> consumed fl st i e")
  case True
  then show ?thesis
    using entry_invalidate_dir [OF assms, of "flash st"]
    by (auto simp: consume_slot_def live_entry_dir [OF assms] consumed_def)
next
  case False
  then have "consume_slot fd up fl i (st, ms) = (st\<lparr>flash := flash st\<rparr>, ms)"
    by (auto simp: consume_slot_def live_entry_dir [OF assms] consumed_def split: option.splits)
  then show ?thesis
    using False by (intro exI [of _ "flash st"] exI [of _ ms]) (auto split: option.splits)
qed

lemma fold_consume_dir:
  assumes "dir_dev fd img" "\<forall>i \<in> set js. i < 16" "distinct js"
  shows "\<exists>f' m. fold (consume_slot fd up fl) js (st, ms) = (st\<lparr>flash := f'\<rparr>, m) \<and>
    dir_map img f' = (\<lambda>i. case dir_map img (flash st) i of None \<Rightarrow> None
      | Some e \<Rightarrow> if i \<in> set js \<and> consumed fl st i e then None else Some e) \<and>
    same_outside img LOG_LO LOG_DATA (flash st) f'"
  using assms(2,3)
proof (induction js arbitrary: st ms)
  case Nil
  have "fold (consume_slot fd up fl) [] (st, ms) = (st\<lparr>flash := flash st\<rparr>, ms)" by simp
  then show ?case
    by (intro exI [of _ "flash st"] exI [of _ ms]) (auto simp: fun_eq_iff split: option.splits)
next
  case (Cons i js)
  obtain f m where 1: "consume_slot fd up fl i (st, ms) = (st\<lparr>flash := f\<rparr>, m)"
    "dir_map img f = (dir_map img (flash st))(i :=
      (case dir_map img (flash st) i of None \<Rightarrow> None | Some e \<Rightarrow> if consumed fl st i e then None else Some e))"
    "same_outside img LOG_LO LOG_DATA (flash st) f"
    using consume_slot_dir [OF assms(1), of i up fl st ms] Cons.prems by auto
  obtain f' m' where 2: "fold (consume_slot fd up fl) js (st\<lparr>flash := f\<rparr>, m) = (st\<lparr>flash := f'\<rparr>, m')"
    "dir_map img f' = (\<lambda>j. case dir_map img f j of None \<Rightarrow> None
      | Some e \<Rightarrow> if j \<in> set js \<and> consumed fl (st\<lparr>flash := f\<rparr>) j e then None else Some e)"
    "same_outside img LOG_LO LOG_DATA f f'"
    using Cons.IH [of "st\<lparr>flash := f\<rparr>" m] Cons.prems by auto
  have "dir_map img f' = (\<lambda>j. case dir_map img (flash st) j of None \<Rightarrow> None
      | Some e \<Rightarrow> if j \<in> set (i # js) \<and> consumed fl st j e then None else Some e)"
    unfolding 2(2) 1(2) using Cons.prems(2)
    by (auto simp: fun_eq_iff consumed_def split: option.splits)
  then show ?case
    using 1(1) 2(1) same_outside_trans [OF 1(3) 2(3)] by auto
qed

text \<open>
  Only entries whose first record is still in the ring survive, and the running session.
\<close>

lemma invalidate_consumed_dir:
  assumes "dir_dev fd img"
  shows "\<exists>f' m. invalidate_consumed fd up (st, ms) = (st\<lparr>flash := f'\<rparr>, m) \<and>
    dir_map img f' = (\<lambda>i. case dir_map img (flash st) i of None \<Rightarrow> None
      | Some e \<Rightarrow> if consumed (ring_floor st) st i e then None else Some e) \<and>
    same_outside img LOG_LO LOG_DATA (flash st) f'"
proof -
  have "(\<lambda>i. case dir_map img (flash st) i of None \<Rightarrow> None
      | Some e \<Rightarrow> if i \<in> set slots \<and> consumed (ring_floor st) st i e then None else Some e) =
    (\<lambda>i. case dir_map img (flash st) i of None \<Rightarrow> None
      | Some e \<Rightarrow> if consumed (ring_floor st) st i e then None else Some e)"
    by (auto simp: fun_eq_iff slots_less dir_map_outside split: option.splits)
  then show ?thesis
    using fold_consume_dir [OF assms, of slots up "ring_floor st" st ms] distinct_slots
    by (simp add: invalidate_consumed_def slots_less)
qed

end
