(* ===== verification/Log_Runs.thy ===== *)
theory Log_Runs
  imports Log_Directory
begin

text \<open>
  Runs of the log: the operations of \<open>imu_log.c\<close> as events, the invariant that every event keeps,
  and what it gives for a whole session (start, appends interleaved with the writer, stop, read
  back), for a stop that waits for the writer, and for a reboot.
\<close>

section \<open>The invariant\<close>

text \<open>The directory against the counters; \<open>d\<close> is the map of slots to entries.\<close>

definition entry_end :: "dir_entry \<Rightarrow> nat" where
  "entry_end e = unat (de_start_rec e) + unat (de_rec_count e)"

definition running :: "'f log_st \<Rightarrow> u32 \<Rightarrow> bool" where
  "running st i \<longleftrightarrow> active st \<and> i = cur_slot st"

definition dir_entries_ok :: "(u32 \<Rightarrow> dir_entry option) \<Rightarrow> 'f log_st \<Rightarrow> bool" where
  "dir_entries_ok d st \<longleftrightarrow>
     (\<forall>i e. d i = Some e \<longrightarrow> i = (de_seq e - 1) mod 16 \<and> de_seq e < seq_next st \<and>
        entry_end e \<le> unat (total_abs st) \<and> (\<not> running st i \<longrightarrow> de_open e = 0))"

definition session_ok :: "(u32 \<Rightarrow> dir_entry option) \<Rightarrow> 'f log_st \<Rightarrow> bool" where
  "session_ok d st \<longleftrightarrow>
     (active st \<longrightarrow> (\<exists>e. d (cur_slot st) = Some e \<and> de_seq e = cur_seq st \<and>
        de_start_rec e = cur_start st \<and> de_rec_count e = last_dir_refresh st) \<and>
      unat (cur_start st) + unat (cur_count st) = unat (total_abs st) \<and>
      last_dir_refresh st \<le> cur_count st \<and> cur_count st - last_dir_refresh st < DIR_REFRESH_RECS \<and>
      (\<forall>i e. d i = Some e \<and> i \<noteq> cur_slot st \<longrightarrow> entry_end e \<le> unat (cur_start st)))"

text \<open>Some entry ends where the ring ends, up to what the running session has not yet recorded.\<close>

definition dir_covers :: "(u32 \<Rightarrow> dir_entry option) \<Rightarrow> 'f log_st \<Rightarrow> bool" where
  "dir_covers d st \<longleftrightarrow> total_abs st = 0 \<or>
     (\<exists>i e. d i = Some e \<and>
        unat (total_abs st) = entry_end e + (if active st then unat (cur_count st - last_dir_refresh st) else 0))"

definition dir_ok :: "('f \<Rightarrow> nat \<Rightarrow> u8) \<Rightarrow> 'f log_st \<Rightarrow> bool" where
  "dir_ok img st \<longleftrightarrow> cur_slot st < 16 \<and> dir_entries_ok (dir_map img (flash st)) st \<and>
     session_ok (dir_map img (flash st)) st \<and> dir_covers (dir_map img (flash st)) st"

definition log_inv :: "('f \<Rightarrow> nat \<Rightarrow> u8) \<Rightarrow> 'f log_st \<Rightarrow> imu_sample list \<Rightarrow> bool" where
  "log_inv img st hist \<longleftrightarrow> log_rel img st hist \<and> stage_ok st \<and> dir_ok img st"

lemmas dir_inv_defs = dir_ok_def dir_entries_ok_def session_ok_def dir_covers_def running_def

lemma log_invD:
  assumes "log_inv img st hist"
  shows "log_rel img st hist" "stage_ok st" "dir_ok img st" "cur_slot st < 16"
    "unat (total_abs st) = length hist"
  using assms by (simp_all add: log_inv_def dir_ok_def log_rel_def)

section \<open>Events\<close>

datatype log_ev =
    LStart settings_st u32
  | LAppend "imu_sample list"
  | LDrain int
  | LFinish
  | LErase app_version
  | LDetach

fun log_exec :: "'f flash_dev \<Rightarrow> log_ev \<Rightarrow> 'f log_st \<times> msg_st \<Rightarrow> 'f log_st \<times> msg_st" where
  "log_exec fd (LStart cfg wall) (st, ms) = (snd (imu_log_start fd cfg wall st), ms)"
| "log_exec fd (LAppend xs) (st, ms) = (imu_log_append xs st, ms)"
| "log_exec fd (LDrain up) s = writer_step fd up s"
| "log_exec fd LFinish (st, ms) = (stop_finish fd st, ms)"
| "log_exec fd (LErase v) (st, ms) = imu_log_erase fd v (\<lambda>_. id) (st, ms)"
| "log_exec fd LDetach (st, ms) = (imu_log_mark_detached st, ms)"

text \<open>
  Room: the bounds within which the 32-bit counters of the log do not wrap. \<open>2 ^ 28\<close> records are
  seven days of samples at 416 Hz, the session and staging counters reach much further.
\<close>

fun log_room :: "log_ev \<Rightarrow> 'f log_st \<Rightarrow> bool" where
  "log_room (LStart cfg wall) st = (unat (seq_next st) + 1 < 2 ^ 32)"
| "log_room (LAppend xs) st = (unat (stage_head st) + length xs + STAGE_N < 2 ^ 32)"
| "log_room (LDrain up) st = (unat (total_abs st) + 256 < 2 ^ 28)"
| "log_room _ st = True"

text \<open>The records an event adds to the history, and the samples it takes into the staging ring.\<close>

fun log_hist :: "log_ev \<Rightarrow> 'f log_st \<Rightarrow> imu_sample list \<Rightarrow> imu_sample list" where
  "log_hist (LDrain up) st hist =
     (if active st then hist @ take (unat (drain_count st)) (staged st) else hist)"
| "log_hist (LErase v) st hist = []"
| "log_hist _ st hist = hist"

section \<open>Every event keeps the invariant\<close>

lemma append_fold_staged:
  assumes "stage_ok st" "unat (stage_head st) + length xs + STAGE_N < 2 ^ 32"
  shows "stage_ok (fold append_one xs st) \<and>
    staged (fold append_one xs st) = staged st @ take (STAGE_N - length (staged st)) xs \<and>
    log_dropped (fold append_one xs st) = log_dropped st + of_nat (length xs - (STAGE_N - length (staged st)))"
  using assms
proof (induction xs arbitrary: st)
  case (Cons x xs)
  let ?s = "append_one x st"
  have one: "stage_ok ?s \<and>
    (if length (staged st) < STAGE_N
     then staged ?s = staged st @ [x] \<and> log_dropped ?s = log_dropped st
     else staged ?s = staged st \<and> log_dropped ?s = log_dropped st + 1)"
    using Cons.prems by (intro append_one_staged) simp_all
  have "unat (stage_head ?s) \<le> unat (stage_head st) + 1"
    by (simp add: append_one_def unat_word_ariths)
  then have ih: "stage_ok (fold append_one xs ?s) \<and>
    staged (fold append_one xs ?s) = staged ?s @ take (STAGE_N - length (staged ?s)) xs \<and>
    log_dropped (fold append_one xs ?s) = log_dropped ?s + of_nat (length xs - (STAGE_N - length (staged ?s)))"
    using one Cons.prems(2) by (intro Cons.IH) simp_all
  have le: "length (staged st) \<le> STAGE_N" by (rule stage_okD(5) [OF Cons.prems(1)])
  show ?case
  proof (cases "length (staged st) < STAGE_N")
    case True
    then have "STAGE_N - length (staged st) = Suc (STAGE_N - length (staged ?s))" using one by simp
    then show ?thesis using one ih True by simp
  next
    case False
    then show ?thesis using one ih le by (simp add: add.commute add.left_commute)
  qed
qed simp

lemma append_one_frame:
  "\<exists>a b c. append_one x st = st\<lparr>stage := a, stage_head := b, log_dropped := c\<rparr>"
  by (cases st) (auto simp: append_one_def)

lemma append_fold_frame:
  "\<exists>a b c. fold append_one xs st = st\<lparr>stage := a, stage_head := b, log_dropped := c\<rparr>"
proof (induction xs arbitrary: st)
  case Nil
  show ?case by (intro exI [of _ "stage st"] exI [of _ "stage_head st"] exI [of _ "log_dropped st"]) simp
next
  case (Cons x xs)
  obtain a b c where 1: "append_one x st = st\<lparr>stage := a, stage_head := b, log_dropped := c\<rparr>"
    using append_one_frame by blast
  obtain a' b' c' where "fold append_one xs (append_one x st) =
      (append_one x st)\<lparr>stage := a', stage_head := b', log_dropped := c'\<rparr>"
    using Cons.IH by blast
  then show ?case using 1 by auto
qed

lemma dir_ok_stage:
  "dir_ok img (st\<lparr>stage := a, stage_head := b, log_dropped := c\<rparr>) = dir_ok img st"
  "dir_ok img (st\<lparr>stage_tail := b\<rparr>) = dir_ok img st"
  "dir_ok img (st\<lparr>session_detached := x\<rparr>) = dir_ok img st"
  by (simp_all add: dir_inv_defs)

lemma append_inv:
  assumes "log_inv img st hist" "unat (stage_head st) + length xs + STAGE_N < 2 ^ 32"
  shows "log_inv img (imu_log_append xs st) hist"
proof (cases "active st")
  case True
  obtain a b c where eq: "fold append_one xs st = st\<lparr>stage := a, stage_head := b, log_dropped := c\<rparr>"
    using append_fold_frame by blast
  have "stage_ok (fold append_one xs st)"
    using append_fold_staged [OF log_invD(2) [OF assms(1)] assms(2)] by simp
  then show ?thesis
    using assms(1) True unfolding imu_log_append_def eq
    by (simp add: log_inv_def log_rel_def dir_ok_stage)
qed (use assms in \<open>simp add: imu_log_append_def\<close>)

lemma session_covers:
  assumes "active st" "session_ok d st"
  shows "dir_covers d st"
proof -
  obtain e where e: "d (cur_slot st) = Some e" "de_start_rec e = cur_start st"
      "de_rec_count e = last_dir_refresh st" and
    n: "unat (cur_start st) + unat (cur_count st) = unat (total_abs st)" "last_dir_refresh st \<le> cur_count st"
    using assms by (auto simp: session_ok_def)
  then have "unat (total_abs st) = entry_end e + unat (cur_count st - last_dir_refresh st)"
    by (simp add: entry_end_def unat_sub word_le_nat_alt)
  then show ?thesis using e(1) assms(1) by (auto simp: dir_covers_def)
qed

lemma start_dir:
  assumes "dir_dev fd img" "\<not> active st"
  shows "\<exists>f'. imu_log_start fd cfg wall st = (0, st\<lparr>cur_seq := seq_next st, seq_next := seq_next st + 1,
       cur_slot := (seq_next st - 1) mod 16, cur_start := total_abs st, cur_count := 0, last_dir_refresh := 0,
       stage_tail := stage_head st, log_dropped := 0, flash := f', active := True\<rparr>) \<and>
    dir_map img f' = (dir_map img (flash st))((seq_next st - 1) mod 16 \<mapsto>
       start_entry cfg wall (seq_next st) (total_abs st)) \<and>
    same_outside img LOG_LO LOG_DATA (flash st) f'"
proof -
  have "(seq_next st - 1) mod 16 < 16" by (simp add: word_less_nat_alt unat_mod)
  moreover have "de_magic (start_entry cfg wall (seq_next st) (total_abs st)) = ENTRY_MAGIC"
    by (simp add: start_entry_def)
  ultimately show ?thesis
    using entry_write_dir [OF assms(1), of "(seq_next st - 1) mod 16" "flash st"
        "start_entry cfg wall (seq_next st) (total_abs st)"] assms(2)
    by (auto simp: imu_log_start_def Let_def)
qed

lemma start_inv:
  assumes "dir_dev fd img" "log_inv img st hist" "unat (seq_next st) + 1 < 2 ^ 32"
  shows "log_inv img (snd (imu_log_start fd cfg wall st)) hist"
proof (cases "active st")
  case True
  then show ?thesis using assms(2) by (simp add: imu_log_start_def)
next
  case False
  note inv = log_invD [OF assms(2)]
  let ?sl = "(seq_next st - 1) mod 16"
  obtain f' where f': "imu_log_start fd cfg wall st = (0, st\<lparr>cur_seq := seq_next st, seq_next := seq_next st + 1,
       cur_slot := ?sl, cur_start := total_abs st, cur_count := 0, last_dir_refresh := 0,
       stage_tail := stage_head st, log_dropped := 0, flash := f', active := True\<rparr>)"
    "dir_map img f' = (dir_map img (flash st))(?sl \<mapsto> start_entry cfg wall (seq_next st) (total_abs st))"
    "same_outside img LOG_LO LOG_DATA (flash st) f'"
    using start_dir [OF assms(1) False] by blast
  define st' where "st' = snd (imu_log_start fd cfg wall st)"
  have st': "st' = st\<lparr>cur_seq := seq_next st, seq_next := seq_next st + 1,
       cur_slot := ?sl, cur_start := total_abs st, cur_count := 0, last_dir_refresh := 0,
       stage_tail := stage_head st, log_dropped := 0, flash := f', active := True\<rparr>"
    by (simp add: st'_def f'(1))
  have up: "e < seq_next st \<Longrightarrow> e < seq_next st + 1" for e
    using assms(3) by (simp add: word_less_nat_alt unat_word_ariths)
  have "seq_next st < seq_next st + 1"
    using assms(3) by (simp add: word_less_nat_alt unat_word_ariths)
  then have "dir_entries_ok (dir_map img f') st'"
    using inv(3) False up unfolding st' f'(2)
    by (auto simp: dir_inv_defs start_entry_def entry_end_def)
  moreover have "entry_end e \<le> unat (total_abs st)" if "dir_map img (flash st) i = Some e" for i e
    using inv(3) that unfolding dir_ok_def dir_entries_ok_def by metis
  then have "session_ok (dir_map img f') st'"
    unfolding st' f'(2) by (simp add: session_ok_def start_entry_def)
  moreover have "cur_slot st' < 16" unfolding st' by (simp add: word_less_nat_alt unat_mod)
  ultimately have "dir_ok img st'"
    using session_covers [of st'] by (simp add: dir_ok_def st')
  moreover have "log_rel img st' hist"
    using inv(1) f'(3) unfolding st' by (simp add: log_rel_def rec_cell_outside)
  moreover have "stage_ok st'" using inv(2) unfolding st' by (simp add: stage_ok_def)
  ultimately show ?thesis by (simp add: log_inv_def st'_def)
qed

lemma maintenance_dir_ok:
  assumes dev: "dir_dev fd img" and "active st" "cur_slot st < 16"
    and ent: "dir_entries_ok (dir_map img (flash st)) st"
    and cur: "dir_map img (flash st) (cur_slot st) = Some e" "de_seq e = cur_seq st"
      "de_start_rec e = cur_start st" "de_rec_count e = last_dir_refresh st"
    and tot: "unat (cur_start st) + unat (cur_count st) = unat (total_abs st)"
      "last_dir_refresh st \<le> cur_count st"
    and oth: "\<forall>i e. dir_map img (flash st) i = Some e \<and> i \<noteq> cur_slot st \<longrightarrow> entry_end e \<le> unat (cur_start st)"
  shows "dir_ok img (fst (dir_maintenance fd up (st, ms)))"
proof (cases "cur_count st - last_dir_refresh st \<ge> DIR_REFRESH_RECS")
  case True
  have entc: "cur_slot st = (cur_seq st - 1) mod 16 \<and> cur_seq st < seq_next st"
    using ent cur(1,2) unfolding dir_entries_ok_def by metis
  let ?e = "e\<lparr>de_rec_count := cur_count st, de_open := 1\<rparr>"
  obtain f1 where 1: "dir_refresh_current fd False st = st\<lparr>flash := f1, last_dir_refresh := cur_count st\<rparr>"
    "dir_map img f1 = (dir_map img (flash st))(cur_slot st \<mapsto> ?e)"
    using dir_refresh_current_dir [OF dev assms(3), of False] cur(1) by auto
  let ?s1 = "st\<lparr>flash := f1, last_dir_refresh := cur_count st\<rparr>"
  obtain f2 m where 2: "invalidate_consumed fd up (?s1, ms) = (?s1\<lparr>flash := f2\<rparr>, m)"
    "dir_map img f2 = (\<lambda>i. case dir_map img f1 i of None \<Rightarrow> None
      | Some e \<Rightarrow> if consumed (ring_floor ?s1) ?s1 i e then None else Some e)"
    using invalidate_consumed_dir [OF dev, of up ?s1 ms] by auto
  let ?s2 = "?s1\<lparr>flash := f2\<rparr>"
  have sub: "dir_map img f2 i = Some x \<Longrightarrow> i \<noteq> cur_slot st \<Longrightarrow> dir_map img (flash st) i = Some x" for i x
    unfolding 2(2) 1(2) by (auto split: option.splits if_splits)
  have self: "dir_map img f2 (cur_slot st) = Some ?e"
    unfolding 2(2) 1(2) using assms(2) by (simp add: consumed_def)
  have fst2: "fst (dir_maintenance fd up (st, ms)) = ?s2"
    using True 1(1) 2(1) by (simp add: dir_maintenance_def)
  have "\<forall>i x. dir_map img f2 i = Some x \<and> i \<noteq> cur_slot st \<longrightarrow> entry_end x \<le> unat (cur_start st)"
    using oth sub by blast
  then have "session_ok (dir_map img f2) ?s2"
    using self cur tot by (simp add: session_ok_def)
  moreover have "dir_entries_ok (dir_map img f2) ?s2"
    unfolding dir_entries_ok_def
  proof (intro allI impI)
    fix i x assume x: "dir_map img f2 i = Some x"
    show "i = (de_seq x - 1) mod 16 \<and> de_seq x < seq_next ?s2 \<and> entry_end x \<le> unat (total_abs ?s2) \<and>
        (\<not> running ?s2 i \<longrightarrow> de_open x = 0)"
    proof (cases "i = cur_slot st")
      case True
      then have "x = ?e" using x self by simp
      then show ?thesis
        using entc cur tot(1) True assms(2) by (simp add: running_def entry_end_def)
    next
      case False
      then show ?thesis using sub [OF x] ent by (auto simp: dir_entries_ok_def running_def)
    qed
  qed
  ultimately show ?thesis
    using session_covers [of ?s2] assms(2,3) unfolding fst2 by (simp add: dir_ok_def)
next
  case False
  then have "session_ok (dir_map img (flash st)) st"
    using cur tot oth False by (simp add: session_ok_def linorder_not_le)
  then show ?thesis
    using session_covers assms(2,3) ent False by (simp add: dir_maintenance_def dir_ok_def)
qed

lemma drain_inv:
  assumes dev: "dir_dev fd img" and inv: "log_inv img st hist" and room: "unat (total_abs st) + 256 < 2 ^ 28"
    and run: "writer_step fd up (st, ms) = (st', ms')"
  shows "log_inv img st' (log_hist (LDrain up) st hist) \<and>
    (active st \<longrightarrow> staged st' = drop (unat (drain_count st)) (staged st))"
proof (cases "active st \<and> stage_head st \<noteq> stage_tail st")
  case False
  then have "st' = st" "active st \<longrightarrow> staged st = []"
    using run stage_okD(6) [OF log_invD(2) [OF inv]] by (auto simp: writer_step_def)
  then show ?thesis using inv by simp
next
  case True
  note parts = log_invD [OF inv]
  let ?n = "unat (drain_count st)" and ?w = "drain_write fd st"
  have st': "st' = fst (dir_maintenance fd up (?w, ms))"
    using run True by (simp add: writer_step_def writer_drain_batch_split)
  have n: "?n \<le> 256" by (rule drain_count_bounds)
  have rel: "log_rel img ?w (hist @ take ?n (staged st))"
    using parts(5) room n by (intro drain_write_rel [OF dir_devD(1,3) [OF dev] parts(1,2)]) simp
  have dir: "dir_map img (flash ?w) = dir_map img (flash st)"
    by (rule dir_map_data [OF drain_write_outside [OF dir_devD(1) [OF dev]]])
  have tot: "unat (total_abs ?w) = unat (total_abs st) + ?n"
    using room n by (simp add: drain_write_def unat_add_nowrap)
  obtain e where e: "dir_map img (flash st) (cur_slot st) = Some e" "de_seq e = cur_seq st"
      "de_start_rec e = cur_start st" "de_rec_count e = last_dir_refresh st"
    and cnt: "unat (cur_start st) + unat (cur_count st) = unat (total_abs st)" "last_dir_refresh st \<le> cur_count st"
    and oth: "\<forall>i e. dir_map img (flash st) i = Some e \<and> i \<noteq> cur_slot st \<longrightarrow> entry_end e \<le> unat (cur_start st)"
    using parts(3) True by (auto simp: dir_ok_def session_ok_def)
  have cw: "unat (cur_count ?w) = unat (cur_count st) + ?n"
    using room n cnt by (simp add: drain_write_def unat_add_nowrap)
  have fields: "active ?w" "cur_slot ?w < 16" "cur_slot ?w = cur_slot st" "cur_seq ?w = cur_seq st"
    "cur_start ?w = cur_start st" "last_dir_refresh ?w = last_dir_refresh st" "seq_next ?w = seq_next st"
    using True parts(4) by (simp_all add: drain_write_def del: layout_values)
  have ent: "dir_entries_ok (dir_map img (flash ?w)) ?w"
    unfolding dir_entries_ok_def
  proof (intro allI impI)
    fix i x assume "dir_map img (flash ?w) i = Some x"
    then have "i = (de_seq x - 1) mod 16 \<and> de_seq x < seq_next st \<and> entry_end x \<le> unat (total_abs st) \<and>
        (\<not> running st i \<longrightarrow> de_open x = 0)"
      using parts(3) unfolding dir dir_ok_def dir_entries_ok_def by simp
    then show "i = (de_seq x - 1) mod 16 \<and> de_seq x < seq_next ?w \<and> entry_end x \<le> unat (total_abs ?w) \<and>
        (\<not> running ?w i \<longrightarrow> de_open x = 0)"
      using tot fields True by (simp add: running_def)
  qed
  have "dir_ok img st'"
    unfolding st' using ent e cnt tot cw oth
    by (intro maintenance_dir_ok [OF dev fields(1,2), of e]) (simp_all add: dir fields word_le_nat_alt)
  then show ?thesis
    using dir_maintenance_rel [OF dir_devD(1) [OF dev] fields(2) rel, of up ms]
      drain_write_stage [OF parts(2), of fd] True
    by (simp add: st' log_inv_def)
qed

lemma finish_dir:
  assumes dev: "dir_dev fd img" and "cur_slot st < 16" "active st"
    and cur: "dir_map img (flash st) (cur_slot st) = Some e"
  shows "\<exists>f'. stop_finish fd st = st\<lparr>active := False, session_detached := False, flash := f',
      last_dir_refresh := cur_count st\<rparr> \<and>
    dir_map img f' = (dir_map img (flash st))(cur_slot st \<mapsto> e\<lparr>de_rec_count := cur_count st, de_open := 0\<rparr>) \<and>
    same_outside img LOG_LO LOG_DATA (flash st) f'"
  using dir_refresh_current_dir [OF dev, of "st\<lparr>active := False, session_detached := False\<rparr>" True] assms
  by (auto simp: stop_finish_def)

lemma finish_inv:
  assumes dev: "dir_dev fd img" and inv: "log_inv img st hist"
  shows "log_inv img (stop_finish fd st) hist"
proof (cases "active st")
  case False
  then show ?thesis using inv by (simp add: stop_finish_def)
next
  case True
  note parts = log_invD [OF inv]
  obtain e where e: "dir_map img (flash st) (cur_slot st) = Some e" "de_seq e = cur_seq st"
      "de_start_rec e = cur_start st"
    and cnt: "unat (cur_start st) + unat (cur_count st) = unat (total_abs st)"
    using parts(3) True by (auto simp: dir_ok_def session_ok_def)
  let ?e = "e\<lparr>de_rec_count := cur_count st, de_open := 0\<rparr>"
  obtain f' where f': "stop_finish fd st = st\<lparr>active := False, session_detached := False, flash := f',
      last_dir_refresh := cur_count st\<rparr>"
    "dir_map img f' = (dir_map img (flash st))(cur_slot st \<mapsto> ?e)"
    "same_outside img LOG_LO LOG_DATA (flash st) f'"
    using finish_dir [OF dev parts(4) True e(1)] by blast
  let ?s = "st\<lparr>active := False, session_detached := False, flash := f', last_dir_refresh := cur_count st\<rparr>"
  have entc: "cur_slot st = (cur_seq st - 1) mod 16 \<and> cur_seq st < seq_next st"
    using parts(3) e(1,2) unfolding dir_ok_def dir_entries_ok_def by metis
  have ee: "entry_end ?e = unat (total_abs st)" using e(3) cnt by (simp add: entry_end_def)
  have "dir_entries_ok (dir_map img f') ?s"
    unfolding dir_entries_ok_def
  proof (intro allI impI)
    fix i x assume x: "dir_map img f' i = Some x"
    show "i = (de_seq x - 1) mod 16 \<and> de_seq x < seq_next ?s \<and> entry_end x \<le> unat (total_abs ?s) \<and>
        (\<not> running ?s i \<longrightarrow> de_open x = 0)"
    proof (cases "i = cur_slot st")
      case True
      then show ?thesis using x f'(2) entc e(2) ee by auto
    next
      case False
      then show ?thesis using x f'(2) parts(3) by (auto simp: dir_ok_def dir_entries_ok_def running_def)
    qed
  qed
  moreover have "dir_covers (dir_map img f') ?s"
    using f'(2) ee by (auto simp: dir_covers_def)
  moreover have "log_rel img ?s hist"
    using parts(1) f'(3) by (simp add: log_rel_def rec_cell_outside)
  ultimately show ?thesis
    using parts(2,4) unfolding f'(1) by (simp add: log_inv_def dir_ok_def session_ok_def stage_ok_def)
qed

lemma erase_inv:
  assumes dev: "dir_dev fd img" and inv: "log_inv img st hist"
  shows "log_inv img (fst (imu_log_erase fd v (\<lambda>_. id) (st, ms))) []"
proof -
  have flush: "writer_flush n (\<lambda>_. id) s = s" for n and s :: "'a log_st \<times> msg_st"
    by (induction n) auto
  define s1 where "s1 = fst (imu_log_stop fd (\<lambda>_. id) (st, ms))"
  have "s1 = stop_finish fd st"
    unfolding s1_def by (simp add: imu_log_stop_def flush stop_finish_def del: writer_flush.simps)
  then have inv1: "log_inv img s1 hist" and na: "\<not> active s1"
    using finish_inv [OF dev inv] dir_refresh_current_frame [of fd True "st\<lparr>active := False, session_detached := False\<rparr>" img]
    by (auto simp: stop_finish_def split: if_splits)
  let ?s2 = "s1\<lparr>flash := dir_wipe_and_stamp fd v (flash s1), total_abs := 0, seq_next := 1, cur_count := 0\<rparr>"
  have "fst (imu_log_erase fd v (\<lambda>_. id) (st, ms)) = ?s2"
    by (simp add: imu_log_erase_def s1_def split_beta)
  moreover have "dir_ok img ?s2"
    using na log_invD(4) [OF inv1] wipe_dir [OF dev, of v "flash s1"] by (simp add: dir_inv_defs)
  moreover have "log_rel img ?s2 []" by (simp add: log_rel_def holds_last_def)
  moreover have "stage_ok ?s2" using log_invD(2) [OF inv1] by (simp add: stage_ok_def)
  ultimately show ?thesis by (simp add: log_inv_def)
qed

section \<open>Runs\<close>

definition log_run :: "'f flash_dev \<Rightarrow> log_ev list \<Rightarrow> 'f log_st \<times> msg_st \<Rightarrow> 'f log_st \<times> msg_st" where
  "log_run fd evs s = fold (log_exec fd) evs s"

fun log_rooms :: "'f flash_dev \<Rightarrow> log_ev list \<Rightarrow> 'f log_st \<times> msg_st \<Rightarrow> bool" where
  "log_rooms fd [] s = True"
| "log_rooms fd (ev # evs) s = (log_room ev (fst s) \<and> log_rooms fd evs (log_exec fd ev s))"

fun log_hists :: "'f flash_dev \<Rightarrow> log_ev list \<Rightarrow> 'f log_st \<times> msg_st \<Rightarrow> imu_sample list \<Rightarrow> imu_sample list" where
  "log_hists fd [] s hist = hist"
| "log_hists fd (ev # evs) s hist = log_hists fd evs (log_exec fd ev s) (log_hist ev (fst s) hist)"

lemma log_run_simps [simp]:
  "log_run fd [] s = s" "log_run fd (ev # evs) s = log_run fd evs (log_exec fd ev s)"
  "log_run fd (evs @ evs') s = log_run fd evs' (log_run fd evs s)"
  by (simp_all add: log_run_def)

lemma log_exec_inv:
  assumes "dir_dev fd img" "log_inv img (fst s) hist" "log_room ev (fst s)"
  shows "log_inv img (fst (log_exec fd ev s)) (log_hist ev (fst s) hist)"
proof -
  obtain st ms where s: "s = (st, ms)" by force
  show ?thesis
  proof (cases ev)
    case (LStart cfg wall)
    then show ?thesis using assms start_inv [OF assms(1)] by (simp add: s)
  next
    case (LAppend xs)
    then show ?thesis using assms by (simp add: s append_inv)
  next
    case (LDrain up)
    obtain st' ms' where "writer_step fd up (st, ms) = (st', ms')" by force
    then show ?thesis using drain_inv [OF assms(1)] assms(2,3) LDrain by (simp add: s)
  next
    case LFinish
    then show ?thesis using assms finish_inv [OF assms(1)] by (simp add: s)
  next
    case (LErase v)
    then show ?thesis using assms erase_inv [OF assms(1)] by (simp add: s)
  next
    case LDetach
    then show ?thesis
      using assms by (simp add: s imu_log_mark_detached_def log_inv_def log_rel_def stage_ok_def dir_ok_stage)
  qed
qed

lemma log_run_keeps_inv:
  assumes "dir_dev fd img" "log_inv img (fst s) hist" "log_rooms fd evs s"
  shows "log_inv img (fst (log_run fd evs s)) (log_hists fd evs s hist)"
  using assms(2,3)
  by (induction evs arbitrary: s hist) (auto simp: log_exec_inv [OF assms(1)])

subsection \<open>One session\<close>

text \<open>The events while a session runs, and the samples the staging ring takes in during them.\<close>

fun session_ev :: "log_ev \<Rightarrow> bool" where
  "session_ev (LAppend xs) = True"
| "session_ev (LDrain up) = True"
| "session_ev LDetach = True"
| "session_ev _ = False"

fun log_taken :: "'f flash_dev \<Rightarrow> log_ev list \<Rightarrow> 'f log_st \<times> msg_st \<Rightarrow> imu_sample list" where
  "log_taken fd [] s = []"
| "log_taken fd (ev # evs) s =
     (case ev of LAppend xs \<Rightarrow> take (STAGE_N - length (staged (fst s))) xs | _ \<Rightarrow> []) @
     log_taken fd evs (log_exec fd ev s)"

definition same_session :: "'f log_st \<Rightarrow> 'f log_st \<Rightarrow> bool" where
  "same_session st st' \<longleftrightarrow> active st' = active st \<and> cur_seq st' = cur_seq st \<and> cur_start st' = cur_start st \<and>
     cur_slot st' = cur_slot st \<and> seq_next st' = seq_next st"

lemma writer_step_same_session: "same_session (fst s) (fst (writer_step fd up s))"
proof -
  obtain st ms where s: "s = (st, ms)" by force
  obtain f' l m where "dir_maintenance fd up (drain_write fd st, ms) =
      ((drain_write fd st)\<lparr>flash := f', last_dir_refresh := l\<rparr>, m)"
    using dir_maintenance_frame [of fd up "drain_write fd st" ms "\<lambda>_ _. 0"] by blast
  then show ?thesis
    by (simp add: s writer_step_def writer_drain_batch_split same_session_def drain_write_def)
qed

lemma session_ev_step:
  assumes "dir_dev fd img" "log_inv img (fst s) hist" "log_room ev (fst s)" "session_ev ev" "active (fst s)"
  shows "same_session (fst s) (fst (log_exec fd ev s)) \<and>
    log_hist ev (fst s) hist @ staged (fst (log_exec fd ev s)) =
    hist @ staged (fst s) @ (case ev of LAppend xs \<Rightarrow> take (STAGE_N - length (staged (fst s))) xs | _ \<Rightarrow> [])"
proof -
  obtain st ms where s: "s = (st, ms)" by force
  show ?thesis
  proof (cases ev)
    case (LAppend xs)
    obtain a b c where "fold append_one xs st = st\<lparr>stage := a, stage_head := b, log_dropped := c\<rparr>"
      using append_fold_frame by blast
    moreover have "staged (fold append_one xs st) = staged st @ take (STAGE_N - length (staged st)) xs"
      using append_fold_staged [OF log_invD(2) [OF assms(2)]] assms(3) LAppend by (simp add: s)
    ultimately show ?thesis
      using assms(5) LAppend by (simp add: s imu_log_append_def same_session_def)
  next
    case (LDrain up)
    obtain st' ms' where run: "writer_step fd up (st, ms) = (st', ms')" by force
    then have "staged st' = drop (unat (drain_count st)) (staged st)"
      using drain_inv [OF assms(1), of st hist] assms(2,3,5) LDrain by (simp add: s)
    then show ?thesis
      using assms(5) LDrain run writer_step_same_session [of s fd up] by (simp add: s)
  qed (use assms(4) in \<open>simp_all add: s imu_log_mark_detached_def same_session_def staged_def\<close>)
qed

lemma session_run:
  assumes "dir_dev fd img" "log_inv img (fst s) hist" "log_rooms fd evs s" "\<forall>ev \<in> set evs. session_ev ev"
    "active (fst s)"
  shows "same_session (fst s) (fst (log_run fd evs s)) \<and>
    log_hists fd evs s hist @ staged (fst (log_run fd evs s)) = hist @ staged (fst s) @ log_taken fd evs s"
  using assms(2-5)
proof (induction evs arbitrary: s hist)
  case (Cons ev evs)
  let ?s = "log_exec fd ev s" and ?h = "log_hist ev (fst s) hist"
  have inv: "log_inv img (fst ?s) ?h"
    using Cons.prems by (intro log_exec_inv [OF assms(1)]) simp_all
  have step: "same_session (fst s) (fst ?s)"
    "?h @ staged (fst ?s) =
     hist @ staged (fst s) @ (case ev of LAppend xs \<Rightarrow> take (STAGE_N - length (staged (fst s))) xs | _ \<Rightarrow> [])"
    using session_ev_step [OF assms(1) Cons.prems(1)] Cons.prems by simp_all
  have "active (fst ?s)" using step(1) Cons.prems(4) by (simp add: same_session_def)
  then have ih: "same_session (fst ?s) (fst (log_run fd evs ?s))"
    "log_hists fd evs ?s ?h @ staged (fst (log_run fd evs ?s)) = ?h @ staged (fst ?s) @ log_taken fd evs ?s"
    using Cons.IH [OF inv] Cons.prems by simp_all
  have "same_session (fst s) (fst (log_run fd evs ?s))"
    using step(1) ih(1) by (simp add: same_session_def)
  moreover have "?h @ staged (fst ?s) @ log_taken fd evs ?s =
      hist @ staged (fst s) @ log_taken fd (ev # evs) s"
    using arg_cong [OF step(2), of "\<lambda>ys. ys @ log_taken fd evs ?s"] by simp
  ultimately show ?case using ih(2) by simp
qed (simp add: same_session_def)

lemma find_slots:
  assumes "i < 16" "P i" "\<And>j. j < 16 \<Longrightarrow> P j \<Longrightarrow> j = i"
  shows "find P slots = Some i"
proof -
  have "find P slots \<noteq> None" using assms(1,2) slots_less by (auto simp: find_None_iff)
  then obtain j where j: "find P slots = Some j" by blast
  then have "P j \<and> j \<in> set slots" by (auto simp: find_Some_iff)
  then show ?thesis using j assms(3) slots_less by simp
qed

lemma find_session_dir:
  assumes dev: "dir_dev fd img" and ent: "dir_entries_ok (dir_map img (flash st)) st"
    and e: "dir_map img (flash st) i = Some e"
  shows "find_session fd st (de_seq e) =
    Some (if running st i then e\<lparr>de_rec_count := cur_count st\<rparr> else e)"
proof -
  have i: "i < 16" using e dir_map_outside by (metis option.distinct(1))
  have slot: "j = (de_seq x - 1) mod 16" if "dir_map img (flash st) j = Some x" for j x
    using ent that unfolding dir_entries_ok_def by metis
  have "find (\<lambda>j. case live_entry fd (flash st) j of None \<Rightarrow> False | Some x \<Rightarrow> de_seq x = de_seq e) slots = Some i"
  proof (rule find_slots [OF i])
    show "case live_entry fd (flash st) i of None \<Rightarrow> False | Some x \<Rightarrow> de_seq x = de_seq e"
      using e by (simp add: live_entry_dir [OF dev i])
  next
    fix j :: u32 assume "j < 16" "case live_entry fd (flash st) j of None \<Rightarrow> False | Some x \<Rightarrow> de_seq x = de_seq e"
    then obtain x where "dir_map img (flash st) j = Some x" "de_seq x = de_seq e"
      by (auto simp: live_entry_dir [OF dev] split: option.splits)
    then show "j = i" using slot [of j x] slot [OF e] by simp
  qed
  then show ?thesis using e by (simp add: find_session_def live_entry_dir [OF dev i] running_def)
qed


lemma empty_dir: "dir_map (\<lambda>m. m) (\<lambda>_. 0) = Map.empty"
proof -
  have z: "flash_window (\<lambda>m. m) (\<lambda>_. 0) a 32 = replicate 32 0" for a
    by (simp add: list_eq_iff_nth_eq)
  have "de_magic (dec_entry (replicate 32 0)) = 0" by code_simp
  then show ?thesis by (simp add: fun_eq_iff dir_map_def z)
qed

lemma log_boot_inv:
  assumes "dir_map img f = Map.empty"
  shows "log_inv img (log_boot f) []"
  using assms
  by (simp add: log_inv_def log_boot_def log_rel_def holds_last_def stage_ok_def dir_inv_defs)

lemma fresh_log_inv: "log_inv (\<lambda>m. m) (log_boot (\<lambda>_. 0)) []"
  by (rule log_boot_inv [OF empty_dir])

text \<open>A short session on an empty log: one sample, one pass of the writer.\<close>

definition short_started :: "settings_st \<Rightarrow> u32 \<Rightarrow> (nat \<Rightarrow> u8) log_st \<times> msg_st" where
  "short_started cfg wall = log_exec ram_flash (LStart cfg wall) (log_boot (\<lambda>_. 0), msg_boot)"

lemma short_start:
  "active (fst (short_started cfg wall)) \<and> stage_head (fst (short_started cfg wall)) = 0 \<and>
   stage_tail (fst (short_started cfg wall)) = 0 \<and> total_abs (fst (short_started cfg wall)) = 0 \<and>
   cur_slot (fst (short_started cfg wall)) = 0 \<and> cur_seq (fst (short_started cfg wall)) = 1 \<and>
   log_inv (\<lambda>m. m) (fst (short_started cfg wall)) []"
proof -
  let ?b = "log_boot (\<lambda>_. 0) :: (nat \<Rightarrow> u8) log_st"
  have "log_inv (\<lambda>m. m) (fst (short_started cfg wall)) []"
    using log_exec_inv [OF ram_flash_dir_dev, of "(?b, msg_boot)" "[]" "LStart cfg wall"] fresh_log_inv
    by (simp add: short_started_def log_boot_def)
  moreover obtain f' where "imu_log_start ram_flash cfg wall ?b = (0, ?b\<lparr>cur_seq := 1, seq_next := 1 + 1,
       cur_slot := (1 - 1) mod 16, cur_start := 0, cur_count := 0, last_dir_refresh := 0,
       stage_tail := 0, log_dropped := 0, flash := f', active := True\<rparr>)"
    using start_dir [OF ram_flash_dir_dev, of ?b cfg wall] by (auto simp: log_boot_def)
  ultimately show ?thesis by (simp add: short_started_def log_boot_def)
qed

lemma short_append:
  fixes x cfg wall
  defines "s2 \<equiv> log_exec ram_flash (LAppend [x]) (short_started cfg wall)"
  shows "log_room (LAppend [x]) (fst (short_started cfg wall)) \<and> log_inv (\<lambda>m. m) (fst s2) [] \<and>
    active (fst s2) \<and> staged (fst s2) = [x] \<and> total_abs (fst s2) = 0 \<and>
    log_taken ram_flash [LAppend [x], LDrain 0] (short_started cfg wall) = [x]"
proof -
  let ?s1 = "short_started cfg wall"
  obtain st1 ms1 where p: "?s1 = (st1, ms1)" by force
  have st1: "active st1" "stage_head st1 = 0" "stage_tail st1 = 0" "total_abs st1 = 0"
      "log_inv (\<lambda>m. m) st1 []"
    using short_start [of cfg wall] by (simp_all add: p)
  have z: "staged st1 = []" using st1 by (simp add: staged_def ring_contents_def)
  have r1: "log_room (LAppend [x]) (fst ?s1)" by (simp add: p st1)
  have "log_inv (\<lambda>m. m) (fst s2) []"
    using log_exec_inv [OF ram_flash_dir_dev _ r1] st1(5) by (simp add: p s2_def)
  moreover have "same_session (fst ?s1) (fst s2)" "staged (fst s2) = [x]"
    using session_ev_step [OF ram_flash_dir_dev _ r1, of "[]"] st1 z by (simp_all add: p s2_def)
  moreover have "total_abs (fst s2) = 0"
    using st1 by (simp add: s2_def p imu_log_append_def append_one_def)
  ultimately show ?thesis using r1 st1 z by (simp add: p same_session_def)
qed

lemma short_session:
  "log_rooms ram_flash [LAppend [x], LDrain 0] (short_started cfg wall) \<and>
   staged (fst (log_run ram_flash [LAppend [x], LDrain 0] (short_started cfg wall))) = [] \<and>
   unat (total_abs (fst (log_run ram_flash [LAppend [x], LDrain 0] (short_started cfg wall)))) < 2 ^ 28 \<and>
   log_taken ram_flash [LAppend [x], LDrain 0] (short_started cfg wall) = [x]"
proof -
  let ?s2 = "log_exec ram_flash (LAppend [x]) (short_started cfg wall)"
  obtain st2 ms2 where p2: "?s2 = (st2, ms2)" by force
  obtain st3 ms3 where p3: "writer_step ram_flash 0 (st2, ms2) = (st3, ms3)" by force
  have st2: "log_inv (\<lambda>m. m) st2 []" "active st2" "staged st2 = [x]" "total_abs st2 = 0"
    using short_append [of x cfg wall] by (simp_all add: p2)
  have l: "unat (stage_head st2 - stage_tail st2) = 1"
    using stage_okD(6) [OF log_invD(2) [OF st2(1)]] st2(3) by simp
  then have "stage_head st2 \<noteq> stage_tail st2" by auto
  then have n: "unat (drain_count st2) = 1"
    using drain_count_bounds(1) [of st2] drain_count_pos [of st2] l by linarith
  have "log_inv (\<lambda>m. m) st3 ([] @ take 1 [x]) \<and> staged st3 = drop 1 [x]"
    using drain_inv [OF ram_flash_dir_dev st2(1) _ p3] n st2 by simp
  then have "staged st3 = []" "unat (total_abs st3) = 1"
    using log_invD(5) [of "\<lambda>m. m" st3 "[x]"] by simp_all
  then show ?thesis using short_append [of x cfg wall] st2(4) by (simp add: p2 p3)
qed


subsection \<open>Stopping waits for the writer\<close>

text \<open>The passes the writer needs for what is staged: full batches, and one more at the ring's end.\<close>

definition passes :: "'f log_st \<Rightarrow> nat" where
  "passes st = (length (staged st) + 255) div 256 +
     (if unat (total_abs st) mod CAP + length (staged st) > CAP then 1 else 0)"

lemma passes_le: "stage_ok st \<Longrightarrow> passes st \<le> 7"
proof -
  assume "stage_ok st"
  then have "length (staged st) \<le> 1536" by (rule stage_okD(5))
  then have "(length (staged st) + 255) div 256 \<le> (1536 + 255) div 256" by (intro div_le_mono) simp
  then show ?thesis by (simp add: passes_def)
qed

lemma passes_arith:
  fixes l t :: nat
  assumes "0 < l" "l \<le> 1536" "n = min (min l 256) (CAP - t mod CAP)"
  shows "(l - n + 255) div 256 + (if (t + n) mod CAP + (l - n) > CAP then 1 else 0) <
    (l + 255) div 256 + (if t mod CAP + l > CAP then 1 else 0 :: nat)"
proof -
  let ?p = "t mod CAP"
  have p: "?p < CAP" by simp
  have m: "(t + n) mod CAP = (?p + n) mod CAP" by (simp only: mod_add_left_eq)
  consider (all) "n = l" "?p + l \<le> CAP" | (batch) "n = 256" "256 < l" "?p + 256 \<le> CAP"
    | (wrap) "n = CAP - ?p" "?p + n = CAP" "n < l" "n < 256"
    using assms p by linarith
  then show ?thesis
  proof cases
    case all
    then have "\<not> (t + n) mod CAP + (l - n) > CAP" "0 < (l + 255) div 256"
      using assms(1) by simp_all
    then show ?thesis using all by simp
  next
    case batch
    have "(l - n + 255) div 256 + 1 = (l + 255) div 256" using batch by linarith
    moreover have "(t + n) mod CAP + (l - n) \<le> ?p + l"
      unfolding m using batch mod_less_eq_dividend [of "?p + n" CAP] by linarith
    ultimately show ?thesis by (auto split: if_splits)
  next
    case wrap
    then have "(t + n) mod CAP = 0" "?p + l > CAP" unfolding m by simp_all
    moreover have "(l - n + 255) div 256 \<le> (l + 255) div 256" by (intro div_le_mono) simp
    ultimately show ?thesis using assms(2) by simp
  qed
qed

lemma drain_count_unat:
  "unat (drain_count st) = min (min (unat (stage_head st - stage_tail st)) 256) (CAP - unat (total_abs st) mod CAP)"
proof -
  have "unat (43478 - total_abs st mod 43478) = 43478 - unat (total_abs st) mod 43478"
    using mod_capacity_less(2) [of "total_abs st"]
    by (subst unat_sub) (auto simp: unat_mod word_less_nat_alt word_le_nat_alt)
  then show ?thesis by (auto simp: drain_count_def min_def word_le_nat_alt)
qed

lemma drain_step:
  assumes dev: "dir_dev fd img" and inv: "log_inv img st hist" and "active st"
    and room: "unat (total_abs st) + length (staged st) + 256 < 2 ^ 28"
    and run: "writer_step fd up (st, ms) = (st', ms')"
  defines "n \<equiv> unat (drain_count st)"
  shows "log_inv img st' (hist @ take n (staged st)) \<and> staged st' = drop n (staged st) \<and>
    same_session st st' \<and> (staged st \<noteq> [] \<longrightarrow> passes st' < passes st) \<and>
    unat (total_abs st') + length (staged st') = unat (total_abs st) + length (staged st)"
proof -
  note ok = stage_okD [OF log_invD(2) [OF inv]]
  have n: "n = min (min (length (staged st)) 256) (CAP - unat (total_abs st) mod CAP)"
    unfolding n_def drain_count_unat ok(6) ..
  have nl: "n \<le> length (staged st)" unfolding n by simp
  have s: "log_inv img st' (hist @ take n (staged st))" "staged st' = drop n (staged st)"
    using drain_inv [OF dev inv _ run] room assms(3) by (simp_all add: n_def)
  have t: "unat (total_abs st') = unat (total_abs st) + n"
    using log_invD(5) [OF s(1)] log_invD(5) [OF inv] nl by simp
  have "passes st' < passes st" if "staged st \<noteq> []"
    using passes_arith [OF _ _ n, of ] that ok(5) s(2) by (simp add: passes_def t)
  then show ?thesis
    using s t nl writer_step_same_session [of "(st, ms)" fd up] run by simp
qed

lemma flush_drains:
  assumes dev: "dir_dev fd img" and "log_inv img st hist" "active st"
    and "unat (total_abs st) + length (staged st) + 256 < 2 ^ 28" "passes st \<le> n"
    and "writer_flush n (\<lambda>_. writer_step fd up) (st, ms) = (st', ms')"
  shows "log_inv img st' (hist @ staged st) \<and> staged st' = [] \<and> same_session st st'"
  using assms(2-6)
proof (induction n arbitrary: st ms hist)
  case 0
  then have "length (staged st) + 255 < 256"
    by (simp add: passes_def div_eq_0_iff split: if_splits)
  then have "staged st = []" by simp
  then show ?case using 0 by (simp add: same_session_def)
next
  case (Suc n)
  note ok = stage_okD [OF log_invD(2) [OF Suc.prems(1)]]
  show ?case
  proof (cases "stage_head st = stage_tail st")
    case True
    then have "staged st = []" using ok(6) by simp
    then show ?thesis using Suc.prems True by (simp add: same_session_def)
  next
    case False
    then have ne: "staged st \<noteq> []" using ok(6) by (auto simp: unat_eq_0)
    obtain st1 ms1 where run: "writer_step fd up (st, ms) = (st1, ms1)" by force
    let ?n = "unat (drain_count st)"
    have step: "log_inv img st1 (hist @ take ?n (staged st))" "staged st1 = drop ?n (staged st)"
      "same_session st st1" "passes st1 < passes st"
      "unat (total_abs st1) + length (staged st1) = unat (total_abs st) + length (staged st)"
      using drain_step [OF dev Suc.prems(1,2,3) run] ne by blast+
    have "writer_flush n (\<lambda>_. writer_step fd up) (st1, ms1) = (st', ms')"
      using Suc.prems(5) False run by simp
    then have "log_inv img st' ((hist @ take ?n (staged st)) @ staged st1) \<and> staged st' = [] \<and> same_session st1 st'"
      using step Suc.prems by (intro Suc.IH) (simp_all add: same_session_def)
    then show ?thesis using step(2,3) by (simp add: same_session_def)
  qed
qed

text \<open>C19: Stopping loses nothing that is staged. When the writer thread gets one pass in each of the
  5 ms sleeps of \<open>writer_flush\<close>, seven of its 200 rounds persist the whole staging ring; the
  directory entry of the session is then closed and its count reaches to the end of the history.\<close>

theorem stop_persists_staged:
  assumes dev: "dir_dev fd img" and inv: "log_inv img st hist" "active st"
    and room: "unat (total_abs st) + length (staged st) + 256 < 2 ^ 28"
    and run: "imu_log_stop fd (\<lambda>_. writer_step fd up) (st, ms) = (st', ms')"
  shows "log_inv img st' (hist @ staged st) \<and> \<not> active st' \<and> staged st' = [] \<and>
    (\<exists>e. dir_map img (flash st') (cur_slot st) = Some e \<and> de_seq e = cur_seq st \<and>
       de_start_rec e = cur_start st \<and> de_open e = 0 \<and> entry_end e = length (hist @ staged st))"
proof -
  obtain st1 where flush: "writer_flush 200 (\<lambda>_. writer_step fd up) (st, ms) = (st1, ms')" and
    st': "st' = stop_finish fd st1"
    using run inv(2) by (auto simp: imu_log_stop_def split: prod.splits)
  have "passes st \<le> 200" using passes_le [OF log_invD(2) [OF inv(1)]] by simp
  then have st1: "log_inv img st1 (hist @ staged st)" "staged st1 = []" "same_session st st1"
    using flush_drains [OF dev inv room _ flush] by simp_all
  have act: "active st1" using st1(3) inv(2) by (simp add: same_session_def)
  obtain e where e: "dir_map img (flash st1) (cur_slot st1) = Some e" "de_seq e = cur_seq st1"
      "de_start_rec e = cur_start st1"
    and cnt: "unat (cur_start st1) + unat (cur_count st1) = unat (total_abs st1)"
    using log_invD(3) [OF st1(1)] act by (auto simp: dir_ok_def session_ok_def)
  obtain f' where f': "stop_finish fd st1 = st1\<lparr>active := False, session_detached := False, flash := f',
      last_dir_refresh := cur_count st1\<rparr>"
    "dir_map img f' = (dir_map img (flash st1))(cur_slot st1 \<mapsto> e\<lparr>de_rec_count := cur_count st1, de_open := 0\<rparr>)"
    using finish_dir [OF dev log_invD(4) [OF st1(1)] act e(1)] by blast
  have "log_inv img st' (hist @ staged st)" unfolding st' by (rule finish_inv [OF dev st1(1)])
  moreover have "\<not> active st'" "staged st' = []" using f'(1) st1(2) by (simp_all add: st' staged_def)
  moreover have "\<exists>e. dir_map img (flash st') (cur_slot st) = Some e \<and> de_seq e = cur_seq st \<and>
       de_start_rec e = cur_start st \<and> de_open e = 0 \<and> entry_end e = length (hist @ staged st)"
    using f' e st1(3) cnt log_invD(5) [OF st1(1)]
    by (simp add: st' same_session_def entry_end_def)
  ultimately show ?thesis by blast
qed

theorem stop_persists_staged_witness:
  "\<exists>st' ms'. imu_log_stop ram_flash (\<lambda>_. writer_step ram_flash 0)
       (log_exec ram_flash (LAppend [zero_sample]) (short_started settings_boot 5)) = (st', ms') \<and>
     log_inv (\<lambda>m. m) st' [zero_sample] \<and> \<not> active st' \<and> staged st' = []"
proof -
  obtain st ms where p: "log_exec ram_flash (LAppend [zero_sample]) (short_started settings_boot 5) = (st, ms)"
    by force
  obtain st' ms' where r: "imu_log_stop ram_flash (\<lambda>_. writer_step ram_flash 0) (st, ms) = (st', ms')" by force
  have "log_inv (\<lambda>m. m) st []" "active st" "unat (total_abs st) + length (staged st) + 256 < 2 ^ 28"
    "staged st = [zero_sample]"
    using short_append [of zero_sample settings_boot 5] by (simp_all add: p)
  then show ?thesis
    using stop_persists_staged [OF ram_flash_dir_dev, of st "[]" 0 ms st' ms'] r p by auto
qed

section \<open>Where a run writes\<close>

text \<open>No assumption on the controller but its laws: writes may fail or be torn.\<close>

lemma stop_finish_confined:
  assumes "flash_laws fd img" "cur_slot st < 16"
  shows "same_outside img LOG_LO LOG_HI (flash st) (flash (stop_finish fd st)) \<and> cur_slot (stop_finish fd st) < 16"
proof (cases "active st")
  case True
  obtain f l where "dir_refresh_current fd True (st\<lparr>active := False, session_detached := False\<rparr>) =
      st\<lparr>active := False, session_detached := False\<rparr>\<lparr>flash := f, last_dir_refresh := l\<rparr>"
    "same_outside img LOG_LO LOG_DATA (flash st) f"
    using dir_refresh_current_frame [of fd True "st\<lparr>active := False, session_detached := False\<rparr>" img] assms
    by auto
  then show ?thesis
    using True assms(2) same_outside_mono [of img LOG_LO LOG_DATA "flash st" f LOG_LO LOG_HI]
    by (simp add: stop_finish_def)
qed (use assms in \<open>simp add: stop_finish_def\<close>)

lemma start_confined:
  assumes "flash_laws fd img" "cur_slot st < 16"
  shows "same_outside img LOG_LO LOG_HI (flash st) (flash (snd (imu_log_start fd cfg wall st))) \<and>
    cur_slot (snd (imu_log_start fd cfg wall st)) < 16"
proof (cases "active st")
  case True
  then show ?thesis using assms(2) by (simp add: imu_log_start_def)
next
  case False
  have sl: "(seq_next st - 1) mod 16 < 16" by (simp add: word_less_nat_alt unat_mod)
  have "same_outside img LOG_LO LOG_HI (flash st) (snd (entry_write fd (flash st) ((seq_next st - 1) mod 16) e))" for e
    using entry_write_outside [OF assms(1) sl] by (rule same_outside_mono) simp_all
  then show ?thesis using False sl by (simp add: imu_log_start_def Let_def split_beta)
qed

lemma writer_step_confined:
  assumes "flash_laws fd img" "cur_slot (fst s) < 16"
  shows "same_outside img LOG_LO LOG_HI (flash (fst s)) (flash (fst (writer_step fd up s))) \<and>
    cur_slot (fst (writer_step fd up s)) < 16"
proof -
  obtain st ms where s: "s = (st, ms)" by force
  let ?w = "drain_write fd st"
  have slot: "cur_slot ?w = cur_slot st" by (simp add: drain_write_def)
  obtain f l m where m: "dir_maintenance fd up (?w, ms) = (?w\<lparr>flash := f, last_dir_refresh := l\<rparr>, m)"
    "same_outside img LOG_LO LOG_DATA (flash ?w) f"
    using dir_maintenance_frame [of fd up ?w ms img] assms by (auto simp: s slot)
  have "same_outside img LOG_LO LOG_HI (flash st) (flash ?w)"
    by (rule same_outside_mono [OF drain_write_outside [OF assms(1)]]) simp_all
  moreover have "same_outside img LOG_LO LOG_HI (flash ?w) f"
    by (rule same_outside_mono [OF m(2)]) simp_all
  ultimately have "same_outside img LOG_LO LOG_HI (flash st) f" by (rule same_outside_trans)
  then show ?thesis using assms(2) m(1) slot by (simp add: s writer_step_def writer_drain_batch_split)
qed

lemma log_exec_confined:
  assumes "flash_laws fd img" "cur_slot (fst s) < 16"
  shows "same_outside img LOG_LO LOG_HI (flash (fst s)) (flash (fst (log_exec fd ev s))) \<and>
    cur_slot (fst (log_exec fd ev s)) < 16"
proof -
  obtain st ms where s: "s = (st, ms)" by force
  show ?thesis
  proof (cases ev)
    case (LAppend xs)
    obtain a b c where "fold append_one xs st = st\<lparr>stage := a, stage_head := b, log_dropped := c\<rparr>"
      using append_fold_frame by blast
    then show ?thesis using assms LAppend by (simp add: s imu_log_append_def)
  next
    case (LErase v)
    have flush: "writer_flush n (\<lambda>_. id) q = q" for n and q :: "'a log_st \<times> msg_st"
      by (induction n) auto
    define s1 where "s1 = fst (imu_log_stop fd (\<lambda>_. id) (st, ms))"
    have "s1 = stop_finish fd st"
      unfolding s1_def by (simp add: imu_log_stop_def flush stop_finish_def del: writer_flush.simps)
    then have s1: "same_outside img LOG_LO LOG_HI (flash st) (flash s1)" "cur_slot s1 < 16"
      using stop_finish_confined [OF assms(1), of st] assms(2) by (simp_all add: s)
    have "same_outside img LOG_LO LOG_HI (flash s1) (dir_wipe_and_stamp fd v (flash s1))"
      by (rule same_outside_mono [OF wipe_outside [OF assms(1)]]) simp_all
    then show ?thesis
      using same_outside_trans [OF s1(1)] s1(2) LErase by (simp add: s imu_log_erase_def s1_def split_beta)
  qed (use assms start_confined [OF assms(1), of st] stop_finish_confined [OF assms(1), of st]
      writer_step_confined [OF assms] in \<open>auto simp: s imu_log_mark_detached_def\<close>)
qed



end
