(* ===== verification/Imu_Pump.thy ===== *)
theory Imu_Pump
  imports Flpr_Sampler Log_Runs
begin

text \<open>
  The pump thread of the application core, \<open>src/imu/imu_pump.c\<close>: it drains the shared sample ring in
  chunks of at most 64 into the flash log and the stream sink. First the thread's pass as a
  function, then the ring itself with the two cores interleaved at every access, one producer
  (\<open>flpr_publish\<close>) and one consumer (the pump).
\<close>

section \<open>The pump\<close>

abbreviation PUMP_CHUNK :: u32 where "PUMP_CHUNK \<equiv> 64"

definition pump_chunk :: "imu_shared \<Rightarrow> u32 \<Rightarrow> u32 \<Rightarrow> imu_sample list" where
  "pump_chunk sh tail n = map (\<lambda>i. ring sh ! shared_idx (tail + of_nat i)) [0..<unat n]"

definition imu_pump_overrun :: "imu_shared \<Rightarrow> u32" where
  "imu_pump_overrun sh = (if magic sh = IMU_SHARED_MAGIC then overrun sh else 0)"

lemma pump_count:
  fixes head tail :: u32
  assumes "tail \<noteq> head"
  defines "n \<equiv> min (head - tail) PUMP_CHUNK"
  shows "0 < unat n" "unat n \<le> unat (head - tail)" "unat n \<le> 64"
    "unat (head - (tail + n)) = unat (head - tail) - unat n"
proof -
  have "n \<noteq> 0" using assms(1) by (simp add: n_def min_def)
  then show "0 < unat n" by (simp add: unat_gt_0)
  show le: "unat n \<le> unat (head - tail)" "unat n \<le> 64" by (auto simp: n_def min_def word_le_nat_alt)
  have "head - (tail + n) = head - tail - n" by simp
  also have "unat \<dots> = unat (head - tail) - unat n"
    using le(1) by (intro unat_sub) (simp add: word_le_nat_alt)
  finally show "unat (head - (tail + n)) = unat (head - tail) - unat n" .
qed

text \<open>
  The inner loop, from the latched head. \<open>deliver\<close> hands a chunk to the log and the sink; \<open>s\<close> is the
  state they work on.
\<close>

function pump_drain ::
  "(imu_sample list \<Rightarrow> 's \<Rightarrow> 's) \<Rightarrow> u32 \<Rightarrow> u32 \<Rightarrow> imu_shared \<times> u32 \<times> 's \<Rightarrow> imu_shared \<times> u32 \<times> 's" where
  "pump_drain deliver head tail (sh, drained, s) =
     (if tail = head then (sh, drained, s)
      else
        let n = min (head - tail) PUMP_CHUNK;
            chunk = pump_chunk sh tail n
        in pump_drain deliver head (tail + n) (sh\<lparr>sh_tail := tail + n\<rparr>, drained + n, deliver chunk s))"
  by pat_completeness auto
termination
proof (relation "measure (\<lambda>(deliver, head, tail, s). unat (head - tail))", goal_cases)
  case (2 deliver head tail sh drained s n chunk)
  then show ?case using pump_count [of tail head] by simp
qed simp

declare pump_drain.simps [simp del]

definition pump_pass ::
  "(imu_sample list \<Rightarrow> 's \<Rightarrow> 's) \<Rightarrow> imu_shared \<times> u32 \<times> 's \<Rightarrow> imu_shared \<times> u32 \<times> 's" where
  "pump_pass deliver w =
     (let (sh, drained, s) = w
      in if magic sh \<noteq> IMU_SHARED_MAGIC \<or> imu_ok sh = 0 then w
         else pump_drain deliver (sh_head sh) (sh_tail sh) w)"

text \<open>The queue of the shared ring.\<close>

definition shared_queue :: "imu_shared \<Rightarrow> imu_sample list" where
  "shared_queue sh = ring_contents shared_idx (sh_head sh) (sh_tail sh) (ring sh)"

lemma pump_drain_delivers:
  assumes "sh_tail sh = tail" "sh_head sh = head"
  shows "\<exists>chunks. pump_drain deliver head tail (sh, drained, s) =
      (sh\<lparr>sh_tail := head\<rparr>, drained + (head - tail), fold deliver chunks s) \<and>
    concat chunks = shared_queue sh \<and> (\<forall>c \<in> set chunks. 0 < length c \<and> length c \<le> 64)"
  using assms
proof (induction "unat (head - tail)" arbitrary: tail sh drained s rule: less_induct)
  case less
  show ?case
  proof (cases "tail = head")
    case True
    have "shared_queue sh = []" using less.prems True by (simp add: shared_queue_def ring_contents_def)
    moreover have "pump_drain deliver head tail (sh, drained, s) = (sh\<lparr>sh_tail := head\<rparr>, drained + (head - tail), s)"
      using less.prems True by (cases sh) (simp add: pump_drain.simps)
    ultimately show ?thesis by (intro exI [of _ "[]"]) simp
  next
    case False
    define n where "n = min (head - tail) PUMP_CHUNK"
    let ?sh = "sh\<lparr>sh_tail := tail + n\<rparr>" and ?c = "pump_chunk sh tail n"
    note cnt = pump_count [OF False, folded n_def]
    obtain cs where cs: "pump_drain deliver head (tail + n) (?sh, drained + n, deliver ?c s) =
        (?sh\<lparr>sh_tail := head\<rparr>, (drained + n) + (head - (tail + n)), fold deliver cs (deliver ?c s))"
      "concat cs = shared_queue ?sh" "\<forall>c \<in> set cs. 0 < length c \<and> length c \<le> 64"
      using less.hyps [of "tail + n" ?sh "drained + n" "deliver ?c s"] cnt less.prems by auto
    have "?c = take (unat n) (shared_queue sh)"
      unfolding pump_chunk_def shared_queue_def less.prems by (rule shared.contents_peek [OF cnt(2)])
    moreover have "shared_queue ?sh = drop (unat n) (shared_queue sh)"
      using shared.contents_pop [OF cnt(2), of "ring sh"] less.prems by (simp add: shared_queue_def)
    ultimately have "concat (?c # cs) = shared_queue sh" using cs(2) by simp
    moreover have "?c \<noteq> [] \<and> length ?c \<le> 64" using cnt by (simp add: pump_chunk_def)
    moreover have "pump_drain deliver head tail (sh, drained, s) =
        pump_drain deliver head (tail + n) (?sh, drained + n, deliver ?c s)"
      using False by (subst pump_drain.simps) (simp add: Let_def n_def [symmetric])
    ultimately show ?thesis
      using cs cnt by (intro exI [of _ "?c # cs"]) simp
  qed
qed

text \<open>A pass of the pump hands on exactly the queue of the shared ring, in order, in chunks of 1 to
  64 samples, and leaves the ring empty; nothing is touched while the FLPR has not announced
  itself with a working sensor.\<close>

theorem pump_pass_delivers:
  "if magic sh = IMU_SHARED_MAGIC \<and> imu_ok sh \<noteq> 0
   then \<exists>chunks. pump_pass deliver (sh, drained, s) =
       (sh\<lparr>sh_tail := sh_head sh\<rparr>, drained + (sh_head sh - sh_tail sh), fold deliver chunks s) \<and>
     concat chunks = shared_queue sh \<and> list_all (\<lambda>c. length c \<in> {1..64}) chunks
   else pump_pass deliver (sh, drained, s) = (sh, drained, s)"
proof (cases "magic sh = IMU_SHARED_MAGIC \<and> imu_ok sh \<noteq> 0")
  case True
  obtain chunks where "pump_drain deliver (sh_head sh) (sh_tail sh) (sh, drained, s) =
      (sh\<lparr>sh_tail := sh_head sh\<rparr>, drained + (sh_head sh - sh_tail sh), fold deliver chunks s)"
    "concat chunks = shared_queue sh" "\<forall>c \<in> set chunks. 0 < length c \<and> length c \<le> 64"
    using pump_drain_delivers [of sh "sh_tail sh" "sh_head sh" deliver drained s] by auto
  then show ?thesis
    using True by (auto simp: pump_pass_def Suc_le_eq list_all_iff intro!: exI [of _ chunks])
qed (auto simp: pump_pass_def)

section \<open>The ring with both cores interleaved\<close>

text \<open>
  The producer claims a slot, stores the record field by field (in between, the slot may hold
  anything), and only then moves the head; the consumer latches the head, copies records one by
  one, and only then moves the tail. \<open>sp_pub\<close> records each published sample with the drops before
  it and \<open>sp_out\<close> the samples handed on; neither is read by a step. Accesses are taken in program
  order, which is what the two barriers are for.
\<close>

datatype prod_pc = PIdle | PFill imu_sample | PStored imu_sample
datatype cons_pc = CIdle | CLoop u32 u32 | CCopy u32 u32 u32 "imu_sample list"

record spsc_st =
  sp_sh :: imu_shared
  sp_prod :: prod_pc
  sp_cons :: cons_pc
  sp_sampled :: u32
  sp_pub :: "(imu_sample \<times> u32) list"
  sp_out :: "imu_sample list"

abbreviation with_sh :: "(imu_shared \<Rightarrow> imu_shared) \<Rightarrow> spsc_st \<Rightarrow> spsc_st" where
  "with_sh g s \<equiv> s\<lparr>sp_sh := g (sp_sh s)\<rparr>"

definition ring_full :: "imu_shared \<Rightarrow> bool" where
  "ring_full sh \<longleftrightarrow> sh_head sh - sh_tail sh \<ge> of_nat IMU_RING_N"

inductive spsc_step :: "spsc_st \<Rightarrow> spsc_st \<Rightarrow> bool" where
  drop: "sp_prod s = PIdle \<Longrightarrow> ring_full (sp_sh s) \<Longrightarrow>
    spsc_step s (s\<lparr>sp_sampled := sp_sampled s + 1, sp_sh := (sp_sh s)\<lparr>overrun := overrun (sp_sh s) + 1\<rparr>\<rparr>)"
| claim: "sp_prod s = PIdle \<Longrightarrow> \<not> ring_full (sp_sh s) \<Longrightarrow>
    spsc_step s (s\<lparr>sp_sampled := sp_sampled s + 1, sp_prod := PFill (d\<lparr>s_seq16 := ucast (sp_sampled s + 1)\<rparr>)\<rparr>)"
| tear: "sp_prod s = PFill x \<Longrightarrow>
    spsc_step s (s\<lparr>sp_sh := (sp_sh s)\<lparr>ring := (ring (sp_sh s))[shared_idx (sh_head (sp_sh s)) := junk]\<rparr>\<rparr>)"
| store: "sp_prod s = PFill x \<Longrightarrow>
    spsc_step s (s\<lparr>sp_sh := (sp_sh s)\<lparr>ring := (ring (sp_sh s))[shared_idx (sh_head (sp_sh s)) := x]\<rparr>,
                   sp_prod := PStored x\<rparr>)"
| publish: "sp_prod s = PStored x \<Longrightarrow>
    spsc_step s (s\<lparr>sp_sh := (sp_sh s)\<lparr>sh_head := sh_head (sp_sh s) + 1\<rparr>, sp_prod := PIdle,
                   sp_pub := sp_pub s @ [(x, overrun (sp_sh s))]\<rparr>)"
| latch: "sp_cons s = CIdle \<Longrightarrow>
    spsc_step s (s\<lparr>sp_cons := CLoop (sh_head (sp_sh s)) (sh_tail (sp_sh s))\<rparr>)"
| chunk: "sp_cons s = CLoop h t \<Longrightarrow> t \<noteq> h \<Longrightarrow>
    spsc_step s (s\<lparr>sp_cons := CCopy h t (min (h - t) PUMP_CHUNK) []\<rparr>)"
| copy: "sp_cons s = CCopy h t n acc \<Longrightarrow> length acc < unat n \<Longrightarrow>
    spsc_step s (s\<lparr>sp_cons := CCopy h t n (acc @ [ring (sp_sh s) ! shared_idx (t + of_nat (length acc))])\<rparr>)"
| free: "sp_cons s = CCopy h t n acc \<Longrightarrow> length acc = unat n \<Longrightarrow>
    spsc_step s (s\<lparr>sp_sh := (sp_sh s)\<lparr>sh_tail := t + n\<rparr>, sp_cons := CLoop h (t + n), sp_out := sp_out s @ acc\<rparr>)"
| pass_end: "sp_cons s = CLoop h h \<Longrightarrow> spsc_step s (s\<lparr>sp_cons := CIdle\<rparr>)"

inductive_cases spsc_stepE: "spsc_step s s'"

abbreviation spsc_run :: "spsc_st \<Rightarrow> spsc_st \<Rightarrow> bool" where
  "spsc_run \<equiv> spsc_step\<^sup>*\<^sup>*"

definition fill :: "imu_shared \<Rightarrow> nat" where
  "fill sh = unat (sh_head sh - sh_tail sh)"

text \<open>Producer side, consumer side, and the queue between them.\<close>

definition prod_ok :: "spsc_st \<Rightarrow> bool" where
  "prod_ok s \<longleftrightarrow>
     (case sp_prod s of
        PIdle \<Rightarrow> sp_sampled s = of_nat (length (sp_pub s)) + overrun (sp_sh s)
      | PFill x \<Rightarrow> fill (sp_sh s) < IMU_RING_N \<and> s_seq16 x = ucast (sp_sampled s) \<and>
          sp_sampled s = of_nat (length (sp_pub s)) + overrun (sp_sh s) + 1
      | PStored x \<Rightarrow> fill (sp_sh s) < IMU_RING_N \<and> s_seq16 x = ucast (sp_sampled s) \<and>
          sp_sampled s = of_nat (length (sp_pub s)) + overrun (sp_sh s) + 1 \<and>
          ring (sp_sh s) ! shared_idx (sh_head (sp_sh s)) = x)"

definition cons_ok :: "spsc_st \<Rightarrow> bool" where
  "cons_ok s \<longleftrightarrow>
     (case sp_cons s of
        CIdle \<Rightarrow> True
      | CLoop h t \<Rightarrow> t = sh_tail (sp_sh s) \<and> unat (h - t) \<le> fill (sp_sh s)
      | CCopy h t n acc \<Rightarrow> t = sh_tail (sp_sh s) \<and> unat (h - t) \<le> fill (sp_sh s) \<and>
          unat n \<le> unat (h - t) \<and> length acc \<le> unat n \<and> acc = take (length acc) (shared_queue (sp_sh s)))"

definition queue_ok :: "spsc_st \<Rightarrow> bool" where
  "queue_ok s \<longleftrightarrow> length (ring (sp_sh s)) = IMU_RING_N \<and> fill (sp_sh s) \<le> IMU_RING_N \<and>
     map fst (sp_pub s) = sp_out s @ shared_queue (sp_sh s) \<and>
     (\<forall>k < length (sp_pub s). s_seq16 (fst (sp_pub s ! k)) = ucast (of_nat (Suc k) + snd (sp_pub s ! k)))"

definition spsc_inv :: "spsc_st \<Rightarrow> bool" where
  "spsc_inv s \<longleftrightarrow> prod_ok s \<and> cons_ok s \<and> queue_ok s"

lemmas spsc_defs = prod_ok_def cons_ok_def queue_ok_def fill_def

lemma not_full: "\<not> ring_full sh \<Longrightarrow> fill sh < IMU_RING_N"
  by (simp add: ring_full_def fill_def word_le_nat_alt)

lemma length_shared_queue: "length (shared_queue sh) = fill sh"
  by (simp add: shared_queue_def fill_def shared.length_contents)

text \<open>A write to the slot at the head is invisible to the queue, whatever is written.\<close>

lemma queue_head_slot:
  assumes "fill sh < IMU_RING_N" "length (ring sh) = IMU_RING_N"
  shows "shared_queue (sh\<lparr>ring := (ring sh)[shared_idx (sh_head sh) := x]\<rparr>) = shared_queue sh"
  using shared.contents_update_other [where t = "sh_tail sh" and h = "sh_head sh" and buf = "ring sh"] assms
  by (simp add: shared_queue_def fill_def)

lemma queue_publish:
  assumes "fill sh < IMU_RING_N" "length (ring sh) = IMU_RING_N" "ring sh ! shared_idx (sh_head sh) = x"
  shows "shared_queue (sh\<lparr>sh_head := sh_head sh + 1\<rparr>) = shared_queue sh @ [x] \<and>
    fill (sh\<lparr>sh_head := sh_head sh + 1\<rparr>) = Suc (fill sh)"
proof -
  have "(ring sh)[shared_idx (sh_head sh) := x] = ring sh" using assms(3) by (metis list_update_id)
  then show ?thesis
    using shared.contents_push [where t = "sh_tail sh" and h = "sh_head sh" and buf = "ring sh" and x = x] assms
      shared.fill_push [of "sh_head sh" "sh_tail sh"]
    by (simp add: shared_queue_def fill_def)
qed

lemma prod_ok_cons: "prod_ok (s\<lparr>sp_cons := c\<rparr>) = prod_ok s"
  by (cases "sp_prod s") (simp_all add: prod_ok_def)

lemma head_slot_inv:
  assumes "sp_prod s = PFill x" "spsc_inv s" "p = PFill x \<or> y = x \<and> p = PStored x"
  shows "spsc_inv (s\<lparr>sp_sh := (sp_sh s)\<lparr>ring := (ring (sp_sh s))[shared_idx (sh_head (sp_sh s)) := y]\<rparr>, sp_prod := p\<rparr>)"
proof -
  have f: "fill (sp_sh s) < IMU_RING_N" "length (ring (sp_sh s)) = IMU_RING_N"
    using assms(1,2) by (auto simp: spsc_inv_def prod_ok_def queue_ok_def)
  have "shared_idx (sh_head (sp_sh s)) < length (ring (sp_sh s))" using f(2) shared.idx_less by simp
  then show ?thesis
    using assms queue_head_slot [OF f, of y] by (auto simp: spsc_inv_def spsc_defs split: cons_pc.splits)
qed

lemma publish_inv:
  assumes "sp_prod s = PStored x" "spsc_inv s"
  shows "spsc_inv (s\<lparr>sp_sh := (sp_sh s)\<lparr>sh_head := sh_head (sp_sh s) + 1\<rparr>, sp_prod := PIdle,
                   sp_pub := sp_pub s @ [(x, overrun (sp_sh s))]\<rparr>)" (is "spsc_inv ?s")
proof -
  have f: "fill (sp_sh s) < IMU_RING_N" "length (ring (sp_sh s)) = IMU_RING_N"
    "ring (sp_sh s) ! shared_idx (sh_head (sp_sh s)) = x"
    and prod: "s_seq16 x = ucast (sp_sampled s)" "sp_sampled s = of_nat (length (sp_pub s)) + overrun (sp_sh s) + 1"
    using assms by (auto simp: spsc_inv_def prod_ok_def queue_ok_def)
  note q = queue_publish [OF f]
  have "prod_ok ?s" using prod by (simp add: prod_ok_def add_ac)
  moreover have "cons_ok ?s"
  proof (cases "sp_cons s")
    case (CCopy h t n acc)
    then have "length acc \<le> length (shared_queue (sp_sh s))"
      using assms(2) by (auto simp: spsc_inv_def cons_ok_def length_shared_queue)
    then show ?thesis using assms(2) q CCopy by (auto simp: spsc_inv_def cons_ok_def)
  qed (use assms(2) q in \<open>auto simp: spsc_inv_def cons_ok_def\<close>)
  moreover have "queue_ok ?s"
    using assms(2) prod q f by (auto simp: spsc_inv_def queue_ok_def nth_append less_Suc_eq add_ac)
  ultimately show ?thesis by (simp add: spsc_inv_def)
qed

lemma copy_inv:
  assumes "sp_cons s = CCopy h t n acc" "length acc < unat n" "spsc_inv s"
  shows "spsc_inv (s\<lparr>sp_cons := CCopy h t n (acc @ [ring (sp_sh s) ! shared_idx (t + of_nat (length acc))])\<rparr>)"
proof -
  have c: "t = sh_tail (sp_sh s)" "length acc < length (shared_queue (sp_sh s))"
    "acc = take (length acc) (shared_queue (sp_sh s))" "unat (h - t) \<le> fill (sp_sh s)" "unat n \<le> unat (h - t)"
    using assms by (auto simp: spsc_inv_def cons_ok_def length_shared_queue)
  then have "shared_queue (sp_sh s) ! length acc = ring (sp_sh s) ! shared_idx (t + of_nat (length acc))"
    by (simp add: shared_queue_def shared.length_contents) (simp add: ring_contents_def)
  then have "take (Suc (length acc)) (shared_queue (sp_sh s)) =
      acc @ [ring (sp_sh s) ! shared_idx (t + of_nat (length acc))]"
    using c(2,3) by (simp add: take_Suc_conv_app_nth)
  then have "cons_ok (s\<lparr>sp_cons := CCopy h t n (acc @ [ring (sp_sh s) ! shared_idx (t + of_nat (length acc))])\<rparr>)"
    using c(1,4,5) assms(2) by (simp add: cons_ok_def)
  then show ?thesis using assms(3) by (simp add: spsc_inv_def prod_ok_cons queue_ok_def)
qed

lemma free_inv:
  assumes "sp_cons s = CCopy h t n acc" "length acc = unat n" "spsc_inv s"
  shows "spsc_inv (s\<lparr>sp_sh := (sp_sh s)\<lparr>sh_tail := t + n\<rparr>, sp_cons := CLoop h (t + n), sp_out := sp_out s @ acc\<rparr>)"
proof -
  let ?sh = "sp_sh s" and ?sh' = "(sp_sh s)\<lparr>sh_tail := t + n\<rparr>"
  have c: "t = sh_tail ?sh" "unat (h - t) \<le> fill ?sh" "unat n \<le> unat (h - t)" "acc = take (unat n) (shared_queue ?sh)"
    using assms by (auto simp: spsc_inv_def cons_ok_def)
  have n: "unat n \<le> unat (sh_head ?sh - sh_tail ?sh)" using c(2,3) by (simp add: fill_def)
  have q: "shared_queue ?sh' = drop (unat n) (shared_queue ?sh)"
    using shared.contents_pop [OF n, of "ring ?sh"] c(1) by (simp add: shared_queue_def)
  have fl: "fill ?sh' = fill ?sh - unat n"
    using arg_cong [OF q, of length] by (simp add: length_shared_queue)
  have "unat (h - (t + n)) = unat (h - t) - unat n"
    using c(3) by (metis diff_diff_add unat_sub word_le_nat_alt)
  then have "unat (h - (t + n)) \<le> fill ?sh'" using c(2) fl by simp
  then show ?thesis
    using assms fl q c(4)
    by (auto simp: spsc_inv_def prod_ok_def cons_ok_def queue_ok_def split: prod_pc.splits)
qed

lemma spsc_step_inv:
  assumes "spsc_step s s'" "spsc_inv s"
  shows "spsc_inv s'"
  using assms
proof (induction rule: spsc_step.induct)
  case (claim s d)
  then show ?case
    using not_full [OF claim(2)]
    by (auto simp: spsc_inv_def spsc_defs split: cons_pc.splits)
next
  case (tear s x junk)
  then show ?case using head_slot_inv [of s x "PFill x" junk] by (cases s) simp
next
  case (store s x)
  then show ?case by (intro head_slot_inv) simp_all
next
  case (publish s x)
  then show ?case by (rule publish_inv)
next
  case (copy s h t n acc)
  then show ?case by (rule copy_inv)
next
  case (free s h t n acc)
  then show ?case by (rule free_inv)
qed (auto simp: spsc_inv_def spsc_defs shared_queue_def word_le_nat_alt min_def split: prod_pc.splits cons_pc.splits)

lemma mod_add_cancel:
  fixes a b c d :: int
  assumes "d dvd c"
  shows "(a mod c + b mod c) mod d = (a + b) mod d"
proof -
  have "(a mod c + b mod c) mod d = (a mod c mod d + b mod c mod d) mod d" by (simp only: mod_add_eq)
  also have "\<dots> = (a mod d + b mod d) mod d" by (simp only: mod_mod_cancel [OF assms])
  finally show ?thesis by (simp only: mod_add_eq)
qed

lemma ucast_u16_add: "(ucast (a + b :: u32) :: u16) = ucast a + ucast b"
  by transfer (simp add: take_bit_eq_mod mod_add_cancel mod_mod_cancel)

lemma ucast_u16_diff: "(ucast (a :: u32) :: u16) - ucast b = ucast (a - b)"
  using ucast_u16_add [of "a - b" b] by (simp add: algebra_simps)

definition spsc_boot :: "imu_shared \<Rightarrow> spsc_st" where
  "spsc_boot sh = \<lparr>sp_sh = sh, sp_prod = PIdle, sp_cons = CIdle, sp_sampled = 0, sp_pub = [], sp_out = []\<rparr>"

lemma spsc_reach_inv:
  assumes "sh_head sh = 0" "sh_tail sh = 0" "overrun sh = 0" "length (ring sh) = IMU_RING_N"
    and "spsc_run (spsc_boot sh) s"
  shows "spsc_inv s"
  using assms(5)
proof (induction rule: rtranclp_induct)
  case base
  show ?case
    using assms(1-4) by (simp add: spsc_boot_def spsc_inv_def spsc_defs shared_queue_def ring_contents_def)
next
  case (step s1 s2)
  then show ?case by (blast intro: spsc_step_inv)
qed

text \<open>C9: The shared ring loses, duplicates, reorders and corrupts nothing, however the two cores
  interleave and whatever a slot holds while it is being written. In every reachable state the
  samples the pump has handed on, followed by those still queued, are exactly the published ones;
  and the sequence number of the k-th published sample counts all samples taken up to it, so the
  gap between two neighbours is the number of drops between them (modulo \<open>2 ^ 16\<close>).\<close>

theorem shared_ring_lossless:
  assumes init: "sh_head sh = 0" "sh_tail sh = 0" "overrun sh = 0" "length (ring sh) = IMU_RING_N"
    and run: "spsc_run (spsc_boot sh) s"
  shows "map fst (sp_pub s) = sp_out s @ shared_queue (sp_sh s) \<and> fill (sp_sh s) \<le> IMU_RING_N \<and>
    (\<forall>k. Suc k < length (sp_pub s) \<longrightarrow>
       s_seq16 (fst (sp_pub s ! Suc k)) - s_seq16 (fst (sp_pub s ! k)) =
       1 + ucast (snd (sp_pub s ! Suc k) - snd (sp_pub s ! k)))"
proof -
  have q: "queue_ok s" using spsc_reach_inv [OF init run] by (simp add: spsc_inv_def)
  have "s_seq16 (fst (sp_pub s ! Suc k)) - s_seq16 (fst (sp_pub s ! k)) =
      1 + ucast (snd (sp_pub s ! Suc k) - snd (sp_pub s ! k))" if "Suc k < length (sp_pub s)" for k
  proof -
    have "s_seq16 (fst (sp_pub s ! j)) = ucast (of_nat (Suc j) + snd (sp_pub s ! j))" if "j < length (sp_pub s)" for j
      using q that by (simp add: queue_ok_def)
    then have "s_seq16 (fst (sp_pub s ! Suc k)) - s_seq16 (fst (sp_pub s ! k)) =
        ucast ((of_nat (Suc (Suc k)) + snd (sp_pub s ! Suc k)) - (of_nat (Suc k) + snd (sp_pub s ! k)))"
      using that ucast_u16_diff by simp
    also have "\<dots> = ucast (1 + (snd (sp_pub s ! Suc k) - snd (sp_pub s ! k)))"
      by (simp add: algebra_simps)
    finally show ?thesis by (simp add: ucast_u16_add)
  qed
  then show ?thesis using q by (simp add: queue_ok_def)
qed

text \<open>The interleaved producer contains the loop's sample step, and the consumer the pump's pass.\<close>

lemma publish_steps:
  assumes "sp_prod s = PIdle" "length (ring (sp_sh s)) = IMU_RING_N"
  shows "\<exists>pub. spsc_run s (s\<lparr>sp_sh := flpr_publish d (sp_sampled s + 1) (sp_sh s), sp_sampled := sp_sampled s + 1,
     sp_pub := pub\<rparr>)"
proof (cases "ring_full (sp_sh s)")
  case True
  have "spsc_step s (s\<lparr>sp_sampled := sp_sampled s + 1, sp_sh := (sp_sh s)\<lparr>overrun := overrun (sp_sh s) + 1\<rparr>\<rparr>)"
    by (rule spsc_step.drop [OF assms(1) True])
  moreover have "flpr_publish d (sp_sampled s + 1) (sp_sh s) = (sp_sh s)\<lparr>overrun := overrun (sp_sh s) + 1\<rparr>"
    using True by (simp add: flpr_publish_def ring_full_def)
  moreover have "s\<lparr>sp_sampled := a, sp_sh := b\<rparr> = s\<lparr>sp_sh := b, sp_sampled := a, sp_pub := sp_pub s\<rparr>" for a b
    by (cases s) simp
  ultimately show ?thesis by (metis r_into_rtranclp)
next
  case False
  let ?k = "sp_sampled s + 1" and ?x = "d\<lparr>s_seq16 := ucast (sp_sampled s + 1)\<rparr>"
  let ?r = "(ring (sp_sh s))[shared_idx (sh_head (sp_sh s)) := ?x]"
  let ?s1 = "s\<lparr>sp_sampled := ?k, sp_prod := PFill ?x\<rparr>"
  let ?s2 = "s\<lparr>sp_sampled := ?k, sp_sh := (sp_sh s)\<lparr>ring := ?r\<rparr>, sp_prod := PStored ?x\<rparr>"
  have 1: "spsc_step s ?s1" by (rule spsc_step.claim [OF assms(1) False])
  have 2: "spsc_step ?s1 ?s2"
    using spsc_step.store [of ?s1 ?x] by simp
  have pub: "flpr_publish d ?k (sp_sh s) = (sp_sh s)\<lparr>ring := ?r, sh_head := sh_head (sp_sh s) + 1\<rparr>"
    using False by (simp add: flpr_publish_def ring_full_def)
  have 3: "spsc_step ?s2 (s\<lparr>sp_sh := flpr_publish d ?k (sp_sh s), sp_sampled := ?k,
      sp_pub := sp_pub s @ [(?x, overrun (sp_sh s))]\<rparr>)"
    using spsc_step.publish [of ?s2 ?x] assms(1) unfolding pub by (cases s) simp
  show ?thesis using 1 2 3 by (meson converse_rtranclp_into_rtranclp r_into_rtranclp)
qed

theorem shared_ring_lossless_witness:
  "\<exists>s. spsc_run (spsc_boot blank_shared) s \<and> sp_out s = [zero_sample\<lparr>s_ax := 5, s_seq16 := 1\<rparr>] \<and>
     map fst (sp_pub s) = sp_out s @ shared_queue (sp_sh s)"
proof -
  let ?x = "zero_sample\<lparr>s_ax := 5, s_seq16 := 1\<rparr>" and ?s0 = "spsc_boot blank_shared"
  let ?r = "(replicate IMU_RING_N zero_sample)[0 := ?x]"
  let ?s1 = "?s0\<lparr>sp_sampled := 1, sp_prod := PFill ?x\<rparr>"
  let ?s2 = "?s0\<lparr>sp_sampled := 1, sp_sh := blank_shared\<lparr>ring := ?r\<rparr>, sp_prod := PStored ?x\<rparr>"
  let ?s3 = "?s0\<lparr>sp_sampled := 1, sp_sh := blank_shared\<lparr>ring := ?r, sh_head := 1\<rparr>, sp_pub := [(?x, 0)]\<rparr>"
  let ?s4 = "?s3\<lparr>sp_cons := CLoop 1 0\<rparr>" and ?s5 = "?s3\<lparr>sp_cons := CCopy 1 0 1 []\<rparr>"
  let ?s6 = "?s3\<lparr>sp_cons := CCopy 1 0 1 [?x]\<rparr>"
  let ?s7 = "?s3\<lparr>sp_sh := blank_shared\<lparr>ring := ?r, sh_head := 1, sh_tail := 1\<rparr>, sp_cons := CLoop 1 1, sp_out := [?x]\<rparr>"
  have idx: "shared_idx 0 = 0" by (simp add: shared_idx_def)
  have init: "sh_head blank_shared = 0" "sh_tail blank_shared = 0" "overrun blank_shared = 0"
    "length (ring blank_shared) = IMU_RING_N"
    by (simp_all add: blank_shared_def)
  have "spsc_step ?s0 ?s1"
    using spsc_step.claim [of ?s0 ?x] by (simp add: spsc_boot_def ring_full_def init)
  moreover have "spsc_step ?s1 ?s2"
    using spsc_step.store [of ?s1 ?x] by (simp add: spsc_boot_def init idx) (simp add: blank_shared_def)
  moreover have "spsc_step ?s2 ?s3"
    using spsc_step.publish [of ?s2 ?x] by (simp add: spsc_boot_def init)
  moreover have "spsc_step ?s3 ?s4" using spsc_step.latch [of ?s3] by (simp add: spsc_boot_def init)
  moreover have "spsc_step ?s4 ?s5" using spsc_step.chunk [of ?s4 1 0] by (simp add: spsc_boot_def)
  moreover have "spsc_step ?s5 ?s6" using spsc_step.copy [of ?s5 1 0 1 "[]"] by (simp add: spsc_boot_def idx)
  moreover have "spsc_step ?s6 ?s7" using spsc_step.free [of ?s6 1 0 1 "[?x]"] by (simp add: spsc_boot_def)
  ultimately have run: "spsc_run ?s0 ?s7" by (meson converse_rtranclp_into_rtranclp r_into_rtranclp)
  have "map fst (sp_pub ?s7) = sp_out ?s7 @ shared_queue (sp_sh ?s7)"
    using shared_ring_lossless [OF init run] by simp
  then show ?thesis using run by (intro exI [of _ ?s7]) simp
qed

end
