(* ===== verification/Log_Recovery.thy ===== *)
theory Log_Recovery
  imports Log_Runs "HOL-Library.Multiset"
begin

text \<open>
  What the log recovers at boot (\<open>imu_log_init\<close>), what it lists (\<open>imu_log_session_list\<close>), and where
  its 32-bit byte counter fails. Boot refines a map operation on the directory: every entry is
  closed, and the two counters become the least values above the entries.
\<close>

section \<open>Boot\<close>

definition repaired_entry :: "dir_entry \<Rightarrow> dir_entry" where
  "repaired_entry e = (if de_rec_count e = 0xFFFFFFFF then e\<lparr>de_rec_count := 0\<rparr> else e)"

definition closed_entry :: "dir_entry \<Rightarrow> dir_entry" where
  "closed_entry e = (if de_open e \<noteq> 0 then (repaired_entry e)\<lparr>de_open := 0\<rparr> else e)"

definition word_end :: "dir_entry \<Rightarrow> u32" where
  "word_end e = de_start_rec e + de_rec_count (repaired_entry e)"

lemma init_slot_dir:
  assumes "dir_dev fd img" "i < 16"
  shows "\<exists>f'. init_slot fd i st = st\<lparr>flash := f',
      total_abs := (case dir_map img (flash st) i of None \<Rightarrow> total_abs st | Some e \<Rightarrow> max (total_abs st) (word_end e)),
      seq_next := (case dir_map img (flash st) i of None \<Rightarrow> seq_next st
         | Some e \<Rightarrow> if de_seq e \<ge> seq_next st then de_seq e + 1 else seq_next st)\<rparr> \<and>
    dir_map img f' = (dir_map img (flash st))(i := map_option closed_entry (dir_map img (flash st) i)) \<and>
    same_outside img LOG_LO LOG_DATA (flash st) f'"
proof (cases "dir_map img (flash st) i")
  case None
  then show ?thesis
    by (intro exI [of _ "flash st"]) (auto simp: init_slot_def live_entry_dir [OF assms] fun_eq_iff)
next
  case (Some e)
  let ?r = "repaired_entry e"
  have magic: "de_magic e = ENTRY_MAGIC" using Some by (auto simp: dir_map_def Let_def split: if_splits)
  have r: "de_start_rec ?r = de_start_rec e" "de_seq ?r = de_seq e" "de_open ?r = de_open e"
    "de_magic ?r = ENTRY_MAGIC"
    using magic by (simp_all add: repaired_entry_def)
  have slot: "init_slot fd i st =
      (let f' = (if de_open e \<noteq> 0 then snd (entry_write fd (flash st) i (?r\<lparr>de_open := 0\<rparr>)) else flash st)
       in st\<lparr>flash := f', total_abs := max (total_abs st) (word_end e),
             seq_next := if de_seq e \<ge> seq_next st then de_seq e + 1 else seq_next st\<rparr>)"
    by (cases "de_open e = 0")
       (simp_all add: init_slot_def live_entry_dir [OF assms] Some Let_def repaired_entry_def [symmetric]
          r word_end_def max_def not_less)
  show ?thesis
  proof (cases "de_open e = 0")
    case True
    then show ?thesis
      using Some by (intro exI [of _ "flash st"]) (auto simp: slot closed_entry_def fun_eq_iff)
  next
    case False
    obtain f' where "entry_write fd (flash st) i (?r\<lparr>de_open := 0\<rparr>) = (0, f')"
      "dir_map img f' = (dir_map img (flash st))(i \<mapsto> ?r\<lparr>de_open := 0\<rparr>)"
      "same_outside img LOG_LO LOG_DATA (flash st) f'"
      using entry_write_dir [OF assms, of "flash st" "?r\<lparr>de_open := 0\<rparr>"] r(4) by auto
    then show ?thesis
      using Some False by (intro exI [of _ f']) (simp add: slot closed_entry_def)
  qed
qed

lemma closed_entry_fields [simp]:
  "de_seq (closed_entry e) = de_seq e" "de_start_rec (closed_entry e) = de_start_rec e"
  "de_open (closed_entry e) = 0"
  by (simp_all add: closed_entry_def repaired_entry_def)

text \<open>The scan over all slots.\<close>

definition above_all :: "(u32 \<Rightarrow> dir_entry option) \<Rightarrow> u32 list \<Rightarrow> u32 \<Rightarrow> u32 \<Rightarrow> bool" where
  "above_all d js t t' \<longleftrightarrow> t \<le> t' \<and> (\<forall>i e. i \<in> set js \<and> d i = Some e \<longrightarrow> word_end e \<le> t') \<and>
     (t' = t \<or> (\<exists>i e. i \<in> set js \<and> d i = Some e \<and> t' = word_end e))"

definition seqs_below :: "(u32 \<Rightarrow> dir_entry option) \<Rightarrow> u32 list \<Rightarrow> u32 \<Rightarrow> u32 \<Rightarrow> bool" where
  "seqs_below d js q q' \<longleftrightarrow> q \<le> q' \<and> (\<forall>i e. i \<in> set js \<and> d i = Some e \<longrightarrow> de_seq e < q')"

lemma word_succ_le:
  fixes q s b :: u32
  assumes "s < b" "q \<le> b"
  shows "(if q \<le> s then s + 1 else q) \<le> b \<and> q \<le> (if q \<le> s then s + 1 else q) \<and>
    s < (if q \<le> s then s + 1 else q)"
proof -
  have "unat (s + 1) = unat s + 1"
    using assms(1) unat_bound [of b] by (subst unat_add_nowrap) (simp_all add: word_less_nat_alt)
  then show ?thesis using assms by (auto simp: word_less_nat_alt word_le_nat_alt)
qed

lemma above_all_Cons:
  assumes "t \<le> t1" "\<forall>e. d i = Some e \<longrightarrow> word_end e \<le> t1"
    "t1 = t \<or> (\<exists>e. d i = Some e \<and> t1 = word_end e)" "\<forall>j \<in> set js. d j = d' j" "above_all d' js t1 t2"
  shows "above_all d (i # js) t t2"
proof -
  have le: "t1 \<le> t2" using assms(5) by (simp add: above_all_def)
  have "word_end e \<le> t2" if "j \<in> set (i # js)" "d j = Some e" for j e
  proof (cases "j \<in> set js")
    case True
    then show ?thesis using that(2) assms(4,5) by (auto simp: above_all_def)
  next
    case False
    then have "word_end e \<le> t1" using that assms(2) by simp
    then show ?thesis using le by simp
  qed
  moreover have "t2 = t \<or> (\<exists>j e. j \<in> set (i # js) \<and> d j = Some e \<and> t2 = word_end e)"
  proof (cases "t2 = t1")
    case True
    then show ?thesis using assms(3) by auto
  next
    case False
    then obtain j e where "j \<in> set js" "d' j = Some e" "t2 = word_end e"
      using assms(5) by (auto simp: above_all_def)
    then show ?thesis using assms(4) by auto
  qed
  ultimately show ?thesis using le assms(1) by (auto simp: above_all_def)
qed

lemma seqs_below_Cons:
  assumes "q \<le> q1" "\<forall>e. d i = Some e \<longrightarrow> de_seq e < q1" "\<forall>j \<in> set js. d j = d' j" "seqs_below d' js q1 q2"
  shows "seqs_below d (i # js) q q2"
proof -
  have le: "q1 \<le> q2" using assms(4) by (simp add: seqs_below_def)
  have "de_seq e < q2" if "j \<in> set (i # js)" "d j = Some e" for j e
  proof (cases "j \<in> set js")
    case True
    then show ?thesis using that(2) assms(3,4) by (auto simp: seqs_below_def)
  next
    case False
    then have "de_seq e < q1" using that assms(2) by simp
    then show ?thesis using le by simp
  qed
  then show ?thesis using le assms(1) by (auto simp: seqs_below_def)
qed

lemma init_fold_dir:
  assumes dev: "dir_dev fd img" and "\<forall>i \<in> set js. i < 16" "distinct js"
    and "\<forall>i e. dir_map img (flash st) i = Some e \<longrightarrow> de_seq e < b" "seq_next st \<le> b"
  shows "\<exists>f' t q. fold (init_slot fd) js st = st\<lparr>flash := f', total_abs := t, seq_next := q\<rparr> \<and>
    dir_map img f' = (\<lambda>i. if i \<in> set js then map_option closed_entry (dir_map img (flash st) i)
      else dir_map img (flash st) i) \<and>
    above_all (dir_map img (flash st)) js (total_abs st) t \<and>
    seqs_below (dir_map img (flash st)) js (seq_next st) q \<and> q \<le> b \<and>
    same_outside img LOG_LO LOG_DATA (flash st) f'"
  using assms(2-5)
proof (induction js arbitrary: st)
  case Nil
  then show ?case
    by (intro exI [of _ "flash st"] exI [of _ "total_abs st"] exI [of _ "seq_next st"])
       (simp add: above_all_def seqs_below_def)
next
  case (Cons i js)
  let ?d = "dir_map img (flash st)"
  define t1 q1 where "t1 = (case ?d i of None \<Rightarrow> total_abs st | Some e \<Rightarrow> max (total_abs st) (word_end e))"
    and "q1 = (case ?d i of None \<Rightarrow> seq_next st | Some e \<Rightarrow> if de_seq e \<ge> seq_next st then de_seq e + 1 else seq_next st)"
  obtain f1 where 1: "init_slot fd i st = st\<lparr>flash := f1, total_abs := t1, seq_next := q1\<rparr>"
    "dir_map img f1 = ?d(i := map_option closed_entry (?d i))" "same_outside img LOG_LO LOG_DATA (flash st) f1"
    using init_slot_dir [OF dev, of i st] Cons.prems(1) unfolding t1_def q1_def by auto
  let ?s1 = "st\<lparr>flash := f1, total_abs := t1, seq_next := q1\<rparr>"
  have t1: "total_abs st \<le> t1" "\<forall>e. ?d i = Some e \<longrightarrow> word_end e \<le> t1"
    "t1 = total_abs st \<or> (\<exists>e. ?d i = Some e \<and> t1 = word_end e)"
    by (auto simp: t1_def max_def split: option.splits)
  have q1: "q1 \<le> b" "seq_next st \<le> q1" "\<forall>e. ?d i = Some e \<longrightarrow> de_seq e < q1"
    using Cons.prems(3,4) word_succ_le [of _ b "seq_next st"] by (auto simp: q1_def split: option.splits)
  have keep: "\<forall>j \<in> set js. ?d j = dir_map img f1 j"
    using Cons.prems(2) unfolding 1(2) by auto
  have s1: "flash ?s1 = f1" "total_abs ?s1 = t1" "seq_next ?s1 = q1" by simp_all
  have b1: "\<forall>j e. dir_map img (flash ?s1) j = Some e \<longrightarrow> de_seq e < b"
  proof (intro allI impI)
    fix j x assume "dir_map img (flash ?s1) j = Some x"
    then have "\<exists>y. ?d j = Some y \<and> de_seq x = de_seq y"
      using 1(2) closed_entry_fields by (cases "j = i") auto
    then show "de_seq x < b" using Cons.prems(3) by auto
  qed
  obtain f2 t2 q2 where 2: "fold (init_slot fd) js ?s1 = ?s1\<lparr>flash := f2, total_abs := t2, seq_next := q2\<rparr>"
    "dir_map img f2 = (\<lambda>j. if j \<in> set js then map_option closed_entry (dir_map img f1 j) else dir_map img f1 j)"
    "above_all (dir_map img f1) js t1 t2" "seqs_below (dir_map img f1) js q1 q2" "q2 \<le> b"
    "same_outside img LOG_LO LOG_DATA f1 f2"
    using Cons.IH [of ?s1, OF _ _ b1, unfolded s1] Cons.prems(1,2) q1(1) by simp blast
  have "dir_map img f2 = (\<lambda>j. if j \<in> set (i # js) then map_option closed_entry (?d j) else ?d j)"
    unfolding 2(2) 1(2) using Cons.prems(2) by (auto simp: fun_eq_iff)
  moreover have "above_all ?d (i # js) (total_abs st) t2"
    by (rule above_all_Cons [OF t1(1,2,3) keep 2(3)])
  moreover have "seqs_below ?d (i # js) (seq_next st) q2"
    by (rule seqs_below_Cons [OF q1(2,3) keep 2(4)])
  ultimately show ?case
    using 1(1) 2(1,5) same_outside_trans [OF 1(3) 2(6)] by auto
qed

text \<open>Records of the running session that its directory entry does not count yet.\<close>

definition unrecorded :: "'f log_st \<Rightarrow> nat" where
  "unrecorded st = (if active st then unat (cur_count st - last_dir_refresh st) else 0)"

lemma unrecorded_bound: "dir_ok img st \<Longrightarrow> unrecorded st < 512"
  by (auto simp: unrecorded_def dir_ok_def session_ok_def word_less_nat_alt)

lemma small_entry_word_end:
  assumes "entry_end e < 2 ^ 28"
  shows "repaired_entry e = e \<and> unat (word_end e) = entry_end e"
proof -
  have "unat (de_rec_count e) < 2 ^ 28" using assms by (simp add: entry_end_def)
  then have "de_rec_count e \<noteq> 0xFFFFFFFF" by auto
  then have "repaired_entry e = e" by (simp add: repaired_entry_def)
  then show ?thesis
    using assms by (simp add: word_end_def entry_end_def unat_add_nowrap)
qed

text \<open>Where the recorded sessions end, against the history.\<close>

lemma recorded_ends:
  assumes "dir_ok img st"
  shows "dir_map img (flash st) i = Some e \<Longrightarrow> entry_end e + unrecorded st \<le> unat (total_abs st)"
    "total_abs st = 0 \<or> (\<exists>i e. dir_map img (flash st) i = Some e \<and> entry_end e + unrecorded st = unat (total_abs st))"
proof -
  let ?d = "dir_map img (flash st)"
  have ok: "dir_entries_ok ?d st" "session_ok ?d st" "dir_covers ?d st" using assms by (simp_all add: dir_ok_def)
  show "entry_end e + unrecorded st \<le> unat (total_abs st)" if e: "?d i = Some e"
  proof (cases "active st")
    case True
    then have s: "unat (cur_start st) + unat (cur_count st) = unat (total_abs st)"
      "last_dir_refresh st \<le> cur_count st" "i \<noteq> cur_slot st \<Longrightarrow> entry_end e \<le> unat (cur_start st)"
      and c: "\<exists>c. ?d (cur_slot st) = Some c \<and> de_start_rec c = cur_start st \<and> de_rec_count c = last_dir_refresh st"
      using ok(2) e unfolding session_ok_def by blast+
    have u: "unrecorded st + unat (last_dir_refresh st) = unat (cur_count st)"
      using True s(2) by (simp add: unrecorded_def unat_sub word_le_nat_alt)
    show ?thesis
    proof (cases "i = cur_slot st")
      case True
      then have "entry_end e = unat (cur_start st) + unat (last_dir_refresh st)"
        using c e by (auto simp: entry_end_def)
      then show ?thesis using s(1) u by linarith
    next
      case False
      then show ?thesis using s u by linarith
    qed
  next
    case False
    then show ?thesis using ok(1) e unfolding unrecorded_def dir_entries_ok_def by auto
  qed
  show "total_abs st = 0 \<or> (\<exists>i e. ?d i = Some e \<and> entry_end e + unrecorded st = unat (total_abs st))"
    using ok(3) unfolding dir_covers_def unrecorded_def by metis
qed

text \<open>What the scan rebuilds from a directory whose entries are small enough for the counters.\<close>

lemma rebuilt_total:
  assumes ok: "dir_ok img st" and small: "unat (total_abs st) < 2 ^ 28"
    and scan: "above_all (dir_map img (flash st)) slots 0 t"
  shows "unat t = unat (total_abs st) - unrecorded st"
proof (rule antisym)
  let ?d = "dir_map img (flash st)"
  note ends = recorded_ends [OF ok]
  have w: "unat (word_end e) = entry_end e" if "?d i = Some e" for i e
    using ends(1) [OF that] small by (intro small_entry_word_end [THEN conjunct2]) linarith
  show "unat t \<le> unat (total_abs st) - unrecorded st"
    using scan w ends(1) unfolding above_all_def by fastforce
  show "unat (total_abs st) - unrecorded st \<le> unat t"
    using ends(2)
  proof
    assume "\<exists>i e. ?d i = Some e \<and> entry_end e + unrecorded st = unat (total_abs st)"
    then obtain i e where e: "?d i = Some e" "entry_end e + unrecorded st = unat (total_abs st)" by blast
    have "i \<in> set slots" using e(1) slots_less dir_map_outside by (metis option.distinct(1))
    then have "unat (word_end e) \<le> unat t"
      using scan e(1) unfolding above_all_def word_le_nat_alt by blast
    then show ?thesis using e w by simp
  qed simp
qed

lemma rebuilt_dir:
  assumes ok: "dir_ok img st" and small: "unat (total_abs st) < 2 ^ 28"
    and scan: "above_all (dir_map img (flash st)) slots 0 (total_abs st')"
    and seqs: "seqs_below (dir_map img (flash st)) slots 1 (seq_next st')"
    and closed: "dir_map img (flash st') = (\<lambda>i. map_option closed_entry (dir_map img (flash st) i))"
    and idle: "\<not> active st'" "cur_slot st' = 0"
  shows "dir_ok img st'"
proof -
  let ?d = "dir_map img (flash st)" and ?d' = "dir_map img (flash st')"
  note ends = recorded_ends(1) [OF ok]
  have w: "unat (word_end e) = entry_end e" "closed_entry e = e\<lparr>de_open := 0\<rparr>" if "?d i = Some e" for i e
    using small_entry_word_end [of e] ends [OF that] small by (cases "de_open e = 0"; simp add: closed_entry_def)+
  have slot: "i \<in> set slots" if "?d i = Some e" for i e
    using that slots_less dir_map_outside by (metis option.distinct(1))
  have "dir_entries_ok ?d' st'"
    unfolding dir_entries_ok_def
  proof (intro allI impI)
    fix i x assume "?d' i = Some x"
    then obtain e where e: "?d i = Some e" "x = e\<lparr>de_open := 0\<rparr>" unfolding closed using w(2) by auto
    have "i = (de_seq e - 1) mod 16" using ok e(1) unfolding dir_ok_def dir_entries_ok_def by metis
    moreover have "de_seq e < seq_next st'" using seqs slot [OF e(1)] e(1) unfolding seqs_below_def by blast
    moreover have "entry_end e \<le> unat (total_abs st')"
      using rebuilt_total [OF ok small scan] ends [OF e(1)] by linarith
    ultimately show "i = (de_seq x - 1) mod 16 \<and> de_seq x < seq_next st' \<and> entry_end x \<le> unat (total_abs st') \<and>
        (\<not> running st' i \<longrightarrow> de_open x = 0)"
      by (simp add: e(2) entry_end_def)
  qed
  moreover have "dir_covers ?d' st'"
  proof (cases "total_abs st' = 0")
    case False
    then obtain i e where e: "?d i = Some e" "total_abs st' = word_end e"
      using scan unfolding above_all_def by blast
    have "?d' i = Some (e\<lparr>de_open := 0\<rparr>)" using e(1) w(2) unfolding closed by auto
    moreover have "unat (total_abs st') = entry_end (e\<lparr>de_open := 0\<rparr>)" using e w(1) by (simp add: entry_end_def)
    ultimately show ?thesis using idle unfolding dir_covers_def by auto
  qed (simp add: dir_covers_def)
  ultimately show ?thesis using idle by (simp add: dir_ok_def session_ok_def)
qed


lemma trusted_started:
  fixes v cfg wall
  defines "f \<equiv> dir_wipe_and_stamp ram_flash v (\<lambda>_. 0)"
  shows "dir_trusted ram_flash v (flash (snd (imu_log_start ram_flash cfg wall (log_boot f)))) \<and>
    log_inv (\<lambda>m. m) (snd (imu_log_start ram_flash cfg wall (log_boot f))) []"
proof -
  have wiped: "dir_map (\<lambda>m. m) f = Map.empty" "dir_trusted ram_flash v f"
    unfolding f_def using wipe_dir [OF ram_flash_dir_dev] by blast+
  let ?b = "log_boot f"
  have b: "seq_next ?b = 1" "total_abs ?b = 0" "\<not> active ?b" "flash ?b = f" by (simp_all add: log_boot_def)
  let ?e = "start_entry cfg wall 1 0"
  have fl: "flash (snd (imu_log_start ram_flash cfg wall ?b)) = snd (entry_write ram_flash f 0 ?e)"
    using b by (simp add: imu_log_start_def Let_def split_beta)
  have "entry_write ram_flash f 0 ?e = (0, ram_patch f 0xBA020 (enc_entry ?e))"
    using entry_addr_range(1) [of 0] by (simp add: entry_write_def ram_flash_def)
  moreover have "fd_read ram_flash (ram_patch f 0xBA020 (enc_entry ?e)) 0xBA000 32 = fd_read ram_flash f 0xBA000 32"
    by (simp add: ram_flash_def ram_patch_def)
  ultimately have "dir_trusted ram_flash v (flash (snd (imu_log_start ram_flash cfg wall ?b)))"
    using wiped(2) by (simp add: fl dir_trusted_def)
  moreover have "unat (seq_next ?b) + 1 < 2 ^ 32" using b by simp
  ultimately show ?thesis
    using start_inv [OF ram_flash_dir_dev log_boot_inv [OF wiped(1)]] by blast
qed


section \<open>Listing\<close>

abbreviation newest_first :: "imu_log_session list \<Rightarrow> bool" where
  "newest_first \<equiv> sorted_wrt (\<lambda>a b. ls_seq b \<le> ls_seq a)"

lemma sift_left_swap:
  assumes "Suc j < length xs"
  shows "take j (xs[Suc j := xs ! j, j := xs ! Suc j]) = take j xs"
    "take (Suc j) (xs[Suc j := xs ! j, j := xs ! Suc j]) = take j xs @ [xs ! Suc j]"
    "drop (Suc j) (xs[Suc j := xs ! j, j := xs ! Suc j]) = xs ! j # drop (Suc (Suc j)) xs"
    "mset (xs[Suc j := xs ! j, j := xs ! Suc j]) = mset xs"
proof -
  show "take j (xs[Suc j := xs ! j, j := xs ! Suc j]) = take j xs" by simp
  show "take (Suc j) (xs[Suc j := xs ! j, j := xs ! Suc j]) = take j xs @ [xs ! Suc j]"
    using assms by (simp add: take_Suc_conv_app_nth)
  show "drop (Suc j) (xs[Suc j := xs ! j, j := xs ! Suc j]) = xs ! j # drop (Suc (Suc j)) xs"
    using assms by (simp add: drop_update_swap Cons_nth_drop_Suc [symmetric])
  show "mset (xs[Suc j := xs ! j, j := xs ! Suc j]) = mset xs"
    using assms mset_swap [of j xs "Suc j"] by simp
qed

lemma sift_left_sorts:
  assumes "j < length xs" "newest_first (take j xs)"
  shows "mset (sift_left xs j) = mset xs \<and> length (sift_left xs j) = length xs \<and>
    drop (Suc j) (sift_left xs j) = drop (Suc j) xs \<and> newest_first (take (Suc j) (sift_left xs j))"
  using assms
proof (induction xs j rule: sift_left.induct)
  case (1 xs)
  then show ?case by (cases xs) simp_all
next
  case (2 xs j)
  have pre: "newest_first (take j xs @ [xs ! j])"
    using 2(2,3) by (simp add: take_Suc_conv_app_nth)
  show ?case
  proof (cases "ls_seq (xs ! Suc j) > ls_seq (xs ! j)")
    case False
    then have "\<forall>x \<in> set (take j xs @ [xs ! j]). ls_seq (xs ! Suc j) \<le> ls_seq x"
      using pre by (auto simp: sorted_wrt_append intro: order_trans)
    then have "newest_first ((take j xs @ [xs ! j]) @ [xs ! Suc j])"
      using pre by (simp only: sorted_wrt_append) simp
    moreover have "take (Suc (Suc j)) xs = (take j xs @ [xs ! j]) @ [xs ! Suc j]"
      using 2(2) by (simp add: take_Suc_conv_app_nth)
    ultimately show ?thesis using False by simp
  next
    case True
    let ?ys = "xs[Suc j := xs ! j, j := xs ! Suc j]" and ?zs = "sift_left (xs[Suc j := xs ! j, j := xs ! Suc j]) j"
    note swap = sift_left_swap [OF 2(2)]
    have "newest_first (take j ?ys)" unfolding swap(1) using pre by (simp add: sorted_wrt_append)
    then have ih: "mset ?zs = mset ?ys" "length ?zs = length ?ys" "drop (Suc j) ?zs = drop (Suc j) ?ys"
      "newest_first (take (Suc j) ?zs)"
      using 2(1) [OF True] 2(2) by simp_all
    have "mset (take (Suc j) ?zs) + mset (drop (Suc j) ?zs) = mset (take (Suc j) ?ys) + mset (drop (Suc j) ?ys)"
      using ih(1) by (metis append_take_drop_id mset_append)
    then have "mset (take (Suc j) ?zs) = mset (take j xs @ [xs ! Suc j])"
      unfolding ih(3) swap(2) by simp
    then have "set (take (Suc j) ?zs) = set (take j xs @ [xs ! Suc j])" by (metis set_mset_mset)
    then have "\<forall>x \<in> set (take (Suc j) ?zs). ls_seq (xs ! j) \<le> ls_seq x"
      using pre True by (auto simp: sorted_wrt_append)
    moreover have dz: "drop (Suc j) ?zs = xs ! j # drop (Suc (Suc j)) xs" unfolding ih(3) by (rule swap(3))
    moreover have "take (Suc (Suc j)) ?zs = take (Suc j) ?zs @ [xs ! j]"
      using dz by (metis append.simps(1) append_Cons drop0 take_Suc_Cons take_add take_0 plus_1_eq_Suc add.commute)
    ultimately have "newest_first (take (Suc (Suc j)) ?zs)"
      using ih(4) by (simp add: sorted_wrt_append)
    moreover have "drop (Suc (Suc j)) ?zs = drop (Suc (Suc j)) xs"
      using dz by (metis drop_Suc_Cons drop0 drop_drop add_Suc_right add_0_right add.commute add_Suc plus_1_eq_Suc)
    ultimately show ?thesis using True ih(1,2) swap(4) by simp
  qed
qed

lemma sort_newest_sorts: "newest_first (sort_newest xs) \<and> mset (sort_newest xs) = mset xs"
proof -
  have step: "newest_first (take (Suc n) (fold (\<lambda>i ys. sift_left ys i) [1..<Suc n] xs)) \<and>
      mset (fold (\<lambda>i ys. sift_left ys i) [1..<Suc n] xs) = mset xs \<and>
      length (fold (\<lambda>i ys. sift_left ys i) [1..<Suc n] xs) = length xs" if "Suc n \<le> length xs" for n
    using that
  proof (induction n)
    case 0
    then show ?case by (cases xs) simp_all
  next
    case (Suc n)
    let ?ys = "fold (\<lambda>i ys. sift_left ys i) [1..<Suc n] xs"
    have "newest_first (take (Suc n) ?ys)" "mset ?ys = mset xs" "length ?ys = length xs"
      using Suc by simp_all
    then show ?case using sift_left_sorts [of "Suc n" ?ys] Suc.prems by simp
  qed
  show ?thesis
  proof (cases "length xs")
    case 0
    then show ?thesis by (simp add: sort_newest_def)
  next
    case (Suc n)
    define Y where "Y = fold (\<lambda>i ys. sift_left ys i) [1..<Suc n] xs"
    have S: "Suc n \<le> length xs" using Suc by simp
    have T: "take (Suc n) Y = Y" using step [OF S, folded Y_def] Suc by simp
    have "sort_newest xs = Y" by (simp only: Y_def sort_newest_def Suc)
    then show ?thesis using step [OF S, folded Y_def] unfolding T by simp
  qed
qed

lemma length_listed: "length (List.map_filter (session_of_slot fd st) slots) \<le> 16"
proof -
  have "length slots = 16" by (simp add: slots_def)
  then show ?thesis by (simp add: List.map_filter_def) (metis length_filter_le)
qed

text \<open>C28: The session list is complete and newest first: with room for 16 it is a rearrangement of
  the surviving sessions of all slots in falling order of their numbers, and with less room a prefix
  of that.\<close>

theorem session_list_newest_first:
  "newest_first (imu_log_session_list fd 16 st) \<and>
   mset (imu_log_session_list fd 16 st) = mset (List.map_filter (session_of_slot fd st) slots) \<and>
   imu_log_session_list fd mx st = take mx (imu_log_session_list fd 16 st)"
proof -
  let ?xs = "List.map_filter (session_of_slot fd st) slots"
  have "length (sort_newest ?xs) \<le> 16"
    using sort_newest_sorts [of ?xs] length_listed [of fd st] by (metis size_mset)
  then show ?thesis
    using sort_newest_sorts [of ?xs] by (simp add: imu_log_session_list_def)
qed

text \<open>A found session ends within the history.\<close>

lemma found_entry_ends:
  assumes inv: "log_inv img st hist" and e: "dir_map img (flash st) i = Some e"
  shows "unat (de_start_rec (if running st i then e\<lparr>de_rec_count := cur_count st\<rparr> else e)) +
    unat (de_rec_count (if running st i then e\<lparr>de_rec_count := cur_count st\<rparr> else e)) \<le> length hist"
proof (cases "running st i")
  case True
  then obtain x where "dir_map img (flash st) i = Some x" "de_start_rec x = cur_start st"
    "unat (cur_start st) + unat (cur_count st) = length hist"
    using log_invD(3,5) [OF inv] by (auto simp: dir_ok_def session_ok_def running_def)
  then show ?thesis using e True by simp
next
  case False
  then show ?thesis
    using log_invD(3,5) [OF inv] e unfolding dir_ok_def dir_entries_ok_def entry_end_def by auto
qed

lemma find_sessionD:
  assumes dev: "dir_dev fd img" and f: "find_session fd st sq = Some e'"
  shows "\<exists>i e. dir_map img (flash st) i = Some e \<and> e' = (if running st i then e\<lparr>de_rec_count := cur_count st\<rparr> else e)"
proof -
  let ?P = "\<lambda>i. case live_entry fd (flash st) i of None \<Rightarrow> False | Some e \<Rightarrow> de_seq e = sq"
  obtain i where i: "find ?P slots = Some i"
    "map_option (\<lambda>e. if active st \<and> i = cur_slot st then e\<lparr>de_rec_count := cur_count st\<rparr> else e)
       (live_entry fd (flash st) i) = Some e'"
    using f by (auto simp: find_session_def split: option.splits)
  then have "i \<in> set slots" by (auto simp: find_Some_iff)
  then have "i < 16" by (simp add: slots_less)
  from i(2) obtain e where "dir_map img (flash st) i = Some e"
    "e' = (if running st i then e\<lparr>de_rec_count := cur_count st\<rparr> else e)"
    unfolding running_def live_entry_dir [OF dev \<open>i < 16\<close>] by (elim map_option_eq_Some [THEN iffD1, THEN exE]) simp
  then show ?thesis by blast
qed

text \<open>What a listed session is in the directory and in the history.\<close>

lemma listed_entry:
  assumes dev: "dir_dev fd img" and inv: "log_inv img st hist" and small: "length hist < 2 ^ 28"
    and s: "s \<in> set (imu_log_session_list fd mx st)"
  shows "\<exists>e. find_session fd st (ls_seq s) = Some e \<and>
    unat (de_start_rec e) + unat (de_rec_count e) \<le> length hist \<and>
    unat (ls_rec_count s) =
      unat (de_start_rec e) + unat (de_rec_count e) - max (unat (de_start_rec e)) (length hist - CAP)"
proof -
  note parts = log_invD [OF inv]
  have "s \<in> set (sort_newest (List.map_filter (session_of_slot fd st) slots))"
    using s unfolding imu_log_session_list_def by (rule in_set_takeD)
  then have "s \<in> set (List.map_filter (session_of_slot fd st) slots)"
    using sort_newest_sorts by (metis set_mset_mset)
  then obtain i where i: "i < 16" "session_of_slot fd st i = Some s"
    by (auto simp: List.map_filter_def slots_less)
  then obtain e where e: "dir_map img (flash st) i = Some e"
    by (auto simp: session_of_slot_def live_entry_dir [OF dev] split: option.splits)
  define e' where "e' = (if running st i then e\<lparr>de_rec_count := cur_count st\<rparr> else e)"
  have ent: "dir_entries_ok (dir_map img (flash st)) st" using parts(3) by (simp add: dir_ok_def)
  have found: "find_session fd st (de_seq e) = Some e'"
    using find_session_dir [OF dev ent e] by (simp add: e'_def)
  have ends: "unat (de_start_rec e') + unat (de_rec_count e') \<le> length hist"
    unfolding e'_def by (rule found_entry_ends [OF inv e])
  define fl where "fl = ring_floor st"
  have fl: "unat fl = length hist - CAP" unfolding fl_def by (rule ring_floor_unat [OF parts(5)])
  define en where "en = de_start_rec e' + de_rec_count e'"
  have en: "unat en = unat (de_start_rec e') + unat (de_rec_count e')"
    using ends small by (simp add: en_def unat_add_nowrap)
  have ls: "\<not> en \<le> fl" "ls_seq s = de_seq e"
    "ls_rec_count s = en - (if de_start_rec e' < fl then fl else de_start_rec e')"
    using i(2) e
    by (auto simp: session_of_slot_def live_entry_dir [OF dev i(1)] Let_def running_def e'_def en_def fl_def
        split: if_splits)
  have "unat (ls_rec_count s) =
      unat (de_start_rec e') + unat (de_rec_count e') - max (unat (de_start_rec e')) (length hist - CAP)"
    using ls(1,3) fl en by (auto simp: unat_sub word_le_nat_alt word_less_nat_alt max_def)
  then show ?thesis using found ends by (intro exI [of _ e']) (simp add: ls(2))
qed

text \<open>C27: The list and the reader agree. For every listed session, whether closed, running or already
  clipped by the ring, a read returns exactly the bytes up to 16 times the advertised record count:
  no listed record is unreadable and none beyond the count is served.\<close>

theorem listed_session_readable:
  fixes off len :: u32
  assumes dev: "dir_dev fd img" and inv: "log_inv img st hist" and small: "length hist < 2 ^ 28"
    and s: "s \<in> set (imu_log_session_list fd mx st)"
  shows "fst (imu_log_read_session fd st (ls_seq s) off len) =
    int (min (unat len) (16 * unat (ls_rec_count s) - unat off))"
proof -
  obtain e where e: "find_session fd st (ls_seq s) = Some e" "unat (de_start_rec e) + unat (de_rec_count e) \<le> length hist"
    "unat (ls_rec_count s) = unat (de_start_rec e) + unat (de_rec_count e) - max (unat (de_start_rec e)) (length hist - CAP)"
    using listed_entry [OF assms] by blast
  let ?w = "window_bytes hist (max (unat (de_start_rec e)) (length hist - CAP))
      (unat (de_start_rec e) + unat (de_rec_count e))"
  have "length ?w = 16 * unat (ls_rec_count s)"
    using e by (simp add: length_window_bytes)
  then have "length (take (unat len) (drop (unat off) ?w)) = min (unat len) (16 * unat (ls_rec_count s) - unat off)"
    by (simp add: min.commute)
  moreover have "imu_log_read_session fd st (ls_seq s) off len =
      (int (length (take (unat len) (drop (unat off) ?w))), take (unat len) (drop (unat off) ?w))"
    using small by (intro read_session_bytes [OF dir_devD(1,2) [OF dev] log_invD(1) [OF inv] e(1,2)]) simp
  ultimately show ?thesis by (simp only: fst_conv)
qed

definition short_drained :: "(nat \<Rightarrow> u8) log_st" where
  "short_drained = fst (log_run ram_flash [LAppend [zero_sample], LDrain 0] (short_started settings_boot 5))"

lemma short_drained_facts:
  "log_inv (\<lambda>m. m) short_drained [zero_sample] \<and> active short_drained \<and> cur_slot short_drained = 0 \<and>
   cur_seq short_drained = 1 \<and> cur_start short_drained = 0"
proof -
  let ?s1 = "short_started settings_boot 5" and ?evs = "[LAppend [zero_sample], LDrain 0]"
  note short = short_session [of zero_sample settings_boot 5]
  have inv1: "log_inv (\<lambda>m. m) (fst ?s1) []" and act1: "active (fst ?s1)"
    using short_start [of settings_boot 5] by simp_all
  have st: "staged (fst ?s1) = []"
    using short_start [of settings_boot 5] by (simp add: staged_def ring_contents_def)
  have "same_session (fst ?s1) short_drained" "log_hists ram_flash ?evs ?s1 [] = [zero_sample]"
    using session_run [OF ram_flash_dir_dev inv1 short [THEN conjunct1] _ act1] st short
    unfolding short_drained_def by simp_all
  moreover have "log_inv (\<lambda>m. m) short_drained (log_hists ram_flash ?evs ?s1 [])"
    unfolding short_drained_def by (rule log_run_keeps_inv [OF ram_flash_dir_dev inv1 short [THEN conjunct1]])
  moreover have "cur_start (fst ?s1) = 0"
    using log_invD(3,5) [OF inv1] act1 by (auto simp: dir_ok_def session_ok_def unat_eq_0)
  ultimately show ?thesis using short_start [of settings_boot 5] by (simp add: same_session_def)
qed

lemma short_listed: "\<exists>s \<in> set (imu_log_session_list ram_flash 16 short_drained). ls_rec_count s = 1"
proof -
  note facts = short_drained_facts
  obtain e where e: "dir_map (\<lambda>m. m) (flash short_drained) 0 = Some e" "de_start_rec e = 0"
    "unat (cur_count short_drained) = 1" "unat (total_abs short_drained) = 1"
    using facts log_invD(3,5) [of "\<lambda>m. m" short_drained "[zero_sample]"]
    by (auto simp: dir_ok_def session_ok_def)
  have cnt: "cur_count short_drained = 1" using e(3) by (simp add: word_unat_eq_iff)
  have fl: "unat (ring_floor short_drained) = 0" using ring_floor_unat [OF e(4)] by simp
  then have fl: "ring_floor short_drained = 0" by (simp add: unat_eq_0)
  obtain s where s: "session_of_slot ram_flash short_drained 0 = Some s" "ls_rec_count s = 1"
    using e facts cnt fl by (simp add: session_of_slot_def live_entry_dir [OF ram_flash_dir_dev] Let_def)
  have "s \<in> set (List.map_filter (session_of_slot ram_flash short_drained) slots)"
    using s(1) slots_less [of 0] by (force simp: List.map_filter_def image_iff)
  then have "s \<in> set (imu_log_session_list ram_flash 16 short_drained)"
    using sort_newest_sorts length_listed [of ram_flash short_drained]
    by (metis imu_log_session_list_def set_mset_mset size_mset take_all)
  then show ?thesis using s(2) by blast
qed

theorem listed_session_readable_witness:
  "\<exists>s \<in> set (imu_log_session_list ram_flash 16 short_drained).
     fst (imu_log_read_session ram_flash short_drained (ls_seq s) 4 100) = 12"
proof -
  obtain s where "s \<in> set (imu_log_session_list ram_flash 16 short_drained)" "ls_rec_count s = 1"
    using short_listed by blast
  then show ?thesis
    using listed_session_readable [OF ram_flash_dir_dev, of short_drained "[zero_sample]" s 16,
        where off = 4 and len = 100] short_drained_facts
    by auto
qed

section \<open>Past the 32-bit byte counter\<close>

text \<open>A log whose record counter has reached \<open>2 ^ 28\<close>, and a one-sample session on it.\<close>

definition far_log :: "(nat \<Rightarrow> u8) log_st" where
  "far_log = (log_boot (\<lambda>_. 0))\<lparr>total_abs := 2 ^ 28\<rparr>"

definition far_written :: "imu_sample \<Rightarrow> (nat \<Rightarrow> u8) log_st" where
  "far_written x = drain_write ram_flash
     (imu_log_append [x] (snd (imu_log_start ram_flash settings_boot 0 far_log)))"

lemma far_written_state:
  "\<exists>f1 f2 sg. far_written x = (log_boot f2)\<lparr>total_abs := 2 ^ 28 + 1, cur_seq := 1, seq_next := 2, cur_slot := 0,
       cur_start := 2 ^ 28, cur_count := 1, stage := sg, stage_head := 1, stage_tail := 1, active := True\<rparr> \<and>
     dir_map (\<lambda>m. m) f1 = [0 \<mapsto> start_entry settings_boot 0 1 (2 ^ 28)] \<and>
     same_outside (\<lambda>m. m) LOG_LO LOG_DATA (\<lambda>_. 0) f1 \<and>
     f2 = ram_patch f1 (LOG_DATA + 16 * 2284) (enc_sample x)"
proof -
  have far: "\<not> active far_log" "seq_next far_log = 1" "total_abs far_log = 2 ^ 28" "flash far_log = (\<lambda>_. 0)"
    by (simp_all add: far_log_def log_boot_def)
  obtain f1 where f1: "snd (imu_log_start ram_flash settings_boot 0 far_log) = far_log\<lparr>cur_seq := 1, seq_next := 2,
       cur_slot := 0, cur_start := 2 ^ 28, cur_count := 0, last_dir_refresh := 0,
       stage_tail := stage_head far_log, log_dropped := 0, flash := f1, active := True\<rparr>"
    "dir_map (\<lambda>m. m) f1 = [0 \<mapsto> start_entry settings_boot 0 1 (2 ^ 28)]"
    "same_outside (\<lambda>m. m) LOG_LO LOG_DATA (\<lambda>_. 0) f1"
    using start_dir [OF ram_flash_dir_dev far(1), of settings_boot 0] far(2-4) empty_dir by auto
  let ?st = "imu_log_append [x] (snd (imu_log_start ram_flash settings_boot 0 far_log))"
  have st: "?st = (log_boot f1)\<lparr>total_abs := 2 ^ 28, cur_seq := 1, seq_next := 2, cur_slot := 0,
       cur_start := 2 ^ 28, stage := (replicate STAGE_N zero_sample)[0 := x], stage_head := 1, active := True\<rparr>"
    unfolding f1(1) by (simp add: far_log_def log_boot_def imu_log_append_def append_one_def stage_idx_def)
  have cnt: "drain_count ?st = 1"
    unfolding st by (simp add: drain_count_def log_boot_def)
  have batch: "drain_batch ?st = [x]"
    unfolding drain_batch_def cnt unfolding st by (simp add: log_boot_def stage_idx_def)
  have pos: "unat (DATA_BASE + (total_abs ?st mod REC_CAPACITY) * REC_SIZE) = LOG_DATA + 16 * 2284"
    unfolding write_pos unfolding st by (simp add: log_boot_def)
  have "snd (phys_write ram_flash f1 ((total_abs ?st mod REC_CAPACITY) * REC_SIZE) (enc_sample x)) =
      ram_patch f1 (LOG_DATA + 16 * 2284) (enc_sample x)"
    unfolding phys_write_def pos by (simp add: ram_flash_def)
  then have "far_written x = (log_boot (ram_patch f1 (LOG_DATA + 16 * 2284) (enc_sample x)))\<lparr>
       total_abs := 2 ^ 28 + 1, cur_seq := 1, seq_next := 2, cur_slot := 0,
       cur_start := 2 ^ 28, cur_count := 1, stage := (replicate STAGE_N zero_sample)[0 := x],
       stage_head := 1, stage_tail := 1, active := True\<rparr>"
    unfolding far_written_def drain_write_def cnt batch unfolding st
    by (simp add: log_boot_def)
  then show ?thesis using f1(2,3) by blast
qed

text \<open>C37: The reader's byte counter wraps (\<open>imu_log.c:564\<close>, \<open>start * REC_SIZE\<close> in 32 bits): once the
  log has counted \<open>2 ^ 28\<close> records, a session's first record is written to ring slot 2284 but the
  read of the session starts at ring slot 0. Here the medium is zero but for the one sample: its
  cell holds the sample and the dump returns sixteen zero bytes, whatever the sample was.\<close>

theorem read_offset_wraps:
  "rec_cell (\<lambda>m. m) (flash (far_written x)) 2284 = enc_sample x \<and>
   imu_log_read_session ram_flash (far_written x) 1 0 16 = (16, replicate 16 0)"
proof -
  obtain f1 f2 sg where far: "far_written x = (log_boot f2)\<lparr>total_abs := 2 ^ 28 + 1, cur_seq := 1, seq_next := 2,
       cur_slot := 0, cur_start := 2 ^ 28, cur_count := 1, stage := sg, stage_head := 1, stage_tail := 1,
       active := True\<rparr>"
    "dir_map (\<lambda>m. m) f1 = [0 \<mapsto> start_entry settings_boot 0 1 (2 ^ 28)]"
    "same_outside (\<lambda>m. m) LOG_LO LOG_DATA (\<lambda>_. 0) f1" "f2 = ram_patch f1 (LOG_DATA + 16 * 2284) (enc_sample x)"
    using far_written_state by blast
  have d2: "dir_map (\<lambda>m. m) f2 = [0 \<mapsto> start_entry settings_boot 0 1 (2 ^ 28)]"
    using dir_map_data [of "\<lambda>m. m" f1 f2] far(2) by (simp add: far(4) same_outside_def ram_patch_def)
  have "img \<noteq> (\<lambda>m. m) \<or> f2 y = 0" if "LOG_DATA \<le> y" "y < LOG_DATA + 16" for y and img :: "(nat \<Rightarrow> u8) \<Rightarrow> nat \<Rightarrow> u8"
    using far(3) that by (auto simp: far(4) same_outside_def ram_patch_def)
  then have z: "f2 y = 0" if "LOG_DATA \<le> y" "y < LOG_DATA + 16" for y using that by blast
  let ?st = "far_written x"
  have "find_session ram_flash ?st 1 = Some ((start_entry settings_boot 0 1 (2 ^ 28))\<lparr>de_rec_count := 1\<rparr>)"
  proof -
    have "dir_entries_ok (dir_map (\<lambda>m. m) (flash ?st)) ?st"
      unfolding far(1) using d2 by (auto simp: dir_entries_ok_def running_def start_entry_def entry_end_def log_boot_def)
    then show ?thesis
      using find_session_dir [OF ram_flash_dir_dev, of ?st 0] d2
      by (simp add: far(1) running_def log_boot_def start_entry_def)
  qed
  moreover have "read_ring ram_flash f2 0 16 0 [] = (16, replicate 16 0)"
    using phys_read_ring [OF dir_devD(1,2) [OF ram_flash_dir_dev], of 0 16 f2] z
    by (simp add: read_ring.simps [of _ _ 0 16] read_ring.simps [of _ _ 16 0] list_eq_iff_nth_eq)
  moreover have zero: "(4294967296 :: u32) = 0" by (simp add: word_unat_eq_iff)
  ultimately have "imu_log_read_session ram_flash ?st 1 0 16 = (16, replicate 16 0)"
    by (simp add: imu_log_read_session_def far(1) log_boot_def ring_floor_def start_entry_def zero)
  moreover have "rec_cell (\<lambda>m. m) (flash ?st) 2284 = enc_sample x"
    by (simp add: far(1,4) rec_cell_def list_eq_iff_nth_eq ram_patch_def log_boot_def)
  ultimately show ?thesis by simp
qed

end
