(* ===== verification/Ble_Stream.thy ===== *)
theory Ble_Stream
  imports Messages Imu_Shared
begin

text \<open>
  The live stream of \<open>src/ble/ble_transport.c\<close>: the decimation from the sampling rate and the link
  budget, its adaptation to drops, the FIFO between the pump and the TX thread, the packets, and the
  credit-paced notifications. The clock is an argument of each operation that reads it; what the
  Bluetooth stack answers is an argument of the sends.
\<close>

section \<open>Rates and decimation\<close>

definition odr_hz_tab :: "u16 list" where
  "odr_hz_tab = [0, 13, 26, 52, 104, 208, 416, 833, 1660, 3330, 6660]"

definition ble_odr_hz :: "u8 \<Rightarrow> u16" where
  "ble_odr_hz code = (if code \<le> 10 then odr_hz_tab ! unat code else 0)"

abbreviation STREAM_BUDGET_SPS :: u32 where "STREAM_BUDGET_SPS \<equiv> 1300"
abbreviation STREAM_BUDGET_LOG_SPS :: u32 where "STREAM_BUDGET_LOG_SPS \<equiv> 500"
abbreviation STREAM_MAX_SAMPLES :: u8 where "STREAM_MAX_SAMPLES \<equiv> 14"
abbreviation STREAM_HDR :: nat where "STREAM_HDR \<equiv> 8"
abbreviation SFIFO_N :: nat where "SFIFO_N \<equiv> 256"

record stream_st =
  stream_decim :: u8
  stream_preview_hz :: u16
  stream_adapt :: u8
  adapt_calm :: u8
  adapt_calm_need :: u8
  adapt_last_dropped :: u32
  adapt_win_start :: int
  adapt_last_probe :: int
  sfifo :: "imu_sample list"
  sfifo_head :: u32
  sfifo_tail :: u32
  stream_max :: u8
  stream_sample_ctr :: u32
  stream_dropped :: u32
  sfifo_ts :: int
  sink_on :: bool

abbreviation NEVER_PROBED :: int where "NEVER_PROBED \<equiv> - (2 ^ 62)"

definition stream_boot :: stream_st where
  "stream_boot = \<lparr>stream_decim = 1, stream_preview_hz = 0, stream_adapt = 0, adapt_calm = 0,
     adapt_calm_need = 5, adapt_last_dropped = 0, adapt_win_start = 0, adapt_last_probe = NEVER_PROBED,
     sfifo = replicate SFIFO_N zero_sample, sfifo_head = 0, sfifo_tail = 0,
     stream_max = STREAM_MAX_SAMPLES, stream_sample_ctr = 0, stream_dropped = 0, sfifo_ts = 0,
     sink_on = False\<rparr>"

definition stream_decim_eff :: "stream_st \<Rightarrow> u8" where
  "stream_decim_eff st =
     (let d = push_bit (unat (stream_adapt st)) (ucast (stream_decim st) :: u32)
      in ucast (min d 255))"

definition ble_transport_stream_update_decim :: "u8 \<Rightarrow> bool \<Rightarrow> int \<Rightarrow> stream_st \<Rightarrow> stream_st" where
  "ble_transport_stream_update_decim odr log_active now st =
     (let hz = ble_odr_hz odr;
          budget = (if log_active then STREAM_BUDGET_LOG_SPS else STREAM_BUDGET_SPS);
          target = (if stream_preview_hz st \<noteq> 0 \<and> ucast (stream_preview_hz st) < budget
             then ucast (stream_preview_hz st) else budget);
          d = (ucast hz + target - 1) div target
      in st\<lparr>stream_decim := ucast (clamp d 1 255), stream_adapt := 0, adapt_calm := 0,
            adapt_calm_need := 5, adapt_last_probe := NEVER_PROBED, adapt_win_start := now\<rparr>)"

definition ble_stream_set_preview :: "u16 \<Rightarrow> u8 \<Rightarrow> bool \<Rightarrow> int \<Rightarrow> stream_st \<Rightarrow> stream_st" where
  "ble_stream_set_preview hz odr log_active now st =
     ble_transport_stream_update_decim odr log_active now (st\<lparr>stream_preview_hz := hz\<rparr>)"

section \<open>The pump-side sink\<close>

definition stream_adapt_tick :: "int \<Rightarrow> stream_st \<Rightarrow> stream_st" where
  "stream_adapt_tick now st =
     (if now - adapt_win_start st < 1000 then st
      else
        let drops = stream_dropped st - adapt_last_dropped st;
            st1 = st\<lparr>adapt_win_start := now, adapt_last_dropped := stream_dropped st\<rparr>
        in if drops > 10 then
             st1\<lparr>stream_adapt := if stream_adapt st1 < 4 then stream_adapt st1 + 1 else stream_adapt st1,
                 adapt_calm_need := if now - adapt_last_probe st1 < 10000 \<and> adapt_calm_need st1 < 30
                    then adapt_calm_need st1 + 5 else adapt_calm_need st1,
                 adapt_calm := 0\<rparr>
           else if drops = 0 then
             let st2 = st1\<lparr>adapt_calm := adapt_calm st1 + 1\<rparr>
             in if adapt_calm st2 \<ge> adapt_calm_need st2 \<and> stream_adapt st2 > 0
                then st2\<lparr>stream_adapt := stream_adapt st2 - 1, adapt_last_probe := now, adapt_calm := 0\<rparr>
                else st2
           else st1\<lparr>adapt_calm := 0\<rparr>)"

text \<open>Slot of a FIFO counter, \<open>k & (SFIFO_N - 1)\<close>.\<close>

definition sfifo_idx :: "u32 \<Rightarrow> nat" where
  "sfifo_idx k = unat (k AND 255)"

definition sink_one :: "u8 \<Rightarrow> int \<Rightarrow> imu_sample \<Rightarrow> stream_st \<Rightarrow> stream_st" where
  "sink_one decim now x st =
     (let c = stream_sample_ctr st;
          st1 = st\<lparr>stream_sample_ctr := c + 1\<rparr>
      in if c mod ucast decim \<noteq> 0 then st1
         else if sfifo_head st1 - sfifo_tail st1 \<ge> of_nat SFIFO_N
         then st1\<lparr>stream_dropped := stream_dropped st1 + 1\<rparr>
         else
           let st2 = (if sfifo_head st1 = sfifo_tail st1 then st1\<lparr>sfifo_ts := now\<rparr> else st1)
           in st2\<lparr>sfifo := (sfifo st2)[sfifo_idx (sfifo_head st2) := x], sfifo_head := sfifo_head st2 + 1\<rparr>)"

definition stream_sink :: "int \<Rightarrow> imu_sample list \<Rightarrow> stream_st \<Rightarrow> stream_st" where
  "stream_sink now xs st = stream_adapt_tick now (fold (sink_one (stream_decim_eff st) now) xs st)"

definition ble_transport_stream_enable :: "bool \<Rightarrow> u8 \<Rightarrow> bool \<Rightarrow> int \<Rightarrow> stream_st \<Rightarrow> stream_st" where
  "ble_transport_stream_enable on odr log_active now st =
     (if on
      then (ble_transport_stream_update_decim odr log_active now
              (st\<lparr>sfifo_tail := sfifo_head st, stream_sample_ctr := 0, stream_dropped := 0,
                  stream_max := STREAM_MAX_SAMPLES\<rparr>))\<lparr>sink_on := True\<rparr>
      else st\<lparr>sink_on := False\<rparr>)"

section \<open>Credit-paced notifications\<close>

text \<open>\<open>resp i\<close> is what \<open>bt_gatt_notify_cb\<close> returns on the \<open>i\<close>-th try of one notification.\<close>

definition retryable :: "int \<Rightarrow> bool" where
  "retryable ret \<longleftrightarrow> ret = - ENOMEM \<or> ret = - EAGAIN \<or> ret = - ENOBUFS"

fun notify_tries :: "nat \<Rightarrow> (nat \<Rightarrow> int) \<Rightarrow> nat \<Rightarrow> int" where
  "notify_tries 0 resp i = resp i"
| "notify_tries (Suc k) resp i = (if retryable (resp i) then notify_tries k resp (Suc i) else resp i)"

text \<open>
  The credits are a semaphore of two; \<open>waited\<close> is its count when the take of at most 500 ms ends.
  The result says whether the stack took the notification.
\<close>

definition tx_notify :: "(nat \<Rightarrow> int) \<Rightarrow> nat \<Rightarrow> bool \<times> nat" where
  "tx_notify resp waited =
     (if waited = 0 then (False, 0)
      else let credits = waited - 1; ret = notify_tries 99 resp 0
           in if ret < 0 then (False, min 2 (credits + 1)) else (True, credits))"

definition tx_sent_cb :: "nat \<Rightarrow> nat" where
  "tx_sent_cb credits = min 2 (credits + 1)"

section \<open>The TX thread\<close>

text \<open>
  A stream packet is built, sent and then taken off the FIFO. The send may block, so the two ends are
  separate operations: \<open>tx_build\<close> decides and builds, \<open>tx_done\<close> follows the send.
\<close>

definition stream_packet :: "u8 \<Rightarrow> imu_sample list \<Rightarrow> stream_st \<Rightarrow> u8 list" where
  "stream_packet n xs st =
     [n, stream_decim_eff st, 0, 0] @ le32 (stream_dropped st) @ concat (map enc_sample xs)"

definition tx_build :: "int \<Rightarrow> stream_st \<Rightarrow> (u8 \<times> u8 list) option" where
  "tx_build now st =
     (let avail = sfifo_head st - sfifo_tail st
      in if avail = 0 then None
         else if avail < ucast (stream_max st) \<and> now - sfifo_ts st < 100 then None
         else
           let n = ucast (min avail (ucast (stream_max st))) :: u8;
               xs = map (\<lambda>i. sfifo st ! sfifo_idx (sfifo_tail st + of_nat i)) [0..<unat n]
           in Some (n, stream_packet n xs st))"

definition tx_done :: "int \<Rightarrow> bool \<Rightarrow> u8 \<Rightarrow> stream_st \<Rightarrow> stream_st" where
  "tx_done now sent n st =
     st\<lparr>stream_dropped := if sent then stream_dropped st else stream_dropped st + ucast n,
        sfifo_tail := sfifo_tail st + ucast n, sfifo_ts := now\<rparr>"

text \<open>The message part of a pass: every queued line is sent, or lost when the send fails.\<close>

definition tx_message :: "msg_st \<Rightarrow> (string \<times> msg_st) option" where
  "tx_message m =
     (if msgq_tail m = msgq_head m then None
      else Some (msgq m ! msgq_idx (msgq_tail m), m\<lparr>msgq_tail := msgq_tail m + 1\<rparr>))"

section \<open>The FIFO\<close>

lemma sfifo_idx_mod: "sfifo_idx k = unat k mod 256"
proof -
  have "unat (k AND mask 8) = unat k mod 2 ^ 8" by (rule unat_and_mask)
  moreover have "mask 8 = (255 :: u32)" by (simp add: mask_eq_exp_minus_1)
  ultimately show ?thesis by (simp add: sfifo_idx_def)
qed

interpretation fifo: ring_index SFIFO_N sfifo_idx "\<lambda>_. True"
proof unfold_locales
  fix t :: u32 and i j
  assume "i < SFIFO_N" "j < SFIFO_N" "sfifo_idx (t + of_nat i) = sfifo_idx (t + of_nat j)"
  then show "i = j" by (intro mod_idx_inj_dvd [of SFIFO_N i j t]) (simp_all add: sfifo_idx_mod)
qed (simp_all add: sfifo_idx_mod)

definition stream_queue :: "stream_st \<Rightarrow> imu_sample list" where
  "stream_queue st = ring_contents sfifo_idx (sfifo_head st) (sfifo_tail st) (sfifo st)"

definition fifo_ok :: "stream_st \<Rightarrow> bool" where
  "fifo_ok st \<longleftrightarrow> length (sfifo st) = SFIFO_N \<and> unat (sfifo_head st - sfifo_tail st) \<le> SFIFO_N"

lemma length_stream_queue: "length (stream_queue st) = unat (sfifo_head st - sfifo_tail st)"
  by (simp add: stream_queue_def fifo.length_contents)

text \<open>Every \<open>decim\<close>-th sample of the stream is picked, counted from the subscription.\<close>

fun picked :: "u8 \<Rightarrow> u32 \<Rightarrow> imu_sample list \<Rightarrow> imu_sample list" where
  "picked decim c [] = []"
| "picked decim c (x # xs) = (if c mod ucast decim = 0 then x # picked decim (c + 1) xs else picked decim (c + 1) xs)"

lemma sink_one_queue:
  fixes decim now x
  assumes "fifo_ok st"
  defines "st' \<equiv> sink_one decim now x st"
  shows "fifo_ok st' \<and> stream_sample_ctr st' = stream_sample_ctr st + 1 \<and>
    (if stream_sample_ctr st mod ucast decim \<noteq> 0
     then stream_queue st' = stream_queue st \<and> stream_dropped st' = stream_dropped st
     else if length (stream_queue st) < SFIFO_N
     then stream_queue st' = stream_queue st @ [x] \<and> stream_dropped st' = stream_dropped st
     else stream_queue st' = stream_queue st \<and> stream_dropped st' = stream_dropped st + 1)"
proof (cases "stream_sample_ctr st mod ucast decim = 0 \<and> length (stream_queue st) < SFIFO_N")
  case True
  then have fill: "unat (sfifo_head st - sfifo_tail st) < SFIFO_N" by (simp add: length_stream_queue)
  have len: "length (sfifo st) = SFIFO_N" using assms(1) by (simp add: fifo_ok_def)
  have notfull: "\<not> sfifo_head st - sfifo_tail st \<ge> of_nat SFIFO_N" using fill by (simp add: word_le_nat_alt)
  have fields: "sfifo st' = (sfifo st)[sfifo_idx (sfifo_head st) := x]" "sfifo_head st' = sfifo_head st + 1"
    "sfifo_tail st' = sfifo_tail st" "stream_dropped st' = stream_dropped st"
    "stream_sample_ctr st' = stream_sample_ctr st + 1"
    using True notfull by (simp_all add: st'_def sink_one_def Let_def)
  have "stream_queue st' = stream_queue st @ [x]"
    unfolding stream_queue_def fields by (rule fifo.contents_push [OF _ fill len]) simp
  moreover have "fifo_ok st'"
    using fifo.fill_push [OF fill] fill len by (simp add: fifo_ok_def fields)
  ultimately show ?thesis using True fields by simp
next
  case False
  have "stream_sample_ctr st mod ucast decim \<noteq> 0 \<or> sfifo_head st - sfifo_tail st \<ge> of_nat SFIFO_N"
    using False by (simp add: length_stream_queue word_le_nat_alt not_less)
  then show ?thesis
    using False assms(1)
    by (auto simp: st'_def sink_one_def Let_def stream_queue_def fifo_ok_def)
qed

lemma sink_fold_queue:
  assumes "fifo_ok st"
  shows "fifo_ok (fold (sink_one decim now) xs st) \<and>
    stream_queue (fold (sink_one decim now) xs st) =
      stream_queue st @ take (SFIFO_N - length (stream_queue st)) (picked decim (stream_sample_ctr st) xs) \<and>
    stream_dropped (fold (sink_one decim now) xs st) = stream_dropped st +
      of_nat (length (picked decim (stream_sample_ctr st) xs) - (SFIFO_N - length (stream_queue st)))"
  using assms
proof (induction xs arbitrary: st)
  case (Cons x xs)
  let ?s = "sink_one decim now x st"
  note one = sink_one_queue [OF Cons.prems, of decim now x]
  have ih: "fifo_ok (fold (sink_one decim now) xs ?s) \<and>
    stream_queue (fold (sink_one decim now) xs ?s) =
      stream_queue ?s @ take (SFIFO_N - length (stream_queue ?s)) (picked decim (stream_sample_ctr ?s) xs) \<and>
    stream_dropped (fold (sink_one decim now) xs ?s) = stream_dropped ?s +
      of_nat (length (picked decim (stream_sample_ctr ?s) xs) - (SFIFO_N - length (stream_queue ?s)))"
    using one by (intro Cons.IH) blast
  have le: "length (stream_queue st) \<le> SFIFO_N"
    using Cons.prems by (simp add: length_stream_queue fifo_ok_def)
  consider (skip) "stream_sample_ctr st mod ucast decim \<noteq> 0"
    | (push) "stream_sample_ctr st mod ucast decim = 0" "length (stream_queue st) < SFIFO_N"
    | (drop) "stream_sample_ctr st mod ucast decim = 0" "length (stream_queue st) = SFIFO_N"
    using le by linarith
  then show ?case
  proof cases
    case skip
    then show ?thesis using one ih by simp
  next
    case push
    then have "SFIFO_N - length (stream_queue st) = Suc (SFIFO_N - length (stream_queue ?s))" using one by simp
    then show ?thesis using push one ih by simp
  next
    case drop
    then show ?thesis using one ih by (simp add: add.commute add.left_commute)
  qed
qed simp

lemma tick_frame:
  "sfifo (stream_adapt_tick now st) = sfifo st" "sfifo_head (stream_adapt_tick now st) = sfifo_head st"
  "sfifo_tail (stream_adapt_tick now st) = sfifo_tail st" "stream_dropped (stream_adapt_tick now st) = stream_dropped st"
  "stream_decim (stream_adapt_tick now st) = stream_decim st" "stream_max (stream_adapt_tick now st) = stream_max st"
  "stream_sample_ctr (stream_adapt_tick now st) = stream_sample_ctr st"
  by (simp_all add: stream_adapt_tick_def Let_def)

text \<open>The sink stages exactly every decim-th sample, in order, as long as the FIFO has room, and
  counts every picked sample it had no room for: nothing is lost silently.\<close>

theorem stream_sink_stages:
  fixes xs
  assumes "fifo_ok st"
  defines "p \<equiv> picked (stream_decim_eff st) (stream_sample_ctr st) xs"
    and "room \<equiv> SFIFO_N - length (stream_queue st)"
  shows "stream_queue (stream_sink now xs st) = stream_queue st @ take room p \<and>
    stream_dropped (stream_sink now xs st) = stream_dropped st + of_nat (length p - room) \<and>
    fifo_ok (stream_sink now xs st)"
  using sink_fold_queue [OF assms(1), of "stream_decim_eff st" now xs]
  unfolding p_def room_def stream_sink_def
  by (simp add: stream_queue_def fifo_ok_def tick_frame)

theorem stream_sink_stages_witness:
  "stream_queue (stream_sink 4 [zero_sample, zero_sample\<lparr>s_ax := 1\<rparr>] stream_boot) =
     [zero_sample, zero_sample\<lparr>s_ax := 1\<rparr>]"
proof -
  have "fifo_ok stream_boot" by (simp add: fifo_ok_def stream_boot_def)
  moreover have "stream_queue stream_boot = []" by (simp add: stream_queue_def stream_boot_def ring_contents_def)
  moreover have "stream_decim_eff stream_boot = 1" "stream_sample_ctr stream_boot = 0"
    by (simp_all add: stream_decim_eff_def stream_boot_def)
  ultimately show ?thesis using stream_sink_stages [of stream_boot 4] by simp
qed

section \<open>Decimation\<close>

text \<open>The rate the decimation aims at.\<close>

definition stream_target :: "bool \<Rightarrow> stream_st \<Rightarrow> nat" where
  "stream_target log_active st =
     (let budget = (if log_active then 500 else 1300)
      in if stream_preview_hz st \<noteq> 0 then min (unat (stream_preview_hz st)) budget else budget)"

definition adapt_ok :: "stream_st \<Rightarrow> bool" where
  "adapt_ok st \<longleftrightarrow> stream_decim st \<noteq> 0 \<and> stream_adapt st \<le> 4 \<and> 5 \<le> adapt_calm_need st \<and>
     adapt_calm_need st \<le> 30 \<and> 5 dvd unat (adapt_calm_need st) \<and> stream_max st = STREAM_MAX_SAMPLES"

lemma odr_hz_bound: "unat (ble_odr_hz odr) \<le> 6660"
proof (cases "odr \<le> 10")
  case True
  then have "unat odr < length odr_hz_tab" by (simp add: odr_hz_tab_def word_le_nat_alt)
  moreover have "\<forall>x \<in> set odr_hz_tab. unat x \<le> 6660" by (simp add: odr_hz_tab_def)
  ultimately show ?thesis using True nth_mem by (force simp: ble_odr_hz_def)
qed (simp add: ble_odr_hz_def)

lemma ceil_div:
  fixes h t :: nat
  assumes "0 < t"
  defines "d \<equiv> (h + t - 1) div t"
  shows "h \<le> d * t" "0 < h \<Longrightarrow> (d - 1) * t < h"
proof -
  have "h + t - 1 < (d + 1) * t"
    using assms(1) by (simp add: d_def) (metis dividend_less_div_times add.commute)
  then show "h \<le> d * t" by simp
  have le: "d * t \<le> h + t - 1" by (simp add: d_def)
  assume "0 < h"
  then show "(d - 1) * t < h" using le assms(1) by (cases d) auto
qed

lemma update_decim_value:
  "unat (stream_decim (ble_transport_stream_update_decim odr log_active now st)) =
   max 1 (min 255 ((unat (ble_odr_hz odr) + stream_target log_active st - 1) div stream_target log_active st))"
proof -
  define T where "T = stream_target log_active st"
  define target :: u32 where "target = (let budget = (if log_active then STREAM_BUDGET_LOG_SPS else STREAM_BUDGET_SPS)
     in if stream_preview_hz st \<noteq> 0 \<and> ucast (stream_preview_hz st) < budget
        then ucast (stream_preview_hz st) else budget)"
  have T: "unat target = T"
    by (auto simp: target_def T_def stream_target_def Let_def word_less_nat_alt unat_gt_0)
  have Tb: "1 \<le> T" "T \<le> 1300"
    by (auto simp: T_def stream_target_def Let_def Suc_le_eq unat_gt_0)
  let ?h = "unat (ble_odr_hz odr)"
  define d where "d = (ucast (ble_odr_hz odr) + target - 1) div target"
  have "unat (ucast (ble_odr_hz odr) + target) = ?h + T"
    using odr_hz_bound [of odr] Tb T by (subst unat_add_nowrap) simp_all
  then have "unat (ucast (ble_odr_hz odr) + target - 1) = ?h + T - 1"
    using Tb by (subst unat_sub) (simp_all add: word_le_nat_alt)
  then have d: "unat d = (?h + T - 1) div T" by (simp add: d_def unat_div T)
  have "unat (clamp d 1 255) = max 1 (min 255 (unat d))"
    by (auto simp: clamp_def min_def word_less_nat_alt word_le_nat_alt)
  moreover have "max 1 (min 255 (unat d)) < 2 ^ 8" by simp
  ultimately have "unat (ucast (clamp d 1 255) :: u8) = max 1 (min 255 (unat d))"
    by (simp add: unat_ucast_down)
  then show ?thesis
    unfolding d T_def [symmetric]
    by (simp add: ble_transport_stream_update_decim_def d_def target_def Let_def)
qed

text \<open>C30: The decimation meets the link budget and wastes none of it: with factor d the previewed
  rate hz / d is at most the target (the budget, or the requested preview rate if that is lower)
  unless d is saturated at 255, and d - 1 would exceed the target; d is never 0.\<close>

theorem decim_meets_budget:
  "let d = unat (stream_decim (ble_transport_stream_update_decim odr log_active now st));
       h = unat (ble_odr_hz odr); T = stream_target log_active st
   in 1 \<le> d \<and> d \<le> 255 \<and> (h \<le> d * T \<or> d = 255) \<and> (d = 1 \<or> (d - 1) * T < h)"
proof -
  define T where "T = stream_target log_active st"
  let ?h = "unat (ble_odr_hz odr)"
  define q where "q = (?h + T - 1) div T"
  have T: "0 < T" by (auto simp: T_def stream_target_def Let_def unat_gt_0)
  note c = ceil_div [OF T, of ?h, folded q_def]
  have d: "unat (stream_decim (ble_transport_stream_update_decim odr log_active now st)) = max 1 (min 255 q)"
    by (simp add: update_decim_value q_def T_def)
  consider (zero) "q = 0" | (mid) "1 \<le> q" "q \<le> 255" | (big) "255 < q" by linarith
  then show ?thesis
    unfolding Let_def d T_def [symmetric]
  proof cases
    case zero
    then show "1 \<le> max 1 (min 255 q) \<and> max 1 (min 255 q) \<le> 255 \<and>
        (?h \<le> max 1 (min 255 q) * T \<or> max 1 (min 255 q) = 255) \<and>
        (max 1 (min 255 q) = 1 \<or> (max 1 (min 255 q) - 1) * T < ?h)" using c by simp
  next
    case mid
    then have "max 1 (min 255 q) = q" by simp
    moreover have "0 < ?h \<or> q = 1"
    proof (cases "?h = 0")
      case True
      then have "q = 0" using T by (simp add: q_def)
      then show ?thesis using mid by simp
    qed simp
    ultimately show "1 \<le> max 1 (min 255 q) \<and> max 1 (min 255 q) \<le> 255 \<and>
        (?h \<le> max 1 (min 255 q) * T \<or> max 1 (min 255 q) = 255) \<and>
        (max 1 (min 255 q) = 1 \<or> (max 1 (min 255 q) - 1) * T < ?h)" using c mid by auto
  next
    case big
    then have "0 < ?h" using T by (cases "?h = 0") (simp_all add: q_def)
    then have "(q - 1) * T < ?h" by (rule c(2))
    moreover have "254 * T \<le> (q - 1) * T" using big by (intro mult_le_mono1) simp
    ultimately have "254 * T < ?h" by (rule order.strict_trans1 [rotated])
    then show "1 \<le> max 1 (min 255 q) \<and> max 1 (min 255 q) \<le> 255 \<and>
        (?h \<le> max 1 (min 255 q) * T \<or> max 1 (min 255 q) = 255) \<and>
        (max 1 (min 255 q) = 1 \<or> (max 1 (min 255 q) - 1) * T < ?h)" using big by simp
  qed
qed

section \<open>Packets\<close>

lemma drop_header: "length h = n \<Longrightarrow> drop (n + k) (h @ xs) = drop k xs"
  by simp

lemma tx_build_takes:
  assumes "stream_max st = STREAM_MAX_SAMPLES" and build: "tx_build now st = Some (n, pkt)"
  shows "n \<in> {1..14}" "unat n = min (length (stream_queue st)) 14"
    "pkt = stream_packet n (take (unat n) (stream_queue st)) st"
proof -
  let ?av = "sfifo_head st - sfifo_tail st"
  have av: "?av \<noteq> 0" and n: "n = ucast (min ?av (ucast (14 :: u8)))"
    and pkt: "pkt = stream_packet n (map (\<lambda>i. sfifo st ! sfifo_idx (sfifo_tail st + of_nat i)) [0..<unat n]) st"
    using assms by (auto simp: tx_build_def Let_def split: if_splits)
  have "unat (min ?av (14 :: u32)) = min (unat ?av) 14" by (auto simp: min_def word_le_nat_alt)
  moreover have "min (unat ?av) 14 < 2 ^ 8" by simp
  ultimately have un: "unat n = min (unat ?av) 14"
    unfolding n using unat_ucast_down(1) [of "min ?av (14 :: u32)"] by simp
  have pos: "0 < unat ?av" using av by (simp add: unat_gt_0)
  show "n \<in> {1..14}" using un pos by (auto simp: word_le_nat_alt)
  show "unat n = min (length (stream_queue st)) 14" using un by (simp add: length_stream_queue)
  have nle: "unat n \<le> unat ?av" using un by simp
  show "pkt = stream_packet n (take (unat n) (stream_queue st)) st"
    unfolding pkt stream_queue_def by (simp only: fifo.contents_peek [OF nle])
qed

lemma tx_done_drops:
  assumes "fifo_ok st" "unat n \<le> length (stream_queue st)"
  shows "stream_queue (tx_done t sent n st) = drop (unat n) (stream_queue st)" "fifo_ok (tx_done t sent n st)"
proof -
  have nle: "unat n \<le> unat (sfifo_head st - sfifo_tail st)" using assms(2) by (simp only: length_stream_queue)
  show q: "stream_queue (tx_done t sent n st) = drop (unat n) (stream_queue st)"
    using fifo.contents_pop [OF nle, of "sfifo st"] by (simp add: stream_queue_def tx_done_def)
  have "unat (sfifo_head (tx_done t sent n st) - sfifo_tail (tx_done t sent n st)) \<le> SFIFO_N"
    using arg_cong [OF q, of length] assms(1) unfolding length_drop length_stream_queue fifo_ok_def by linarith
  then show "fifo_ok (tx_done t sent n st)" using assms(1) by (simp add: fifo_ok_def tx_done_def)
qed

text \<open>A stream packet carries 1 to 14 samples, the oldest of the FIFO in order, announces their
  number, and fits its 232 bytes; taking it off removes exactly those samples, and if the send
  failed they are counted as dropped.\<close>

theorem tx_packet_carries_queue:
  assumes ok: "fifo_ok st" "stream_max st = STREAM_MAX_SAMPLES" and build: "tx_build now st = Some (n, pkt)"
  shows "n \<in> {1..14} \<and> length pkt = STREAM_HDR + 16 * unat n \<and> hd pkt = n \<and>
    map (\<lambda>i. dec_sample (drop (STREAM_HDR + 16 * i) pkt)) [0..<unat n] = take (unat n) (stream_queue st) \<and>
    stream_queue (tx_done t sent n st) = drop (unat n) (stream_queue st) \<and> fifo_ok (tx_done t sent n st) \<and>
    stream_dropped (tx_done t sent n st) = stream_dropped st + (if sent then 0 else of_nat (unat n))"
proof -
  let ?xs = "take (unat n) (stream_queue st)"
  note b = tx_build_takes [OF ok(2) build]
  have nle: "unat n \<le> length (stream_queue st)" using b(2) by simp
  then have len: "length ?xs = unat n" by simp
  have "dec_sample (drop (STREAM_HDR + 16 * i) pkt) = ?xs ! i" if "i < unat n" for i
  proof -
    have hdr: "length ([n, stream_decim_eff st, 0, 0] @ le32 (stream_dropped st)) = STREAM_HDR"
      by (simp add: le32_def)
    have "pkt = ([n, stream_decim_eff st, 0, 0] @ le32 (stream_dropped st)) @ concat (map enc_sample ?xs)"
      by (simp add: b(3) stream_packet_def)
    then have "drop (STREAM_HDR + 16 * i) pkt = drop (16 * i) (concat (map enc_sample ?xs))"
      by (simp only: drop_header [OF hdr])
    then have "drop (STREAM_HDR + 16 * i) pkt = concat (map enc_sample (drop i ?xs))"
      by (simp only: drop_concat_const [of enc_sample 16, OF length_enc_sample])
    moreover have "drop i ?xs = ?xs ! i # drop (Suc i) ?xs" using that len by (intro Cons_nth_drop_Suc [symmetric]) simp
    ultimately show ?thesis by simp
  qed
  then have "map (\<lambda>i. dec_sample (drop (STREAM_HDR + 16 * i) pkt)) [0..<unat n] = ?xs"
    using len by (intro nth_equalityI) simp_all
  moreover have "length pkt = STREAM_HDR + 16 * unat n" "hd pkt = n"
    using len by (simp_all add: b(3) stream_packet_def le32_def length_concat_const)
  moreover have "ucast n = (of_nat (unat n) :: u32)" by (simp add: word_unat_eq_iff)
  moreover have "stream_dropped (tx_done t sent n st) = stream_dropped st + (if sent then 0 else of_nat (unat n))"
    using \<open>ucast n = (of_nat (unat n) :: u32)\<close> by (simp add: tx_done_def)
  ultimately show ?thesis using b(1) tx_done_drops [OF ok(1) nle] by blast
qed

definition one_staged :: stream_st where
  "one_staged = stream_boot\<lparr>sfifo := (sfifo stream_boot)[0 := zero_sample\<lparr>s_ax := 7\<rparr>], sfifo_head := 1\<rparr>"

lemma one_staged_build: "tx_build 200 one_staged = Some (1, stream_packet 1 [zero_sample\<lparr>s_ax := 7\<rparr>] one_staged)"
proof -
  have "unat (ucast (1 :: u32) :: u8) = 1" by simp
  then show ?thesis
    by (simp add: tx_build_def one_staged_def stream_boot_def sfifo_idx_def Let_def nth_list_update)
qed

theorem tx_packet_carries_queue_witness:
  "map (\<lambda>i. dec_sample (drop (STREAM_HDR + 16 * i) (stream_packet 1 [zero_sample\<lparr>s_ax := 7\<rparr>] one_staged))) [0..<unat (1 :: u8)]
     = take (unat (1 :: u8)) (stream_queue one_staged) \<and>
   stream_queue (tx_done 250 True 1 one_staged) = drop (unat (1 :: u8)) (stream_queue one_staged)"
proof -
  have "fifo_ok one_staged" "stream_max one_staged = STREAM_MAX_SAMPLES"
    by (simp_all add: fifo_ok_def one_staged_def stream_boot_def)
  from tx_packet_carries_queue [OF this one_staged_build, of 250 True] show ?thesis by blast
qed

section \<open>Invariant of the rate control\<close>

text \<open>Everything that changes the stream's state, in any order: the handlers of the BT thread, the
  pump's sink, and the end of a send of the TX thread.\<close>

datatype stream_ev =
    SPreview u16 u8 bool int
  | SDecim u8 bool int
  | SEnable bool u8 bool int
  | SSink int "imu_sample list"
  | SSent int bool u8

fun stream_apply :: "stream_ev \<Rightarrow> stream_st \<Rightarrow> stream_st" where
  "stream_apply (SPreview hz odr act now) st = ble_stream_set_preview hz odr act now st"
| "stream_apply (SDecim odr act now) st = ble_transport_stream_update_decim odr act now st"
| "stream_apply (SEnable on odr act now) st = ble_transport_stream_enable on odr act now st"
| "stream_apply (SSink now xs) st = stream_sink now xs st"
| "stream_apply (SSent now sent n) st = tx_done now sent n st"

lemma clamp_pos: "(ucast (clamp d 1 255 :: u32) :: u8) \<noteq> 0"
proof -
  have b: "1 \<le> unat (clamp d 1 255)" "unat (clamp d 1 255) \<le> 255"
    by (auto simp: clamp_def word_le_nat_alt min_def)
  then have "unat (ucast (clamp d 1 255) :: u8) = unat (clamp d 1 255)" by (simp add: unat_ucast_down)
  then show ?thesis using b by (metis not_one_le_zero unat_0)
qed

lemma sink_one_frame:
  "stream_decim (sink_one d now x st) = stream_decim st" "stream_adapt (sink_one d now x st) = stream_adapt st"
  "adapt_calm_need (sink_one d now x st) = adapt_calm_need st" "stream_max (sink_one d now x st) = stream_max st"
  by (simp_all add: sink_one_def Let_def)

lemma sink_fold_frame:
  "stream_decim (fold (sink_one d now) xs st) = stream_decim st"
  "stream_adapt (fold (sink_one d now) xs st) = stream_adapt st"
  "adapt_calm_need (fold (sink_one d now) xs st) = adapt_calm_need st"
  "stream_max (fold (sink_one d now) xs st) = stream_max st"
  by (induction xs arbitrary: st) (simp_all add: sink_one_frame)

lemma update_decim_ok:
  "stream_max st = STREAM_MAX_SAMPLES \<Longrightarrow> adapt_ok (ble_transport_stream_update_decim odr act now st)"
  by (simp add: adapt_ok_def ble_transport_stream_update_decim_def Let_def clamp_pos)

lemma adapt_ok_max: "adapt_ok st \<Longrightarrow> stream_max st = STREAM_MAX_SAMPLES"
  by (simp add: adapt_ok_def)

lemma calm_need_step:
  fixes k :: u8
  assumes "5 \<le> k" "k < 30" "5 dvd unat k"
  shows "5 \<le> k + 5" "k + 5 \<le> 30" "5 dvd unat (k + 5)"
proof -
  have "unat (k + 5) = unat k + 5"
    using assms by (simp add: unat_word_ariths word_less_nat_alt)
  then show "5 \<le> k + 5" "k + 5 \<le> 30" "5 dvd unat (k + 5)"
    using assms by (auto simp: word_le_nat_alt word_less_nat_alt elim!: dvdE)
qed

lemma unat_uminus:
  fixes k :: u32
  assumes "k \<noteq> 0"
  shows "unat (- k) = 2 ^ 32 - unat k"
  using assms unat_sub_if_size [of 0 k] by (simp add: word_size unat_gt_0)

lemma adapt_up: "(a :: u8) < 4 \<Longrightarrow> a + 1 \<le> 4"
  by (simp add: inc_le)

lemma adapt_down: "(a :: u8) \<le> 4 \<Longrightarrow> 0 < a \<Longrightarrow> a - 1 \<le> 4"
  by (simp add: word_le_nat_alt word_less_nat_alt unat_sub_if_size)

lemma adapt_tick_ok: "adapt_ok st \<Longrightarrow> adapt_ok (stream_adapt_tick now st)"
  unfolding adapt_ok_def stream_adapt_tick_def Let_def
  by (simp add: adapt_up adapt_down calm_need_step)

lemma stream_apply_ok: "adapt_ok st \<Longrightarrow> adapt_ok (stream_apply ev st)"
proof (induction ev st rule: stream_apply.induct)
  case (3 on odr act now st)
  then show ?case
    using update_decim_ok [of "st\<lparr>sfifo_tail := sfifo_head st, stream_sample_ctr := 0, stream_dropped := 0,
      stream_max := STREAM_MAX_SAMPLES\<rparr>" odr act now]
    by (simp add: ble_transport_stream_enable_def adapt_ok_def)
next
  case (4 now xs st)
  then have "adapt_ok (fold (sink_one (stream_decim_eff st) now) xs st)"
    by (simp add: adapt_ok_def sink_fold_frame)
  then show ?case by (simp add: stream_sink_def adapt_tick_ok)
next
  case (5 now sent n st)
  then show ?case by (simp add: tx_done_def adapt_ok_def)
qed (simp_all add: ble_stream_set_preview_def update_decim_ok adapt_ok_max)

interpretation rate: step_invariant stream_apply adapt_ok "\<lambda>_. True"
  by unfold_locales (rule stream_apply_ok)

lemma adapt_ok_eff:
  assumes "adapt_ok st"
  shows "unat (stream_decim_eff st) = min 255 (unat (stream_decim st) * 2 ^ unat (stream_adapt st))"
    "stream_decim_eff st \<noteq> 0"
proof -
  let ?d = "unat (stream_decim st)" and ?a = "unat (stream_adapt st)"
  have a: "?a \<le> 4" and d: "0 < ?d" "?d < 256"
    using assms unat_bounds(1) [of "stream_decim st"]
    by (simp_all add: adapt_ok_def word_le_nat_alt unat_gt_0)
  have p: "2 ^ ?a \<le> (2 ^ 4 :: nat)" using a by (intro power_increasing) simp_all
  then have "?d * 2 ^ ?a \<le> 255 * 16" using d by (intro mult_mono) simp_all
  then have lt: "?d * 2 ^ ?a < 2 ^ 32" by simp
  have "unat (push_bit ?a (ucast (stream_decim st) :: u32)) = ?d * 2 ^ ?a"
    using lt by (simp only: unsigned_push_bit_eq) (simp add: take_bit_eq_mod push_bit_eq_mult)
  then have m: "unat (min (push_bit ?a (ucast (stream_decim st) :: u32)) 255) = min 255 (?d * 2 ^ ?a)"
    by (auto simp: min_def word_le_nat_alt)
  then show e: "unat (stream_decim_eff st) = min 255 (?d * 2 ^ ?a)"
    by (simp add: stream_decim_eff_def Let_def unat_ucast_down)
  have "0 < min 255 (?d * 2 ^ ?a)" using d by simp
  then show "stream_decim_eff st \<noteq> 0" using e by (metis less_irrefl unat_0)
qed

text \<open>Whatever the host asks and the link does, in any order, the rate control stays in its range:
  the factor the sink divides by is never 0 and is the configured factor times 2 to at most the 4th
  power, saturated at 255; the calm time before a probe is 5 to 30 s; packets hold at most 14.\<close>

theorem rate_control_in_range:
  "let st = fold stream_apply evs stream_boot
   in stream_decim_eff st \<noteq> 0 \<and>
      unat (stream_decim_eff st) = min 255 (unat (stream_decim st) * 2 ^ unat (stream_adapt st)) \<and>
      stream_adapt st \<le> 4 \<and> adapt_calm_need st \<in> {5..30} \<and> stream_max st = STREAM_MAX_SAMPLES"
proof -
  have "adapt_ok (fold stream_apply evs stream_boot)"
    by (rule rate.run_keeps) (simp_all add: adapt_ok_def stream_boot_def list_all_iff)
  then show ?thesis using adapt_ok_eff by (simp add: Let_def adapt_ok_def)
qed

section \<open>Two consequences of re-subscribing\<close>

text \<open>Subscribing again resets the drop counter but not the value the adaptation last saw of it:
  if the previous subscription had dropped samples, the first window of the new one halves the
  preview rate although nothing was dropped.\<close>

theorem resubscribe_backs_off:
  fixes odr act
  assumes "0 < adapt_last_dropped st" "unat (adapt_last_dropped st) < 2 ^ 32 - 10" "now + 1000 \<le> t"
  defines "st' \<equiv> stream_adapt_tick t (ble_transport_stream_enable True odr act now st)"
  shows "stream_dropped st' = 0 \<and> stream_adapt st' = 1"
proof -
  have "unat (- adapt_last_dropped st) = 2 ^ 32 - unat (adapt_last_dropped st)"
    using assms(1) by (intro unat_uminus) simp
  then have "\<not> - adapt_last_dropped st \<le> 10"
    using assms(2) by (simp add: word_le_nat_alt)
  then show ?thesis
    using assms(3)
    by (simp add: st'_def stream_adapt_tick_def ble_transport_stream_enable_def
        ble_transport_stream_update_decim_def Let_def not_le)
qed

theorem resubscribe_backs_off_witness:
  "stream_adapt (stream_adapt_tick 1000 (ble_transport_stream_enable True 4 False 0
     (stream_boot\<lparr>adapt_last_dropped := 20\<rparr>))) = 1"
  using resubscribe_backs_off [of "stream_boot\<lparr>adapt_last_dropped := 20\<rparr>" 0 1000 4 False] by simp

text \<open>C38: Subscribing while the TX thread waits inside a send empties the FIFO under it: the end of the
  send then moves the tail past the head, the fill count wraps to almost 2^32, and from then on the
  sink drops every sample it picks while the TX thread sends stale slots.\<close>

theorem enable_during_send_wraps:
  fixes odr act u t sent
  assumes "fifo_ok st" "stream_max st = STREAM_MAX_SAMPLES" "tx_build now st = Some (n, pkt)"
  defines "st' \<equiv> tx_done t sent n (ble_transport_stream_enable True odr act u st)"
  shows "unat (sfifo_head st' - sfifo_tail st') = 2 ^ 32 - unat n \<and> \<not> fifo_ok st' \<and>
    sfifo (fold (sink_one decim v) xs st') = sfifo st' \<and> sfifo_head (fold (sink_one decim v) xs st') = sfifo_head st'"
proof -
  let ?av = "sfifo_head st - sfifo_tail st"
  have av: "?av \<noteq> 0" and n: "n = ucast (min ?av (ucast (14 :: u8)))"
    using assms(2,3) by (auto simp: tx_build_def Let_def split: if_splits)
  have "unat (min ?av (14 :: u32)) = min (unat ?av) 14" by (auto simp: min_def word_le_nat_alt)
  moreover have "min (unat ?av) 14 < 2 ^ 8" by simp
  ultimately have "unat n = min (unat ?av) 14"
    unfolding n using unat_ucast_down(1) [of "min ?av (14 :: u32)"] by simp
  then have un: "1 \<le> unat n" "unat n \<le> 14" using av by (simp_all add: Suc_le_eq unat_gt_0)
  then have nz: "(ucast n :: u32) \<noteq> 0" by (auto simp flip: unat_gt_0)
  have "sfifo_head st' - sfifo_tail st' = - (ucast n :: u32)"
    by (simp add: st'_def tx_done_def ble_transport_stream_enable_def ble_transport_stream_update_decim_def Let_def)
  then have fill: "unat (sfifo_head st' - sfifo_tail st') = 2 ^ 32 - unat n"
    using nz unat_uminus [OF nz] by simp
  have full: "of_nat SFIFO_N \<le> sfifo_head s - sfifo_tail s"
    if "unat (sfifo_head s - sfifo_tail s) = 2 ^ 32 - unat n" for s :: stream_st
    using that un by (simp add: word_le_nat_alt)
  have "sfifo (fold (sink_one decim v) xs s) = sfifo s \<and> sfifo_head (fold (sink_one decim v) xs s) = sfifo_head s"
    if "unat (sfifo_head s - sfifo_tail s) = 2 ^ 32 - unat n" for s
    using that
  proof (induction xs arbitrary: s)
    case (Cons x xs)
    have "sfifo (sink_one decim v x s) = sfifo s" "sfifo_head (sink_one decim v x s) = sfifo_head s"
      "sfifo_tail (sink_one decim v x s) = sfifo_tail s"
      using full [OF Cons.prems] by (simp_all add: sink_one_def Let_def)
    then show ?case using Cons by simp
  qed simp
  moreover have "\<not> (2 ^ 32 - unat n \<le> SFIFO_N)" using un by simp
  ultimately show ?thesis using fill by (simp add: fifo_ok_def)
qed

theorem enable_during_send_wraps_witness:
  "unat (let st' = tx_done 250 True 1 (ble_transport_stream_enable True 4 False 210 one_staged)
         in sfifo_head st' - sfifo_tail st') = 2 ^ 32 - unat (1 :: u8)"
proof -
  have "fifo_ok one_staged" "stream_max one_staged = STREAM_MAX_SAMPLES"
    by (simp_all add: fifo_ok_def one_staged_def stream_boot_def)
  from enable_during_send_wraps [OF this one_staged_build, where t = 250 and sent = True and odr = 4
      and act = False and u = 210] show ?thesis unfolding Let_def by blast
qed

section \<open>Flow control\<close>

text \<open>Notifications of the TX thread and the callbacks of the stack, once per accepted notification.\<close>

datatype credit_ev = Notify "nat \<Rightarrow> int" | SentCb

fun credit_step :: "credit_ev \<Rightarrow> nat \<times> nat \<Rightarrow> nat \<times> nat" where
  "credit_step (Notify resp) (c, fl) =
     (let (ok, c') = tx_notify resp c in (c', if ok then fl + 1 else fl))"
| "credit_step SentCb (c, fl) = (if 0 < fl then (tx_sent_cb c, fl - 1) else (c, fl))"

interpretation credit: step_invariant credit_step "\<lambda>p. fst p + snd p = 2" "\<lambda>_. True"
proof unfold_locales
  fix ev and p :: "nat \<times> nat"
  assume "fst p + snd p = 2"
  then show "fst (credit_step ev p) + snd (credit_step ev p) = 2"
    by (cases "(ev, p)" rule: credit_step.cases) (auto simp: tx_notify_def tx_sent_cb_def Let_def)
qed

text \<open>At most two notifications of the TX thread are in flight, whatever the stack answers and
  whenever its callbacks come: credits and notifications in flight always add up to two.\<close>

theorem tx_in_flight_bounded:
  "let (c, fl) = fold credit_step evs (2, 0) in c + fl = 2"
  using credit.run_keeps [of evs "(2, 0)"] by (simp add: split_beta list_all_iff)

end
