(* ===== verification/Ble_Dump.thy ===== *)
theory Ble_Dump
  imports Log_Recovery Ble_Stream
begin

text \<open>
  The log dump of \<open>src/ble/ble_transport.c\<close>: a request names a session, an offset and a length; the
  dump thread reads chunks of at most 232 bytes and notifies each with its offset, size and a last
  flag, until the range is served, a newer request aborts it, or the link fails. What the session
  store must give is the locale \<open>byte_source\<close>; \<open>imu_log_read_session\<close> provides it.
\<close>

section \<open>The dump thread\<close>

abbreviation DUMP_CHUNK_DATA :: u32 where "DUMP_CHUNK_DATA \<equiv> 232"
abbreviation DUMP_CREDITS :: nat where "DUMP_CREDITS \<equiv> 2"

record dump_st =
  dump_req_session :: u32
  dump_req_off :: u32
  dump_req_len :: u32
  dump_abort :: bool
  dump_sem :: bool
  dump_credits :: nat

definition dump_boot :: dump_st where
  "dump_boot = \<lparr>dump_req_session = 0, dump_req_off = 0, dump_req_len = 0, dump_abort = False,
     dump_sem = False, dump_credits = 0\<rparr>"

definition ble_transport_dump_request :: "u32 \<Rightarrow> u32 \<Rightarrow> u32 \<Rightarrow> dump_st \<Rightarrow> dump_st" where
  "ble_transport_dump_request session off len d =
     d\<lparr>dump_abort := True, dump_req_session := session, dump_req_off := off, dump_req_len := len,
       dump_sem := True\<rparr>"

definition ble_transport_dump_abort :: "dump_st \<Rightarrow> dump_st" where
  "ble_transport_dump_abort d = d\<lparr>dump_abort := True\<rparr>"

definition dump_sent_cb :: "dump_st \<Rightarrow> dump_st" where
  "dump_sent_cb d = d\<lparr>dump_credits := min DUMP_CREDITS (dump_credits d + 1)\<rparr>"

text \<open>A request is taken: the abort flag is cleared, the request copied, the credits made fresh.\<close>

definition dump_take :: "dump_st \<Rightarrow> ((u32 \<times> u32 \<times> u32) \<times> dump_st) option" where
  "dump_take d =
     (if dump_sem d
      then Some ((dump_req_session d, dump_req_off d, dump_req_len d),
                 d\<lparr>dump_sem := False, dump_abort := False, dump_credits := DUMP_CREDITS\<rparr>)
      else None)"

text \<open>
  What the loop meets at its \<open>i\<close>-th chunk: the abort flag as the loop's test reads it, whether a
  credit came within 3 s, what the stack answers to the \<open>j\<close>-th try of the notification, and the
  abort flag as read after that try.
\<close>

record dump_env =
  env_abort :: "nat \<Rightarrow> bool"
  env_slot :: "nat \<Rightarrow> bool"
  env_resp :: "nat \<Rightarrow> nat \<Rightarrow> int"
  env_stop :: "nat \<Rightarrow> nat \<Rightarrow> bool"

datatype dump_end = DDone | DAborted | DReadErr int u32 | DStalled u32 | DSendErr u32 int

fun dump_tries :: "nat \<Rightarrow> (nat \<Rightarrow> int) \<Rightarrow> (nat \<Rightarrow> bool) \<Rightarrow> nat \<Rightarrow> int" where
  "dump_tries 0 resp stop j = resp j"
| "dump_tries (Suc k) resp stop j =
     (if retryable (resp j) \<and> \<not> stop j then dump_tries k resp stop (Suc j) else resp j)"

definition dump_packet :: "u32 \<Rightarrow> int \<Rightarrow> bool \<Rightarrow> u8 list \<Rightarrow> u8 list" where
  "dump_packet off n fin data =
     le32 off @ le16 (of_int n) @ [if fin then 1 else 0, 0] @ take (nat n) data"

text \<open>
  The chunk loop, with fuel; \<open>rd i\<close> is the read of the \<open>i\<close>-th chunk. The packets sent come back with
  the way the loop ended.
\<close>

fun dump_loop ::
  "nat \<Rightarrow> (nat \<Rightarrow> u32 \<Rightarrow> u32 \<Rightarrow> int \<times> u8 list) \<Rightarrow> dump_env \<Rightarrow> nat \<Rightarrow> u32 \<Rightarrow> u32 \<Rightarrow> (u8 list list \<times> dump_end) option" where
  "dump_loop 0 rd env i off remaining = None"
| "dump_loop (Suc k) rd env i off remaining =
     (if remaining = 0 then Some ([], DDone)
      else if env_abort env i then Some ([], DAborted)
      else
        let want = min remaining DUMP_CHUNK_DATA;
            (n, data) = rd i off want
        in if n < 0 then Some ([], DReadErr n off)
           else
             let fin = (n < int (unat want) \<or> of_int n = remaining);
                 pkt = dump_packet off n fin data
             in if \<not> env_slot env i then Some ([], DStalled off)
                else
                  let ret = dump_tries 499 (env_resp env i) (env_stop env i) 0
                  in if ret < 0 then Some ([], DSendErr off ret)
                     else if fin then Some ([pkt], DDone)
                     else map_option (\<lambda>(ps, e). (pkt # ps, e))
                            (dump_loop k rd env (Suc i) (off + of_int n) (remaining - of_int n)))"

text \<open>The line a dump that ends early leaves in the message log.\<close>

definition dump_end_msg :: "dump_end \<Rightarrow> string option" where
  "dump_end_msg e =
     (case e of
        DReadErr n off \<Rightarrow> Some (''dump read error '' @ fmt_d n @ '' at offset '' @ fmt_u off)
      | DStalled off \<Rightarrow> Some (''dump stalled at offset '' @ fmt_u off @ '' '' @
          [CHR 0xE2, CHR 0x80, CHR 0x94] @ '' TX jam, resume'')
      | DSendErr off r \<Rightarrow> Some (''dump aborted at offset '' @ fmt_u off @ '' (err '' @ fmt_d r @ '')'')
      | _ \<Rightarrow> None)"

text \<open>One request from taking it to its end; \<open>logs i\<close> is the log as the \<open>i\<close>-th chunk finds it. The
  loop never needs more fuel than one round for each requested byte and one more.\<close>

definition dump_serve ::
  "'f flash_dev \<Rightarrow> (nat \<Rightarrow> 'f log_st) \<Rightarrow> dump_env \<Rightarrow> u32 \<times> u32 \<times> u32 \<Rightarrow> (u8 list list \<times> dump_end) option" where
  "dump_serve fd logs env req =
     (let (session, off, len) = req
      in dump_loop (unat len + 1) (\<lambda>i. imu_log_read_session fd (logs i) session) env 0 off len)"

section \<open>What the loop needs of the store, and gives the host\<close>

text \<open>The payload and header of a chunk as the host reads them.\<close>

definition chunk_data :: "u8 list \<Rightarrow> u8 list" where
  "chunk_data p = drop 8 p"

definition chunk_last :: "u8 list \<Rightarrow> bool" where
  "chunk_last p \<longleftrightarrow> p ! 6 = 1"

fun chunks_follow :: "u32 \<Rightarrow> u8 list list \<Rightarrow> bool" where
  "chunks_follow off [] = True"
| "chunks_follow off (p # ps) \<longleftrightarrow>
     get_le32 p = off \<and> get_le16 (drop 4 p) = of_nat (length (chunk_data p)) \<and>
     length p \<le> 240 \<and> chunks_follow (off + of_nat (length (chunk_data p))) ps"

lemma dump_packet_fields:
  assumes "n = int (length data)" "length data \<le> 232"
  shows "chunk_data (dump_packet off n fin data) = data" "chunk_last (dump_packet off n fin data) = fin"
    "get_le32 (dump_packet off n fin data) = off"
    "get_le16 (drop 4 (dump_packet off n fin data)) = of_nat (length data)"
    "length (dump_packet off n fin data) \<le> 240"
  using assms by (simp_all add: dump_packet_def chunk_data_def chunk_last_def nth_append)

locale byte_source =
  fixes rd :: "'c \<Rightarrow> u32 \<Rightarrow> u32 \<Rightarrow> int \<times> u8 list"
    and content :: "'c \<Rightarrow> u8 list"
    and ok :: "'c \<Rightarrow> bool"
  assumes rd_slice: "ok c \<Longrightarrow> rd c off len = (let bs = take (unat len) (drop (unat off) (content c)) in (int (length bs), bs))"
    and content_small: "ok c \<Longrightarrow> length (content c) < 2 ^ 31"
begin

text \<open>The slice of the content a request asks for, and one read of the loop.\<close>

definition slice :: "'c \<Rightarrow> u32 \<Rightarrow> u32 \<Rightarrow> u8 list" where
  "slice c off len = take (unat len) (drop (unat off) (content c))"

lemma slice_chunk:
  fixes off rem :: u32
  assumes "ok c" "rem \<noteq> 0"
  defines "want \<equiv> min rem DUMP_CHUNK_DATA"
  defines "bs \<equiv> take (unat want) (drop (unat off) (content c))"
  defines "fin \<equiv> int (length bs) < int (unat want) \<or> of_int (int (length bs)) = rem"
  shows "rd c off want = (int (length bs), bs)" "length bs \<le> 232"
    "fin \<Longrightarrow> slice c off rem = bs"
    "\<not> fin \<Longrightarrow> length bs = 232 \<and> 232 < unat rem \<and> slice c off rem = bs @ slice c (off + 232) (rem - 232)"
proof -
  have w: "unat want = min (unat rem) 232" by (auto simp: want_def min_def word_le_nat_alt)
  show "rd c off want = (int (length bs), bs)" by (simp add: rd_slice [OF assms(1)] bs_def Let_def)
  show "length bs \<le> 232" using w by (simp add: bs_def)
  show "slice c off rem = bs" if fin
  proof (cases "length bs < unat want")
    case True
    then have "length (drop (unat off) (content c)) < unat want" by (simp add: bs_def)
    then show ?thesis using w by (simp add: bs_def slice_def)
  next
    case False
    then have "of_nat (length bs) = rem" using that False unfolding fin_def of_nat_less_iff by simp
    then have "unat rem = length bs" using \<open>length bs \<le> 232\<close> by (auto simp: unat_of_nat_u32)
    then have "unat want = unat rem" using \<open>length bs \<le> 232\<close> w by simp
    then show ?thesis by (simp add: bs_def slice_def)
  qed
  show "length bs = 232 \<and> 232 < unat rem \<and> slice c off rem = bs @ slice c (off + 232) (rem - 232)" if "\<not> fin"
  proof -
    have "length bs \<le> unat want" by (simp add: bs_def)
    then have l: "length bs = unat want" using that unfolding fin_def of_nat_less_iff by linarith
    have big: "232 < unat rem"
    proof (rule ccontr)
      assume "\<not> 232 < unat rem"
      then have "length bs = unat rem" using l w by simp
      then show False using that by (simp add: fin_def)
    qed
    then have l: "length bs = 232" using l w by simp
    then have "unat off + 232 < 2 ^ 32" using content_small [OF assms(1)] by (simp add: bs_def)
    then have "unat (off + 232) = unat off + 232" by (subst unat_add_nowrap) simp_all
    moreover have "unat (rem - 232) = unat rem - 232" using big by (subst unat_sub) (simp_all add: word_le_nat_alt)
    moreover have "take (unat rem) (drop (unat off) (content c)) =
        take 232 (drop (unat off) (content c)) @ take (unat rem - 232) (drop 232 (drop (unat off) (content c)))"
      using big by (metis le_add_diff_inverse less_imp_le take_add)
    ultimately show ?thesis using big l w by (simp add: slice_def bs_def add.commute)
  qed
qed

text \<open>
  Whatever the link does, the packets sent carry a prefix of the slice, in order and with the right
  offsets; the loop returns; if it ended well the slice is complete and exactly the last packet says
  so, and if it stopped early it says at which offset, which is where a new request resumes.
\<close>

definition resumes_at :: "'c \<Rightarrow> u32 \<Rightarrow> u32 \<Rightarrow> u8 list list \<Rightarrow> u32 \<Rightarrow> bool" where
  "resumes_at c off rem ps o' \<longleftrightarrow>
     (let k = of_nat (length (concat (map chunk_data ps)))
      in list_all (\<lambda>p. \<not> chunk_last p) ps \<and> o' = off + k \<and>
         slice c off rem = concat (map chunk_data ps) @ slice c o' (rem - k))"

definition served :: "'c \<Rightarrow> u32 \<Rightarrow> u32 \<Rightarrow> u8 list list \<Rightarrow> dump_end \<Rightarrow> bool" where
  "served c off rem ps e \<longleftrightarrow>
     chunks_follow off ps \<and>
     (case e of
        DDone \<Rightarrow> concat (map chunk_data ps) = slice c off rem \<and>
          map chunk_last ps = (if rem = 0 then [] else replicate (length ps - 1) False @ [True])
      | DReadErr n o' \<Rightarrow> False
      | DAborted \<Rightarrow> \<exists>o'. resumes_at c off rem ps o'
      | DStalled o' \<Rightarrow> resumes_at c off rem ps o'
      | DSendErr o' r \<Rightarrow> r < 0 \<and> resumes_at c off rem ps o')"

lemma resumes_Nil: "resumes_at c off rem [] off"
  by (simp add: resumes_at_def)

lemma resumes_Cons:
  assumes "\<not> chunk_last p" "length (chunk_data p) = 232"
    "slice c off rem = chunk_data p @ slice c (off + 232) (rem - 232)"
    "resumes_at c (off + 232) (rem - 232) ps o'"
  shows "resumes_at c off rem (p # ps) o'"
  using assms by (simp add: resumes_at_def Let_def algebra_simps)

lemma served_Cons:
  assumes "\<not> chunk_last p" "length (chunk_data p) = 232" "get_le32 p = off" "get_le16 (drop 4 p) = 232"
    "length p \<le> 240" "232 < unat rem"
    "slice c off rem = chunk_data p @ slice c (off + 232) (rem - 232)"
    "served c (off + 232) (rem - 232) ps e"
  shows "served c off rem (p # ps) e"
proof -
  have ne: "rem \<noteq> 232" "rem \<noteq> 0" using assms(6) by auto
  note r = resumes_Cons [OF assms(1,2,7)]
  have "map chunk_last ps = replicate (length ps - 1) False @ [True] \<Longrightarrow>
      map chunk_last (p # ps) = replicate (length (p # ps) - 1) False @ [True]"
    using assms(1) by (cases ps) simp_all
  then show ?thesis using assms ne r by (cases e) (auto simp: served_def)
qed

text \<open>One turn of the loop on a source that serves.\<close>

lemma dump_loop_turn:
  fixes off rem :: u32
  assumes "ok c" "rem \<noteq> 0"
  defines "want \<equiv> min rem DUMP_CHUNK_DATA"
  defines "bs \<equiv> take (unat want) (drop (unat off) (content c))"
  defines "fin \<equiv> int (length bs) < int (unat want) \<or> of_int (int (length bs)) = rem"
  shows "dump_loop (Suc k) (\<lambda>_. rd c) env i off rem =
    (let r = dump_tries 499 (env_resp env i) (env_stop env i) 0; p = dump_packet off (int (length bs)) fin bs
     in if env_abort env i then Some ([], DAborted)
        else if \<not> env_slot env i then Some ([], DStalled off)
        else if r < 0 then Some ([], DSendErr off r)
        else if fin then Some ([p], DDone)
        else map_option (\<lambda>(ps, e). (p # ps, e))
               (dump_loop k (\<lambda>_. rd c) env (Suc i) (off + of_nat (length bs)) (rem - of_nat (length bs))))"
  using assms(2) slice_chunk(1) [OF assms(1,2), of off, folded want_def, folded bs_def]
  unfolding fin_def want_def [symmetric] dump_loop.simps(2) Let_def by simp

lemma dump_loop_served:
  assumes "ok c" "unat rem div 232 < k"
  shows "\<exists>ps e. dump_loop k (\<lambda>_. rd c) env i off rem = Some (ps, e) \<and> served c off rem ps e"
  using assms(2)
proof (induction k arbitrary: i off rem)
  case (Suc k)
  show ?case
  proof (cases "rem = 0")
    case True
    then show ?thesis by (simp add: served_def slice_def)
  next
    case False
    define want bs fin where "want = min rem DUMP_CHUNK_DATA"
      and "bs = take (unat want) (drop (unat off) (content c))"
      and "fin \<longleftrightarrow> int (length bs) < int (unat want) \<or> of_int (int (length bs)) = rem"
    note ch = slice_chunk [OF assms(1) False, of off, folded want_def, folded bs_def, folded fin_def]
    note step = dump_loop_turn [OF assms(1) False, of k env i off, folded want_def, folded bs_def, folded fin_def]
    let ?p = "dump_packet off (int (length bs)) fin bs"
    let ?r = "dump_tries 499 (env_resp env i) (env_stop env i) 0"
    note f = dump_packet_fields [OF refl ch(2), of off fin]
    consider "env_abort env i" | "\<not> env_abort env i" "\<not> env_slot env i" | "\<not> env_abort env i" "env_slot env i" "?r < 0"
      | (ended) "\<not> env_abort env i" "env_slot env i" "\<not> ?r < 0" fin
      | (more) "\<not> env_abort env i" "env_slot env i" "\<not> ?r < 0" "\<not> fin" by blast
    then show ?thesis
    proof cases
      case 1
      then show ?thesis using False unfolding step
        by (auto simp: served_def intro!: exI [of _ off] resumes_Nil)
    next
      case ended
      then show ?thesis using False ch(3) f unfolding step by (simp add: served_def)
    next
      case more
      note m = ch(4) [OF more(4)]
      have "unat (rem - 232) = unat rem - 232" using m by (subst unat_sub) (simp_all add: word_le_nat_alt)
      moreover have "unat rem div 232 = Suc ((unat rem - 232) div 232)" using m by (intro le_div_geq) simp_all
      ultimately have "unat (rem - 232) div 232 < k" using Suc.prems by simp
      from Suc.IH [OF this, of "Suc i" "off + 232"] obtain ps e where
        ih: "dump_loop k (\<lambda>_. rd c) env (Suc i) (off + 232) (rem - 232) = Some (ps, e)"
        "served c (off + 232) (rem - 232) ps e" by blast
      have "served c off rem (?p # ps) e"
        using more(4) m f ih(2) by (intro served_Cons) simp_all
      then show ?thesis using more ih(1) m unfolding step by simp
    next
      case 2
      then show ?thesis unfolding step by (simp add: served_def resumes_Nil)
    next
      case 3
      then show ?thesis unfolding step by (simp add: served_def resumes_Nil)
    qed
  qed
qed simp

end

section \<open>The session log as a source\<close>

text \<open>A log state with what it refines: the flash device and its image, and the history.\<close>

record 'f dump_source =
  src_dev :: "'f flash_dev"
  src_img :: "'f \<Rightarrow> nat \<Rightarrow> u8"
  src_log :: "'f log_st"
  src_hist :: "imu_sample list"
  src_seq :: u32

definition source_ok :: "'f dump_source \<Rightarrow> bool" where
  "source_ok c \<longleftrightarrow> dir_dev (src_dev c) (src_img c) \<and> log_inv (src_img c) (src_log c) (src_hist c) \<and>
     length (src_hist c) < 2 ^ 28"

text \<open>What a session still has in the ring; nothing for a session that is not there.\<close>

definition session_bytes :: "'f flash_dev \<Rightarrow> 'f log_st \<Rightarrow> imu_sample list \<Rightarrow> u32 \<Rightarrow> u8 list" where
  "session_bytes fd st hist sq =
     (case find_session fd st sq of
        None \<Rightarrow> []
      | Some e \<Rightarrow> window_bytes hist (max (unat (de_start_rec e)) (length hist - CAP))
          (unat (de_start_rec e) + unat (de_rec_count e)))"

definition source_read :: "'f dump_source \<Rightarrow> u32 \<Rightarrow> u32 \<Rightarrow> int \<times> u8 list" where
  "source_read c = imu_log_read_session (src_dev c) (src_log c) (src_seq c)"

definition source_bytes :: "'f dump_source \<Rightarrow> u8 list" where
  "source_bytes c = session_bytes (src_dev c) (src_log c) (src_hist c) (src_seq c)"

lemma read_any_session:
  assumes "dir_dev fd img" "log_inv img st hist" "length hist < 2 ^ 28"
  shows "imu_log_read_session fd st sq off len =
    (let bs = take (unat len) (drop (unat off) (session_bytes fd st hist sq)) in (int (length bs), bs))"
proof (cases "find_session fd st sq")
  case None
  then show ?thesis by (simp add: imu_log_read_session_def session_bytes_def)
next
  case (Some e)
  obtain i x where x: "dir_map img (flash st) i = Some x" "e = (if running st i then x\<lparr>de_rec_count := cur_count st\<rparr> else x)"
    using find_sessionD [OF assms(1) Some] by blast
  have "unat (de_start_rec e) + unat (de_rec_count e) \<le> length hist"
    unfolding x(2) by (rule found_entry_ends [OF assms(2) x(1)])
  then show ?thesis
    using assms(3) Some
      read_session_bytes [OF dir_devD(1,2) [OF assms(1)] log_invD(1) [OF assms(2)] Some, where len = len and off = off]
    by (simp add: session_bytes_def Let_def)
qed

interpretation session_source: byte_source source_read source_bytes source_ok
proof unfold_locales
  fix c :: "'f dump_source" and off len
  assume "source_ok c"
  then show "source_read c off len =
      (let bs = take (unat len) (drop (unat off) (source_bytes c)) in (int (length bs), bs))"
    unfolding source_ok_def source_read_def source_bytes_def by (intro read_any_session) auto
next
  fix c :: "'f dump_source"
  have "length (source_bytes c) \<le> 16 * CAP"
    by (auto simp: source_bytes_def session_bytes_def length_window_bytes split: option.split)
  then show "length (source_bytes c) < 2 ^ 31" by simp
qed

text \<open>The link serves every chunk: no abort, a credit in time, a notification the stack takes.\<close>

definition link_ok :: "dump_env \<Rightarrow> bool" where
  "link_ok env \<longleftrightarrow> (\<forall>i. \<not> env_abort env i \<and> env_slot env i \<and>
     0 \<le> dump_tries 499 (env_resp env i) (env_stop env i) 0)"

lemma link_ok_ends:
  "link_ok env \<Longrightarrow> dump_loop k rd env i off rem = Some (ps, e) \<Longrightarrow> e = DDone \<or> (\<exists>n o'. e = DReadErr n o')"
proof (induction k rd env i off rem arbitrary: ps rule: dump_loop.induct)
  case (2 k rd env i off remaining)
  then show ?case
    by (fastforce simp: link_ok_def Let_def not_less [symmetric] split: if_splits prod.splits)
qed simp

text \<open>The slice of a session that a request asks for.\<close>

definition requested :: "'f flash_dev \<Rightarrow> 'f log_st \<Rightarrow> imu_sample list \<Rightarrow> u32 \<Rightarrow> u32 \<Rightarrow> u32 \<Rightarrow> u8 list" where
  "requested fd st hist sq off len = take (unat len) (drop (unat off) (session_bytes fd st hist sq))"

text \<open>The samples of a session still in the ring; for a listed session, as many as the list says.\<close>

definition session_samples :: "'f flash_dev \<Rightarrow> 'f log_st \<Rightarrow> imu_sample list \<Rightarrow> u32 \<Rightarrow> imu_sample list" where
  "session_samples fd st hist sq =
     (case find_session fd st sq of
        None \<Rightarrow> []
      | Some e \<Rightarrow> drop (max (unat (de_start_rec e)) (length hist - CAP))
          (take (unat (de_start_rec e) + unat (de_rec_count e)) hist))"

lemma session_bytes_samples: "session_bytes fd st hist sq = concat (map enc_sample (session_samples fd st hist sq))"
  by (simp add: session_bytes_def session_samples_def window_bytes_def split: option.split)

lemma listed_samples:
  assumes "dir_dev fd img" "log_inv img st hist" "length hist < 2 ^ 28" "s \<in> set (imu_log_session_list fd mx st)"
  shows "length (session_samples fd st hist (ls_seq s)) = unat (ls_rec_count s)"
  using listed_entry [OF assms] by (auto simp: session_samples_def)

text \<open>A dump the link serves, from its start to its end.\<close>

lemma dump_serves:
  assumes "dir_dev fd img" "log_inv img st hist" "length hist < 2 ^ 28" "link_ok env"
  shows "\<exists>ps. dump_serve fd (\<lambda>_. st) env (sq, off, len) = Some (ps, DDone) \<and> chunks_follow off ps \<and>
    concat (map chunk_data ps) = requested fd st hist sq off len"
proof -
  let ?c = "\<lparr>src_dev = fd, src_img = img, src_log = st, src_hist = hist, src_seq = sq\<rparr>"
  have ok: "source_ok ?c" using assms(1-3) by (simp add: source_ok_def)
  have fuel: "unat len div 232 < unat len + 1" by (metis Suc_eq_plus1 div_le_dividend le_imp_less_Suc)
  obtain ps e where run: "dump_loop (unat len + 1) (\<lambda>_. source_read ?c) env 0 off len = Some (ps, e)"
    "session_source.served ?c off len ps e"
    using session_source.dump_loop_served [OF ok fuel] by blast
  have "e = DDone" using link_ok_ends [OF assms(4) run(1)] run(2) by (auto simp: session_source.served_def)
  then show ?thesis using run
    by (intro exI [of _ ps]) (simp add: dump_serve_def source_read_def session_source.served_def
        session_source.slice_def requested_def source_bytes_def)
qed

text \<open>C15: A dump of a log that stays as it is always ends, whatever the link does. The packets carry
  consecutive offsets from the requested one and at most 232 bytes each. If the dump ends well, which
  it does when the link serves every chunk, they carry exactly the requested part of the session and
  only the last one has the last flag; if it is aborted, stalls or fails, they carry the part before
  some offset (the reported one), none has the last flag, and a request from there gives the rest.\<close>

theorem dump_serves_session:
  fixes sq off len
  assumes "dir_dev fd img" "log_inv img st hist" "length hist < 2 ^ 28"
  defines "R \<equiv> requested fd st hist sq"
  shows "\<exists>ps e. dump_serve fd (\<lambda>_. st) env (sq, off, len) = Some (ps, e) \<and> chunks_follow off ps \<and>
    (link_ok env \<longrightarrow> e = DDone) \<and>
    (let sent = concat (map chunk_data ps); k = of_nat (length sent)
     in case e of
          DDone \<Rightarrow> sent = R off len \<and>
            map chunk_last ps = (if len = 0 then [] else replicate (length ps - 1) False @ [True])
        | DReadErr n o' \<Rightarrow> False
        | DAborted \<Rightarrow> \<not> list_ex chunk_last ps \<and> R off len = sent @ R (off + k) (len - k)
        | DStalled o' \<Rightarrow> \<not> list_ex chunk_last ps \<and> o' = off + k \<and> R off len = sent @ R o' (len - k)
        | DSendErr o' r \<Rightarrow> r < 0 \<and> \<not> list_ex chunk_last ps \<and> o' = off + k \<and> R off len = sent @ R o' (len - k))"
proof -
  let ?c = "\<lparr>src_dev = fd, src_img = img, src_log = st, src_hist = hist, src_seq = sq\<rparr>"
  have ok: "source_ok ?c" using assms(1-3) by (simp add: source_ok_def)
  have fuel: "unat len div 232 < unat len + 1" by (metis Suc_eq_plus1 div_le_dividend le_imp_less_Suc)
  obtain ps e where run: "dump_loop (unat len + 1) (\<lambda>_. source_read ?c) env 0 off len = Some (ps, e)"
    "session_source.served ?c off len ps e"
    using session_source.dump_loop_served [OF ok fuel] by blast
  have slice: "session_source.slice ?c = R"
    by (simp add: fun_eq_iff session_source.slice_def R_def requested_def source_bytes_def)
  have sv: "dump_serve fd (\<lambda>_. st) env (sq, off, len) = Some (ps, e)"
    using run(1) by (simp add: dump_serve_def source_read_def)
  have "link_ok env \<longrightarrow> e = DDone"
    using link_ok_ends [OF _ run(1)] run(2) by (auto simp: session_source.served_def)
  then show ?thesis
    using run(2) sv
    by (intro exI [of _ ps] exI [of _ e])
       (cases e; auto simp: session_source.served_def session_source.resumes_at_def slice Let_def
         list_all_iff list_ex_iff)
qed

definition good_link :: dump_env where
  "good_link = \<lparr>env_abort = \<lambda>_. False, env_slot = \<lambda>_. True, env_resp = \<lambda>_ _. 0, env_stop = \<lambda>_ _. False\<rparr>"

lemma good_link_ok: "link_ok good_link"
proof -
  have "dump_tries k (\<lambda>_. 0) stop j = 0" for k stop j
    by (cases k) (simp_all add: retryable_def)
  then show ?thesis by (simp add: link_ok_def good_link_def)
qed

theorem dump_serves_session_witness:
  "\<exists>ps. dump_serve ram_flash (\<lambda>_. short_drained) good_link (1, 4, 100) = Some (ps, DDone) \<and>
     concat (map chunk_data ps) = requested ram_flash short_drained [zero_sample] 1 4 100"
  using dump_serves_session [OF ram_flash_dir_dev conjunct1 [OF short_drained_facts], of good_link 1 4 100]
    good_link_ok by auto

section \<open>Credits across requests\<close>

text \<open>The credits and the notifications in flight: a request taken, a chunk sent when a credit is
  there, a callback of the stack for one that is out.\<close>

datatype dump_ev = DumpRequest u32 u32 u32 | DumpTake | DumpSend | DumpSentCb

fun dump_step :: "dump_ev \<Rightarrow> dump_st \<times> nat \<Rightarrow> dump_st \<times> nat" where
  "dump_step (DumpRequest s off len) (d, fl) = (ble_transport_dump_request s off len d, fl)"
| "dump_step DumpTake (d, fl) = (case dump_take d of None \<Rightarrow> (d, fl) | Some (_, d') \<Rightarrow> (d', fl))"
| "dump_step DumpSend (d, fl) =
     (if 0 < dump_credits d then (d\<lparr>dump_credits := dump_credits d - 1\<rparr>, fl + 1) else (d, fl))"
| "dump_step DumpSentCb (d, fl) = (if 0 < fl then (dump_sent_cb d, fl - 1) else (d, fl))"

text \<open>Fresh credits for every request do not bound what is in flight: when requests abort one
  another before the stack has called back, k of them put two notifications each in flight.\<close>

theorem dump_credits_not_a_bound:
  "snd (fold dump_step (concat (replicate k [DumpRequest s off len, DumpTake, DumpSend, DumpSend])) (dump_boot, 0))
     = 2 * k"
proof -
  have one: "\<exists>d'. fold dump_step [DumpRequest s off len, DumpTake, DumpSend, DumpSend] (d, fl) = (d', fl + 2)" for d fl
    by (simp add: ble_transport_dump_request_def dump_take_def)
  have "snd (fold dump_step (concat (replicate k [DumpRequest s off len, DumpTake, DumpSend, DumpSend])) (d, fl))
      = fl + 2 * k" for d fl
  proof (induction k arbitrary: d fl)
    case (Suc k)
    obtain d' where d': "fold dump_step [DumpRequest s off len, DumpTake, DumpSend, DumpSend] (d, fl) = (d', fl + 2)"
      using one by blast
    have "fold dump_step (concat (replicate (Suc k) [DumpRequest s off len, DumpTake, DumpSend, DumpSend])) (d, fl) =
        fold dump_step (concat (replicate k [DumpRequest s off len, DumpTake, DumpSend, DumpSend])) (d', fl + 2)"
      by (simp only: replicate_Suc concat.simps fold_append comp_apply d')
    then show ?case using Suc.IH [of d' "fl + 2"] by simp
  qed simp
  then show ?thesis by simp
qed

section \<open>A dump of a session that is still wrapping\<close>

lemma running_session_bytes:
  assumes dev: "dir_dev fd img" and inv: "log_inv img st hist" and act: "active st"
  shows "session_bytes fd st hist (cur_seq st) =
    concat (map enc_sample (drop (max (unat (cur_start st)) (length hist - CAP)) hist))"
proof -
  obtain e where e: "dir_map img (flash st) (cur_slot st) = Some e" "de_seq e = cur_seq st"
      "de_start_rec e = cur_start st" "unat (cur_start st) + unat (cur_count st) = length hist"
    using log_invD(3,5) [OF inv] act by (auto simp: dir_ok_def session_ok_def)
  have "find_session fd st (de_seq e) = Some (e\<lparr>de_rec_count := cur_count st\<rparr>)"
    using find_session_dir [OF dev _ e(1)] log_invD(3) [OF inv] act by (simp add: dir_ok_def running_def)
  then show ?thesis using e by (simp add: session_bytes_def window_bytes_def)
qed

text \<open>C40: Offsets of a dump are relative to the oldest record of the session that is left, and that
  moves while the session is still running and longer than the ring: after the writer has persisted
  k more records, the same offset names the byte 16 k further on. Between two chunks of one dump these
  bytes are skipped, with no gap in the offsets.\<close>

theorem dump_offset_shifts:
  fixes off len :: u32
  assumes dev: "dir_dev fd img" and inv: "log_inv img (fst s) hist" and act: "active (fst s)"
    and evs: "\<forall>ev \<in> set evs. session_ev ev" "log_rooms fd evs s"
    and s2: "s2 = log_run fd evs s" and taken: "taken = log_taken fd evs s"
    and idle: "staged (fst s) = []" "staged (fst s2) = []"
    and full: "CAP + unat (cur_start (fst s)) \<le> length hist" "length hist + length taken < 2 ^ 28"
  defines "B \<equiv> session_bytes fd (fst s) hist (cur_seq (fst s))"
  shows "imu_log_read_session fd (fst s2) (cur_seq (fst s)) off len =
    (let bs = take (unat len) (drop (unat off + 16 * length taken) (B @ concat (map enc_sample taken)))
     in (int (length bs), bs))"
proof -
  have run: "same_session (fst s) (fst s2)" "log_hists fd evs s hist = hist @ taken"
    using session_run [OF dev inv evs(2,1) act, folded s2 taken] idle by simp_all
  have inv2: "log_inv img (fst s2) (hist @ taken)"
    using log_run_keeps_inv [OF dev inv evs(2)] run(2) by (simp add: s2)
  have act2: "active (fst s2)" "cur_seq (fst s2) = cur_seq (fst s)" "cur_start (fst s2) = cur_start (fst s)"
    using run(1) act by (simp_all add: same_session_def)
  have m: "max (unat (cur_start (fst s))) (length hist - CAP) = length hist - CAP"
    "max (unat (cur_start (fst s))) (length hist + length taken - CAP) = length taken + (length hist - CAP)"
    using full(1) by simp_all
  have B: "B = concat (map enc_sample (drop (length hist - CAP) hist))"
    unfolding B_def running_session_bytes [OF dev inv act] m ..
  have le: "length taken + (length hist - CAP) \<le> length hist + length taken" by simp
  have "drop (length taken + (length hist - CAP)) (hist @ taken) = drop (length taken) (drop (length hist - CAP) hist @ taken)"
    by (simp flip: drop_drop add: drop_append)
  then have "session_bytes fd (fst s2) (hist @ taken) (cur_seq (fst s)) =
      concat (map enc_sample (drop (length taken) (drop (length hist - CAP) hist @ taken)))"
    using running_session_bytes [OF dev inv2 act2(1)] unfolding act2 length_append m by simp
  also have "\<dots> = drop (16 * length taken) (B @ concat (map enc_sample taken))"
    unfolding B using drop_concat_const [of enc_sample 16 "length taken" "drop (length hist - CAP) hist @ taken"]
    by simp
  finally have sb: "session_bytes fd (fst s2) (hist @ taken) (cur_seq (fst s)) =
      drop (16 * length taken) (B @ concat (map enc_sample taken))" .
  have "length (hist @ taken) < 2 ^ 28" using full(2) by simp
  from read_any_session [OF dev inv2 this, of "cur_seq (fst s)" off len]
  show ?thesis unfolding sb drop_drop .
qed

text \<open>A session that has just filled the ring with blank samples.\<close>

definition full_entry :: dir_entry where
  "full_entry = (start_entry settings_boot 0 1 0)\<lparr>de_rec_count := 43478\<rparr>"

definition full_log :: "(nat \<Rightarrow> u8) log_st" where
  "full_log = (log_boot (snd (entry_write ram_flash (\<lambda>_. 0) 0 full_entry)))\<lparr>total_abs := 43478, seq_next := 2,
     active := True, cur_seq := 1, cur_count := 43478, last_dir_refresh := 43478\<rparr>"

lemma full_log_inv: "log_inv (\<lambda>m. m) full_log (replicate CAP zero_sample)"
proof -
  obtain f' where f': "entry_write ram_flash (\<lambda>_. 0) 0 full_entry = (0, f')"
    "dir_map (\<lambda>m. m) f' = [0 \<mapsto> full_entry]" "same_outside (\<lambda>m. m) LOG_LO LOG_DATA (\<lambda>_. 0) f'"
    using entry_write_dir [OF ram_flash_dir_dev, of 0 "\<lambda>_. 0" full_entry] empty_dir
    by (auto simp: full_entry_def start_entry_def)
  have fl: "flash full_log = f'" by (simp add: full_log_def log_boot_def f'(1))
  have "rec_cell (\<lambda>m. m) f' k = replicate 16 0" for k
    unfolding rec_cell_outside [OF f'(3)] rec_cell_def by (simp add: list_eq_iff_nth_eq)
  moreover have "enc_sample zero_sample = replicate 16 0" by code_simp
  ultimately have "log_rel (\<lambda>m. m) full_log (replicate CAP zero_sample)"
    by (simp add: log_rel_def holds_last_def fl) (simp add: full_log_def log_boot_def)
  moreover have "stage_ok full_log" by (simp add: stage_ok_def full_log_def log_boot_def)
  moreover have "dir_ok (\<lambda>m. m) full_log"
    unfolding dir_ok_def fl f'(2)
    by (auto simp: dir_entries_ok_def session_ok_def dir_covers_def running_def entry_end_def full_entry_def
        start_entry_def full_log_def log_boot_def)
  ultimately show ?thesis by (simp add: log_inv_def)
qed

lemma append_drain_one:
  assumes inv: "log_inv (\<lambda>m. m) (fst s) hist" and act: "active (fst s)" "staged (fst s) = []"
    and room: "log_room (LAppend [x]) (fst s)" "unat (total_abs (fst s)) + 256 < 2 ^ 28"
  shows "log_rooms ram_flash [LAppend [x], LDrain 0] s \<and>
    staged (fst (log_run ram_flash [LAppend [x], LDrain 0] s)) = [] \<and>
    log_taken ram_flash [LAppend [x], LDrain 0] s = [x]"
proof -
  obtain st1 ms1 where s: "s = (st1, ms1)" by force
  obtain st2 ms2 where p2: "log_exec ram_flash (LAppend [x]) s = (st2, ms2)" by force
  obtain st3 ms3 where p3: "writer_step ram_flash 0 (st2, ms2) = (st3, ms3)" by force
  have st2: "log_inv (\<lambda>m. m) st2 hist" "active st2" "staged st2 = [x]"
    using log_exec_inv [OF ram_flash_dir_dev inv room(1)] session_ev_step [OF ram_flash_dir_dev inv room(1) _ act(1)]
      act by (simp_all add: p2 same_session_def)
  have tot: "total_abs st2 = total_abs st1"
    using log_invD(5) [OF inv] log_invD(5) [OF st2(1)] by (simp add: s word_unat_eq_iff)
  have l: "unat (stage_head st2 - stage_tail st2) = 1"
    using stage_okD(6) [OF log_invD(2) [OF st2(1)]] st2(3) by simp
  then have "stage_head st2 \<noteq> stage_tail st2" by auto
  then have n: "unat (drain_count st2) = 1"
    using drain_count_bounds(1) [of st2] drain_count_pos [of st2] l by linarith
  have "staged st3 = drop 1 [x]"
    using drain_inv [OF ram_flash_dir_dev st2(1) _ p3] n st2 room(2) by (simp add: s tot)
  then have "staged (fst (log_run ram_flash [LAppend [x], LDrain 0] s)) = []" by (simp add: p2 p3)
  moreover have "log_room (LDrain 0) (fst (log_exec ram_flash (LAppend [x]) s))"
    using room(2) unfolding p2 by (simp add: tot s)
  ultimately show ?thesis using room act(2) by simp
qed

theorem dump_offset_shifts_witness:
  fixes x :: imu_sample
  defines "x \<equiv> zero_sample\<lparr>s_ax := 7\<rparr>"
  defines "s2 \<equiv> log_run ram_flash [LAppend [x], LDrain 0] (full_log, msg_boot)"
  shows "snd (imu_log_read_session ram_flash (fst s2) 1 (16 * 43477) 16) = enc_sample x"
proof -
  let ?s = "(full_log, msg_boot)" and ?h = "replicate CAP zero_sample" and ?evs = "[LAppend [x], LDrain 0]"
  have st: "active full_log" "staged full_log = []" "cur_seq full_log = 1" "cur_start full_log = 0"
    "stage_head full_log = 0" "total_abs full_log = 43478"
    by (simp_all add: full_log_def log_boot_def staged_def ring_contents_def)
  have inv: "log_inv (\<lambda>m. m) (fst ?s) ?h" using full_log_inv by simp
  have one: "log_rooms ram_flash ?evs ?s" "staged (fst s2) = []" "[x] = log_taken ram_flash ?evs ?s"
    using append_drain_one [OF inv] st by (simp_all add: s2_def)
  have sess: "\<forall>ev \<in> set ?evs. session_ev ev" by simp
  let ?B = "session_bytes ram_flash full_log ?h 1"
  have "?B = concat (map enc_sample ?h)"
    using running_session_bytes [OF ram_flash_dir_dev full_log_inv st(1)] st by simp
  then have lenB: "length ?B = 16 * CAP" using length_concat_const [of ?h enc_sample 16] by simp
  have act: "active (fst ?s)" "staged (fst ?s) = []" "cur_seq (fst ?s) = 1" using st by simp_all
  have full: "CAP + unat (cur_start (fst ?s)) \<le> length ?h" "length ?h + length [x] < 2 ^ 28" using st by simp_all
  from dump_offset_shifts [OF ram_flash_dir_dev inv act(1) sess one(1) s2_def [THEN meta_eq_to_obj_eq] one(3) act(2) one(2) full,
      where off = "16 * 43477" and len = 16, unfolded act(3)]
  show ?thesis using lenB by (simp add: Let_def)
qed

section \<open>A dump always ends\<close>

lemma read_ring_count:
  "fst (read_ring fd f a len dn out) < 0 \<or> fst (read_ring fd f a len dn out) = int (unat (dn + len))"
proof (induction fd f a len dn out rule: read_ring.induct)
  case (1 fd f a len dn out)
  then show ?case by (subst (1 2) read_ring.simps) (auto simp: Let_def split: prod.split)
qed

lemma read_session_count: "fst (imu_log_read_session fd st sq off len) \<le> int (unat len)"
proof -
  have "fst (read_ring fd f a (min len x) 0 []) \<le> int (unat len)" for f a x
  proof -
    have "unat (min len x) \<le> unat len" by (auto simp: min_def word_le_nat_alt)
    then show ?thesis using read_ring_count [of fd f a "min len x" 0 "[]", unfolded add_0] by linarith
  qed
  then show ?thesis by (simp add: imu_log_read_session_def Let_def split: option.split)
qed

lemma dump_loop_ends:
  assumes "\<And>i off len. fst (rd i off len) \<le> int (unat len)" "unat rem div 232 < k"
  shows "\<exists>ps e. dump_loop k rd env i off rem = Some (ps, e) \<and> length ps \<le> unat rem div 232 + 1"
  using assms(2)
proof (induction k arbitrary: i off rem)
  case (Suc k)
  obtain n data where rd: "rd i off (min rem DUMP_CHUNK_DATA) = (n, data)" by force
  have w: "unat (min rem DUMP_CHUNK_DATA) = min (unat rem) 232" by (auto simp: min_def word_le_nat_alt)
  have n: "n \<le> int (min (unat rem) 232)" using assms(1) [of i off "min rem DUMP_CHUNK_DATA"] rd w by simp
  show ?case
  proof (cases "rem = 0 \<or> env_abort env i \<or> n < 0 \<or> \<not> env_slot env i \<or>
      n < int (unat (min rem DUMP_CHUNK_DATA)) \<or> of_int n = rem \<or>
      dump_tries 499 (env_resp env i) (env_stop env i) 0 < 0")
    case True
    then show ?thesis using rd by (auto simp: Let_def)
  next
    case False
    then have nw: "n = int (min (unat rem) 232)" using n w by linarith
    have big: "232 < unat rem"
    proof (rule ccontr)
      assume "\<not> 232 < unat rem"
      then have "n = int (unat rem)" using nw by simp
      then show False using False by simp
    qed
    then have 232: "n = 232" using nw by simp
    have sub: "unat (rem - 232) = unat rem - 232" using big by (subst unat_sub) (simp_all add: word_le_nat_alt)
    have d: "unat rem div 232 = Suc ((unat rem - 232) div 232)" using big by (intro le_div_geq) simp_all
    obtain ps e where IH: "dump_loop k rd env (Suc i) (off + 232) (rem - 232) = Some (ps, e)"
      "length ps \<le> unat (rem - 232) div 232 + 1"
      using Suc.IH [of "rem - 232" "Suc i" "off + 232"] Suc.prems d sub by auto
    then show ?thesis using False rd 232 d sub by (auto simp: Let_def)
  qed
qed simp

text \<open>C25: Every dump request ends. Whatever the flash returns, however the link refuses, stalls or aborts and
  however the log changes meanwhile, the loop returns within one round for every requested byte and one
  more, having sent at most one packet for each 232 bytes asked for and one more.\<close>

theorem dump_always_ends:
  "case dump_serve fd logs env (session, off, len) of
     None \<Rightarrow> False
   | Some (ps, e) \<Rightarrow> length ps \<le> unat len div 232 + 1"
proof -
  have "unat len div 232 < unat len + 1" by (metis Suc_eq_plus1 div_le_dividend le_imp_less_Suc)
  from dump_loop_ends [of "\<lambda>i. imu_log_read_session fd (logs i) session", OF read_session_count this]
  show ?thesis unfolding dump_serve_def Let_def prod.case by (metis (no_types, lifting) option.simps(5) prod.case)
qed

end
