(* ===== verification/Motor_Drivers.thy ===== *)
theory Motor_Drivers
  imports Prelude
begin

text \<open>
  The small drivers of the motor chain: the rail switch (\<open>driver_stbb1_apur.c\<close>), the bridge's sleep
  pin (\<open>driver_drv8212.c\<close>), the PWM (\<open>driver_pwm.c\<close>) and the rail measurement
  (\<open>driver_vdc_sense.c\<close>). What a Zephyr call returns is an argument; the level of a pin and the
  programmed channels are part of the state.
\<close>

section \<open>Rail and bridge\<close>

record rail_st =
  rail_pin :: bool
  rail_on :: bool

definition drv_stbb1_apur_init :: "bool \<Rightarrow> int \<Rightarrow> rail_st \<Rightarrow> int \<times> rail_st" where
  "drv_stbb1_apur_init ready ret st =
     (if \<not> ready then (- ENODEV, st)
      else if ret < 0 then (ret, st)
      else (0, st\<lparr>rail_pin := False, rail_on := False\<rparr>))"

definition drv_stbb1_apur_set :: "bool \<Rightarrow> rail_st \<Rightarrow> rail_st" where
  "drv_stbb1_apur_set enable st = st\<lparr>rail_pin := enable, rail_on := enable\<rparr>"

record bridge_st =
  sleep_pin :: bool
  drv_awake :: bool

definition drv_drv8212_init :: "bool \<Rightarrow> int \<Rightarrow> bridge_st \<Rightarrow> int \<times> bridge_st" where
  "drv_drv8212_init ready ret st =
     (if \<not> ready then (- ENODEV, st)
      else if ret < 0 then (ret, st)
      else (0, st\<lparr>sleep_pin := False, drv_awake := False\<rparr>))"

definition drv_drv8212_set :: "bool \<Rightarrow> bridge_st \<Rightarrow> bridge_st" where
  "drv_drv8212_set awake st = st\<lparr>sleep_pin := awake, drv_awake := awake\<rparr>"

section \<open>PWM\<close>

abbreviation DRV_PWM_FREQ_MIN_HZ :: u16 where "DRV_PWM_FREQ_MIN_HZ \<equiv> 4"
abbreviation DRV_PWM_FREQ_MAX_HZ :: u16 where "DRV_PWM_FREQ_MAX_HZ \<equiv> 1000"

text \<open>\<open>pwm_chan ch\<close> is what the hardware was last given for a channel, period and pulse in ns.\<close>

record pwm_st =
  period_ns :: u32
  duty_pct :: "u8 list"
  pwm_chan :: "u8 \<Rightarrow> (u32 \<times> u32) option"

definition pwm_boot :: pwm_st where
  "pwm_boot = \<lparr>period_ns = 8849558, duty_pct = [0, 0], pwm_chan = (\<lambda>_. None)\<rparr>"

definition pwm_pulse :: "u32 \<Rightarrow> u8 \<Rightarrow> u32" where
  "pwm_pulse period duty = ucast ((ucast period :: 64 word) * ucast duty div 100)"

fun pwm_apply_from :: "u8 list \<Rightarrow> (u8 \<Rightarrow> int) \<Rightarrow> pwm_st \<Rightarrow> int \<times> pwm_st" where
  "pwm_apply_from [] dev st = (0, st)"
| "pwm_apply_from (ch # chs) dev st =
     (if dev ch < 0 then (dev ch, st)
      else pwm_apply_from chs dev
        (st\<lparr>pwm_chan := (pwm_chan st)(ch := Some (period_ns st, pwm_pulse (period_ns st) (duty_pct st ! unat ch)))\<rparr>))"

definition pwm_apply :: "(u8 \<Rightarrow> int) \<Rightarrow> pwm_st \<Rightarrow> int \<times> pwm_st" where
  "pwm_apply dev st = pwm_apply_from [0, 1] dev st"

definition drv_pwm_init :: "bool \<Rightarrow> (u8 \<Rightarrow> int) \<Rightarrow> pwm_st \<Rightarrow> int \<times> pwm_st" where
  "drv_pwm_init ready dev st =
     (if \<not> ready then (- ENODEV, st)
      else let (ret, st') = pwm_apply dev st in if ret < 0 then (ret, st') else (0, st'))"

definition drv_pwm_set_duty :: "(u8 \<Rightarrow> int) \<Rightarrow> u8 \<Rightarrow> u8 \<Rightarrow> pwm_st \<Rightarrow> int \<times> pwm_st" where
  "drv_pwm_set_duty dev channel percent st =
     (if channel > 1 \<or> percent > 100 then (- EINVAL, st)
      else pwm_apply dev (st\<lparr>duty_pct := (duty_pct st)[unat channel := percent]\<rparr>))"

definition drv_pwm_get_duty :: "u8 \<Rightarrow> pwm_st \<Rightarrow> u8" where
  "drv_pwm_get_duty channel st = (if channel > 1 then 0 else duty_pct st ! unat channel)"

definition drv_pwm_get_frequency :: "pwm_st \<Rightarrow> u16" where
  "drv_pwm_get_frequency st = ucast (1000000000 div period_ns st)"

definition drv_pwm_set_frequency :: "(u8 \<Rightarrow> int) \<Rightarrow> u16 \<Rightarrow> pwm_st \<Rightarrow> int \<times> pwm_st" where
  "drv_pwm_set_frequency dev hz st =
     (if hz < DRV_PWM_FREQ_MIN_HZ \<or> hz > DRV_PWM_FREQ_MAX_HZ then (- EINVAL, st)
      else
        let (ret, st') = pwm_apply dev (st\<lparr>period_ns := 1000000000 div ucast hz\<rparr>)
        in if ret < 0 then (ret, st') else (0, st'))"

text \<open>The PWM is in order: a period of 4 to 1000 Hz (or the boot period), duties in percent.\<close>

definition pwm_ok :: "pwm_st \<Rightarrow> bool" where
  "pwm_ok st \<longleftrightarrow> 1000000 \<le> unat (period_ns st) \<and> unat (period_ns st) \<le> 250000000 \<and>
     length (duty_pct st) = 2 \<and> list_all (\<lambda>d. d \<le> 100) (duty_pct st)"

lemma pwm_apply_value:
  "pwm_apply dev st =
     (if dev 0 < 0 then (dev 0, st)
      else if dev 1 < 0
      then (dev 1, st\<lparr>pwm_chan := (pwm_chan st)(0 := Some (period_ns st, pwm_pulse (period_ns st) (duty_pct st ! 0)))\<rparr>)
      else (0, st\<lparr>pwm_chan := (pwm_chan st)(0 := Some (period_ns st, pwm_pulse (period_ns st) (duty_pct st ! 0)),
              1 := Some (period_ns st, pwm_pulse (period_ns st) (duty_pct st ! 1)))\<rparr>))"
  by (simp add: pwm_apply_def)

lemma pwm_apply_frame:
  assumes "pwm_apply dev st = (ret, st')"
  shows "period_ns st' = period_ns st" "duty_pct st' = duty_pct st"
  using assms by (auto simp: pwm_apply_value split: if_splits)

lemma pwm_pulse_value:
  assumes "d \<le> 100"
  shows "unat (pwm_pulse p d) = unat p * unat d div 100" "pwm_pulse p d \<le> p"
proof -
  have d: "unat d \<le> 100" using assms by (simp add: word_le_nat_alt)
  have p: "unat p < 2 ^ 32" using unat_bound [of p] .
  have u: "unat (ucast p :: 64 word) = unat p" "unat (ucast d :: 64 word) = unat d"
    using p unat_bounds(1) [of d] by (simp_all add: unsigned_ucast_eq take_bit_nat_eq_self)
  have "unat p * unat d \<le> 2 ^ 32 * 100" using d p by (intro mult_mono) simp_all
  then have "unat p * unat d < 2 ^ 64" by simp
  then have m: "unat ((ucast p :: 64 word) * ucast d) = unat p * unat d"
    using u by (simp add: unat_word_ariths)
  have "unat p * unat d \<le> unat p * 100" using d by simp
  then have le: "unat p * unat d div 100 \<le> unat p" by linarith
  have "unat ((ucast p :: 64 word) * ucast d div 100) = unat p * unat d div 100"
    by (simp add: unat_div m)
  then show v: "unat (pwm_pulse p d) = unat p * unat d div 100"
    using le p by (simp add: pwm_pulse_def unsigned_ucast_eq take_bit_nat_eq_self)
  then show "pwm_pulse p d \<le> p" using le by (simp add: word_le_nat_alt)
qed

lemma freq_period:
  fixes hz :: u16
  assumes "4 \<le> hz" "hz \<le> 1000"
  shows "unat (1000000000 div ucast hz :: u32) = 1000000000 div unat hz"
    "1000000 \<le> 1000000000 div unat hz" "1000000000 div unat hz \<le> 250000000"
proof -
  have h: "4 \<le> unat hz" "unat hz \<le> 1000" using assms by (simp_all add: word_le_nat_alt)
  show "unat (1000000000 div ucast hz :: u32) = 1000000000 div unat hz" by (simp add: unat_div)
  show "1000000 \<le> 1000000000 div unat hz"
    using h div_le_mono2 [of "unat hz" 1000 1000000000] by simp
  show "1000000000 div unat hz \<le> 250000000"
    using h div_le_mono2 [of 4 "unat hz" 1000000000] by simp
qed

lemma div_div_self:
  fixes n h :: nat
  assumes "0 < h" "h * h \<le> n"
  shows "n div (n div h) = h"
proof -
  let ?p = "n div h"
  have p: "h \<le> ?p" using assms by (simp add: less_eq_div_iff_mult_less_eq)
  have m: "n mod h < ?p" using p assms(1) by (meson mod_less_divisor order.strict_trans2)
  have "n div ?p = (h * ?p + n mod h) div ?p" by (simp only: mult_div_mod_eq)
  also have "\<dots> = h" using m by (metis div_less div_mult_self3 add.right_neutral not_less_zero)
  finally show ?thesis .
qed

text \<open>Every operation keeps the PWM in order, whatever the hardware answers.\<close>

lemma pwm_apply_ok: "pwm_ok st \<Longrightarrow> pwm_ok (snd (pwm_apply dev st))"
  by (simp add: pwm_apply_value pwm_ok_def)

lemma drv_pwm_ok:
  assumes "pwm_ok st"
  shows "pwm_ok (snd (drv_pwm_init ready dev st))" "pwm_ok (snd (drv_pwm_set_duty dev ch d st))"
    "pwm_ok (snd (drv_pwm_set_frequency dev hz st))"
proof -
  show "pwm_ok (snd (drv_pwm_init ready dev st))"
    using assms pwm_apply_ok [of st dev] by (simp add: drv_pwm_init_def split_beta)
  have "pwm_ok (st\<lparr>duty_pct := (duty_pct st)[unat ch := d]\<rparr>)" if "\<not> d > 100"
    using assms that set_update_subset_insert [of "duty_pct st" "unat ch" d]
    by (auto simp: pwm_ok_def list_all_iff not_less)
  then show "pwm_ok (snd (drv_pwm_set_duty dev ch d st))"
    using assms by (simp add: drv_pwm_set_duty_def pwm_apply_ok)
  have "pwm_ok (st\<lparr>period_ns := 1000000000 div ucast hz\<rparr>)" if "4 \<le> hz" "hz \<le> 1000"
    using assms freq_period [OF that] by (simp add: pwm_ok_def)
  then show "pwm_ok (snd (drv_pwm_set_frequency dev hz st))"
    using assms pwm_apply_ok by (simp add: drv_pwm_set_frequency_def Let_def split_beta not_less)
qed

text \<open>A frequency from 4 to 1000 Hz that the hardware accepts is applied to both channels at their
  duties: the period is a whole number of nanoseconds no longer than 1/hz, each pulse is its percentage
  of the period rounded down, and reading the frequency back gives exactly the one set. Any other
  frequency is refused and changes nothing.\<close>

theorem pwm_frequency_applied:
  assumes ok: "pwm_ok st" and dev: "0 \<le> dev 0" "0 \<le> dev 1"
  shows "if hz \<in> {4..1000}
    then \<exists>st'. drv_pwm_set_frequency dev hz st = (0, st') \<and> pwm_ok st' \<and> drv_pwm_get_frequency st' = hz \<and>
      unat (period_ns st') = 1000000000 div unat hz \<and> duty_pct st' = duty_pct st \<and>
      (\<exists>p0 p1. pwm_chan st' 0 = Some (period_ns st', p0) \<and> pwm_chan st' 1 = Some (period_ns st', p1) \<and>
        unat p0 = unat (period_ns st') * unat (duty_pct st ! 0) div 100 \<and>
        unat p1 = unat (period_ns st') * unat (duty_pct st ! 1) div 100)
    else drv_pwm_set_frequency dev hz st = (- EINVAL, st)"
proof (cases "hz \<in> {4..1000}")
  case True
  then have h: "4 \<le> hz" "hz \<le> 1000" by simp_all
  note fp = freq_period [OF h]
  have hn: "0 < unat hz" "unat hz \<le> 1000" using h by (simp_all add: word_le_nat_alt)
  let ?p = "1000000000 div ucast hz :: u32"
  have d: "duty_pct st ! 0 \<le> 100" "duty_pct st ! 1 \<le> 100"
    using ok by (auto simp: pwm_ok_def list_all_length)
  have sq: "unat hz * unat hz \<le> 1000000000" using mult_mono [of "unat hz" 1000 "unat hz" 1000] hn by simp
  have "unat (1000000000 div ?p) = unat hz" by (simp add: unat_div [of _ ?p] fp(1) div_div_self [OF hn(1) sq])
  then have "ucast (1000000000 div ?p) = hz"
    using unat_ucast_down(2) [of "1000000000 div ?p"] unat_bounds(2) [of hz] by (simp add: word_unat_eq_iff)
  then show ?thesis
    using h dev ok fp pwm_pulse_value [OF d(1), of ?p] pwm_pulse_value [OF d(2), of ?p]
    by (auto simp: drv_pwm_set_frequency_def pwm_apply_value drv_pwm_get_frequency_def pwm_ok_def)
qed (auto simp: drv_pwm_set_frequency_def)

theorem pwm_frequency_applied_witness:
  "\<exists>st'. drv_pwm_set_frequency (\<lambda>_. 0) 150 (pwm_boot\<lparr>duty_pct := [50, 0]\<rparr>) = (0, st') \<and>
     drv_pwm_get_frequency st' = 150 \<and> unat (period_ns st') = 6666666"
  using pwm_frequency_applied [of "pwm_boot\<lparr>duty_pct := [50, 0]\<rparr>" "\<lambda>_. 0" 150]
  by (auto simp: pwm_ok_def pwm_boot_def)

text \<open>When the hardware refuses a frequency, the call reports the error but the driver has already
  taken the new period: the frequency it reports from then on is the refused one, while both channels
  keep what they had.\<close>

theorem pwm_refused_but_reported:
  fixes st
  assumes "hz \<in> {4..1000}" "dev 0 < 0"
  defines "st' \<equiv> snd (drv_pwm_set_frequency dev hz st)"
  shows "fst (drv_pwm_set_frequency dev hz st) = dev 0 \<and> pwm_chan st' = pwm_chan st \<and>
    drv_pwm_get_frequency st' = hz"
proof -
  have h: "4 \<le> hz" "hz \<le> 1000" using assms(1) by simp_all
  have hn: "0 < unat hz" "unat hz \<le> 1000" using h by (simp_all add: word_le_nat_alt)
  let ?p = "1000000000 div ucast hz :: u32"
  have sq: "unat hz * unat hz \<le> 1000000000" using mult_mono [of "unat hz" 1000 "unat hz" 1000] hn by simp
  have "unat (1000000000 div ?p) = unat hz"
    by (simp add: unat_div [of _ ?p] freq_period(1) [OF h] div_div_self [OF hn(1) sq])
  then have "ucast (1000000000 div ?p) = hz"
    using unat_ucast_down(2) [of "1000000000 div ?p"] unat_bounds(2) [of hz] by (simp add: word_unat_eq_iff)
  then show ?thesis
    using h assms(2) by (simp add: not_less [symmetric]) (simp add: st'_def drv_pwm_set_frequency_def pwm_apply_value drv_pwm_get_frequency_def)
qed

theorem pwm_refused_but_reported_witness:
  "drv_pwm_get_frequency (snd (drv_pwm_set_frequency (\<lambda>_. - EIO) 500 pwm_boot)) = 500"
  using pwm_refused_but_reported [of 500 "\<lambda>_. - EIO" pwm_boot] by simp

section \<open>Rail measurement\<close>

definition drv_vdc_sense_init :: "bool \<Rightarrow> int \<Rightarrow> int" where
  "drv_vdc_sense_init ready ret = (if \<not> ready then - ENODEV else if ret < 0 then ret else 0)"

text \<open>\<open>adc\<close> is what \<open>adc_read_dt\<close> returns with the sample, \<open>to_mv\<close> the conversion; a failed call has
  an error below 0.\<close>

definition drv_vdc_sense_read_mv :: "int \<times> 16 word \<Rightarrow> (32 word \<Rightarrow> int \<times> 32 word) \<Rightarrow> int + 32 word" where
  "drv_vdc_sense_read_mv adc to_mv =
     (let (ret, sample) = adc
      in if ret < 0 then Inl ret
         else
           let (ret, val) = to_mv (scast sample)
           in if ret < 0 then Inl ret
              else Inr ((if sint val < 0 then 0 else val) * 2))"

text \<open>The value as the readers clamp it, \<open>(uint16_t)CLAMP(mv, 0, UINT16_MAX)\<close>.\<close>

definition vdc_u16 :: "32 word \<Rightarrow> u16" where
  "vdc_u16 mv = (if sint mv < 0 then 0 else if 65535 < sint mv then 65535 else ucast mv)"

end
