(* ===== verification/Status_Led.thy ===== *)
theory Status_Led
  imports Prelude
begin

text \<open>
  The status LED of \<open>src/drivers/driver_led.c\<close>: a one-shot kernel timer that re-arms itself walks
  through a pattern of pin levels and times. The timer is part of the state, as the delay it was
  armed with; the arrays are selected by the pointer and the length the code keeps beside it.
\<close>

section \<open>State and operations\<close>

abbreviation FLASH_ON_MS :: u16 where "FLASH_ON_MS \<equiv> 3"
abbreviation FLASH_GAP_MS :: u16 where "FLASH_GAP_MS \<equiv> 100"
abbreviation PERIOD_MS :: u16 where "PERIOD_MS \<equiv> 1000"
abbreviation BOOT_PATTERN_REPEATS :: u8 where "BOOT_PATTERN_REPEATS \<equiv> 3"

record blink_step =
  bs_on :: u8
  bs_ms :: u16

definition boot_pattern :: "blink_step list" where
  "boot_pattern = [\<lparr>bs_on = 1, bs_ms = FLASH_ON_MS\<rparr>, \<lparr>bs_on = 0, bs_ms = FLASH_GAP_MS\<rparr>,
     \<lparr>bs_on = 1, bs_ms = FLASH_ON_MS\<rparr>, \<lparr>bs_on = 0, bs_ms = FLASH_GAP_MS\<rparr>,
     \<lparr>bs_on = 1, bs_ms = FLASH_ON_MS\<rparr>,
     \<lparr>bs_on = 0, bs_ms = PERIOD_MS - 3 * FLASH_ON_MS - 2 * FLASH_GAP_MS\<rparr>]"

definition run_pattern :: "blink_step list" where
  "run_pattern = [\<lparr>bs_on = 1, bs_ms = FLASH_ON_MS\<rparr>, \<lparr>bs_on = 0, bs_ms = PERIOD_MS - FLASH_ON_MS\<rparr>]"

datatype led_pattern = BootPattern | RunPattern

fun steps_of :: "led_pattern \<Rightarrow> blink_step list" where
  "steps_of BootPattern = boot_pattern"
| "steps_of RunPattern = run_pattern"

record led_st =
  led_pattern :: led_pattern
  pattern_len :: nat
  step_idx :: nat
  boot_periods_left :: u8
  led_enabled :: bool
  led_pin :: bool
  led_timer :: "u16 option"

definition led_boot :: led_st where
  "led_boot = \<lparr>led_pattern = BootPattern, pattern_len = length boot_pattern, step_idx = 0,
     boot_periods_left = 0, led_enabled = True, led_pin = False, led_timer = None\<rparr>"

text \<open>Show the current step and arm the timer for it: the common end of the callers.\<close>

definition led_show :: "led_st \<Rightarrow> led_st" where
  "led_show st =
     (let s = steps_of (led_pattern st) ! step_idx st
      in st\<lparr>led_pin := bs_on s \<noteq> 0, led_timer := Some (bs_ms s)\<rparr>)"

definition blink_timer_fn :: "led_st \<Rightarrow> led_st" where
  "blink_timer_fn st =
     (let st1 = st\<lparr>step_idx := step_idx st + 1\<rparr>
      in led_show
        (if step_idx st1 \<ge> pattern_len st1
         then
           let st2 = st1\<lparr>step_idx := 0\<rparr>
           in if boot_periods_left st2 > 0
              then let st3 = st2\<lparr>boot_periods_left := boot_periods_left st2 - 1\<rparr>
                   in if boot_periods_left st3 = 0
                      then st3\<lparr>led_pattern := RunPattern, pattern_len := length run_pattern\<rparr>
                      else st3
              else st2
         else st1))"

definition drv_led_init :: "bool \<Rightarrow> int \<Rightarrow> led_st \<Rightarrow> int \<times> led_st" where
  "drv_led_init ready ret st =
     (if \<not> ready then (- ENODEV, st) else if ret < 0 then (ret, st) else (0, st\<lparr>led_pin := True\<rparr>))"

definition drv_led_blink_start :: "led_st \<Rightarrow> led_st" where
  "drv_led_blink_start st =
     led_show (st\<lparr>led_pattern := BootPattern, pattern_len := length boot_pattern,
                 boot_periods_left := BOOT_PATTERN_REPEATS, step_idx := 0\<rparr>)"

definition drv_led_set :: "bool \<Rightarrow> led_st \<Rightarrow> led_st" where
  "drv_led_set on st = st\<lparr>led_timer := None, led_pin := on\<rparr>"

definition drv_led_set_enabled :: "bool \<Rightarrow> led_st \<Rightarrow> led_st" where
  "drv_led_set_enabled enable st =
     (if enable = led_enabled st then st
      else
        let st1 = st\<lparr>led_enabled := enable\<rparr>
        in if enable
           then led_show (st1\<lparr>led_pattern := RunPattern, pattern_len := length run_pattern,
                  boot_periods_left := 0, step_idx := 0\<rparr>)
           else st1\<lparr>led_timer := None, led_pin := False\<rparr>)"

definition drv_led_toggle :: "led_st \<Rightarrow> led_st" where
  "drv_led_toggle st = st\<lparr>led_pin := \<not> led_pin st\<rparr>"

section \<open>Invariant\<close>

datatype led_ev = LedStart | LedTimer | LedSet bool | LedEnable bool | LedToggle

text \<open>The timer fires only while it is armed.\<close>

fun led_exec :: "led_ev \<Rightarrow> led_st \<Rightarrow> led_st" where
  "led_exec LedStart st = drv_led_blink_start st"
| "led_exec LedTimer st = (if led_timer st = None then st else blink_timer_fn st)"
| "led_exec (LedSet on) st = drv_led_set on st"
| "led_exec (LedEnable on) st = drv_led_set_enabled on st"
| "led_exec LedToggle st = drv_led_toggle st"

definition led_ok :: "led_st \<Rightarrow> bool" where
  "led_ok st \<longleftrightarrow> pattern_len st = length (steps_of (led_pattern st)) \<and>
     step_idx st < pattern_len st \<and> boot_periods_left st \<le> 3 \<and>
     (boot_periods_left st = 0 \<or> led_pattern st = BootPattern) \<and>
     (led_timer st = None \<or> led_timer st = Some (bs_ms (steps_of (led_pattern st) ! step_idx st)))"

lemma pattern_lengths [simp]: "length boot_pattern = 6" "length run_pattern = 2" "boot_pattern \<noteq> []" "run_pattern \<noteq> []"
  by (simp_all add: boot_pattern_def run_pattern_def)

lemma led_show_ok:
  "led_ok (st\<lparr>led_timer := None\<rparr>) \<Longrightarrow> led_ok (led_show st)"
  by (simp add: led_ok_def led_show_def Let_def)

lemma blink_timer_ok:
  assumes "led_ok st"
  shows "led_ok (blink_timer_fn st)"
proof -
  have "boot_periods_left st - 1 \<le> 3" if "0 < boot_periods_left st"
    using assms that by (auto simp: led_ok_def word_le_nat_alt word_less_nat_alt unat_sub_if_size)
  then show ?thesis
    using assms unfolding blink_timer_fn_def Let_def
    by (intro led_show_ok) (auto simp: led_ok_def)
qed

lemma led_exec_ok: "led_ok st \<Longrightarrow> led_ok (led_exec ev st)"
proof (cases ev)
  case LedStart
  then show ?thesis by (auto simp: drv_led_blink_start_def intro!: led_show_ok) (simp add: led_ok_def)
next
  case (LedEnable on)
  assume "led_ok st"
  then show ?thesis using LedEnable
    by (auto simp: drv_led_set_enabled_def Let_def intro!: led_show_ok) (auto simp: led_ok_def)
next
  case LedTimer
  assume "led_ok st"
  then show ?thesis using LedTimer by (simp add: blink_timer_ok)
qed (auto simp: drv_led_set_def drv_led_toggle_def led_ok_def)

interpretation leds: step_invariant led_exec led_ok "\<lambda>_. True"
  by unfold_locales (rule led_exec_ok)

text \<open>In whatever order the LED calls and the timer come, the step index stays inside the pattern the
  pointer selects, whose length is the one kept beside it, so the timer never reads past an array.\<close>

theorem led_index_in_pattern:
  "let st = fold led_exec evs led_boot
   in step_idx st < length (steps_of (led_pattern st)) \<and> pattern_len st = length (steps_of (led_pattern st))"
  using leds.run_keeps [of evs led_boot] by (simp add: led_ok_def led_boot_def list_all_iff)

section \<open>What is seen\<close>

text \<open>The steps shown by the timer from a state on: the one that is on, then one per firing.\<close>

fun led_trace :: "nat \<Rightarrow> led_st \<Rightarrow> blink_step list" where
  "led_trace 0 st = []"
| "led_trace (Suc n) st = steps_of (led_pattern st) ! step_idx st # led_trace n (blink_timer_fn st)"

lemma led_trace_add: "led_trace (m + n) st = led_trace m st @ led_trace n ((blink_timer_fn ^^ m) st)"
  by (induction m arbitrary: st) (simp_all add: funpow_swap1)

lemmas blink_defs = blink_timer_fn_def led_show_def boot_pattern_def run_pattern_def

text \<open>One period of the boot pattern, and of the running pattern.\<close>

lemma boot_period:
  assumes "led_pattern st = BootPattern" "pattern_len st = 6" "step_idx st = 0" "0 < boot_periods_left st"
  shows "led_trace 6 st = boot_pattern \<and> step_idx ((blink_timer_fn ^^ 6) st) = 0 \<and>
    boot_periods_left ((blink_timer_fn ^^ 6) st) = boot_periods_left st - 1 \<and>
    led_pattern ((blink_timer_fn ^^ 6) st) = (if boot_periods_left st = 1 then RunPattern else BootPattern) \<and>
    pattern_len ((blink_timer_fn ^^ 6) st) = (if boot_periods_left st = 1 then 2 else 6)"
  using assms by (simp add: eval_nat_numeral blink_defs Let_def)

lemma run_period:
  assumes "led_pattern st = RunPattern" "pattern_len st = 2" "step_idx st = 0" "boot_periods_left st = 0"
  shows "led_trace 2 st = run_pattern \<and> step_idx ((blink_timer_fn ^^ 2) st) = 0 \<and>
    boot_periods_left ((blink_timer_fn ^^ 2) st) = 0 \<and>
    led_pattern ((blink_timer_fn ^^ 2) st) = RunPattern \<and> pattern_len ((blink_timer_fn ^^ 2) st) = 2"
  using assms by (simp add: eval_nat_numeral blink_defs Let_def)

lemma run_periods:
  assumes "led_pattern st = RunPattern" "pattern_len st = 2" "step_idx st = 0" "boot_periods_left st = 0"
  shows "led_trace (2 * k) st = concat (replicate k run_pattern)"
  using assms
proof (induction k arbitrary: st)
  case (Suc k)
  have "2 * Suc k = 2 + 2 * k" by simp
  then show ?case using run_period [OF Suc.prems] Suc.IH by (simp only: led_trace_add) simp
qed simp


end
