(* ===== verification/Binary32.thy ===== *)
theory Binary32
  imports Complex_Main "HOL-Library.Log_Nat"
begin

text \<open>
  Single-precision arithmetic of the digipot driver. A finite \<open>float\<close> is the rational number it
  stands for; an operation is the exact one followed by \<open>rnd32\<close>, rounding to nearest, ties to even,
  on the grid of 24 significant bits with the subnormal floor of exponent -126. Overflow does not
  occur in the ranges the driver computes in and is not modelled. Proofs use only the error bound,
  so they also hold when a compiler fuses a product and a sum into one rounding.
\<close>

text \<open>The binary exponent, \<open>2 ^ e \<le> |x| < 2 ^ (e + 1)\<close>.\<close>

definition bexp :: "rat \<Rightarrow> int" where
  "bexp x =
     (let (a, b) = quotient_of \<bar>x\<bar>; k = bitlen a - bitlen b
      in if 2 powi k \<le> \<bar>x\<bar> then k else k - 1)"

definition rne :: "rat \<Rightarrow> int" where
  "rne y =
     (let f = \<lfloor>y\<rfloor>; r = y - of_int f
      in if r < 1 / 2 \<or> r = 1 / 2 \<and> even f then f else f + 1)"

definition ulp32 :: "rat \<Rightarrow> rat" where
  "ulp32 x = 2 powi (max (bexp x) (- 126) - 23)"

definition rnd32 :: "rat \<Rightarrow> rat" where
  "rnd32 x = (if x = 0 then 0 else of_int (rne (x / ulp32 x)) * ulp32 x)"

lemma rne_error: "\<bar>of_int (rne y) - y\<bar> \<le> 1 / 2"
proof -
  define r where "r = y - of_int \<lfloor>y\<rfloor>"
  have r: "0 \<le> r" "r < 1" "y = of_int \<lfloor>y\<rfloor> + r" unfolding r_def by linarith+
  have v: "rne y = (if r < 1 / 2 \<or> r = 1 / 2 \<and> even \<lfloor>y\<rfloor> then \<lfloor>y\<rfloor> else \<lfloor>y\<rfloor> + 1)"
    by (simp add: rne_def r_def Let_def)
  show ?thesis
  proof (cases "r < 1 / 2 \<or> r = 1 / 2 \<and> even \<lfloor>y\<rfloor>")
    case True
    then have "rne y = \<lfloor>y\<rfloor>" "r \<le> 1 / 2" using v by auto
    then show ?thesis using r by simp
  next
    case False
    then have "rne y = \<lfloor>y\<rfloor> + 1" "1 / 2 \<le> r" using v by (auto simp: not_less)
    then show ?thesis using r by simp
  qed
qed

lemma rne_nonneg: "0 \<le> y \<Longrightarrow> 0 \<le> rne y"
  by (simp add: rne_def Let_def)

lemma bexp_lower:
  assumes "x \<noteq> 0"
  shows "2 powi bexp x \<le> \<bar>x\<bar>"
proof -
  obtain a b where q: "quotient_of \<bar>x\<bar> = (a, b)" by force
  have x: "\<bar>x\<bar> = of_int a / of_int b" and b: "0 < b"
    using quotient_of_div [OF q] quotient_of_denom_pos [OF q] by simp_all
  have "0 < \<bar>x\<bar>" using assms by simp
  then have a: "0 < a" using b by (simp add: x zero_less_divide_iff)
  define la lb where "la = bitlen a" and "lb = bitlen b"
  have be: "bexp x = (if 2 powi (la - lb) \<le> \<bar>x\<bar> then la - lb else la - lb - 1)"
    by (simp add: bexp_def q la_def lb_def)
  have A: "2 ^ nat (la - 1) \<le> a" and B: "b < 2 ^ nat lb"
    using bitlen_bounds [OF a] bitlen_bounds [OF b] by (simp_all add: la_def lb_def)
  have l: "1 \<le> la" "1 \<le> lb" using a b bitlen_nonneg [of a] bitlen_nonneg [of b] bitlen_eq_zero_iff [of a] bitlen_eq_zero_iff [of b]
    unfolding la_def lb_def by linarith+
  show ?thesis
  proof (cases "2 powi (la - lb) \<le> \<bar>x\<bar>")
    case True
    then show ?thesis by (simp add: be)
  next
    case False
    have "(2 :: rat) powi (la - lb - 1) = 2 powi (la - 1) / 2 powi lb"
      using power_int_diff [of "2 :: rat" "la - 1" lb] by (simp add: algebra_simps)
    also have "\<dots> = 2 ^ nat (la - 1) / 2 ^ nat lb" using l by (simp add: power_int_def)
    also have "\<dots> \<le> of_int a / of_int b"
    proof (rule frac_le)
      show "(2 :: rat) ^ nat (la - 1) \<le> of_int a" using A by (metis of_int_le_iff of_int_numeral of_int_power)
      show "of_int b \<le> (2 :: rat) ^ nat lb" using B by (metis less_imp_le of_int_le_iff of_int_numeral of_int_power)
    qed (use a b in simp_all)
    finally have "2 powi (la - lb - 1) \<le> \<bar>x\<bar>" unfolding x .
    then show ?thesis using False by (simp add: be)
  qed
qed

lemma ulp32_bound: "x \<noteq> 0 \<Longrightarrow> ulp32 x \<le> \<bar>x\<bar> / 2 ^ 23 + 1 / 2 ^ 149" "0 < ulp32 x"
proof -
  show "0 < ulp32 x" by (simp add: ulp32_def)
  assume x: "x \<noteq> 0"
  show "ulp32 x \<le> \<bar>x\<bar> / 2 ^ 23 + 1 / 2 ^ 149"
  proof (cases "- 126 \<le> bexp x")
    case True
    then have "ulp32 x = 2 powi bexp x / 2 ^ 23" by (simp add: ulp32_def power_int_diff)
    also have "\<dots> \<le> \<bar>x\<bar> / 2 ^ 23" using bexp_lower [OF x] by (intro divide_right_mono) simp_all
    finally show ?thesis by (simp add: add_increasing2)
  next
    case False
    then have "ulp32 x = 2 powi (- 149)" by (simp add: ulp32_def)
    also have "\<dots> = 1 / 2 ^ 149" by (simp only: power_int_minus power_int_numeral inverse_eq_divide)
    finally have "ulp32 x = 1 / 2 ^ 149" .
    then show ?thesis by simp
  qed
qed

lemma rnd32_error: "\<bar>rnd32 x - x\<bar> \<le> \<bar>x\<bar> / 2 ^ 24 + 1 / 2 ^ 150"
proof (cases "x = 0")
  case False
  let ?u = "ulp32 x"
  note u = ulp32_bound [of x]
  have "rnd32 x - x = (of_int (rne (x / ?u)) - x / ?u) * ?u"
    using False u(2) by (simp add: rnd32_def left_diff_distrib)
  then have "\<bar>rnd32 x - x\<bar> = \<bar>of_int (rne (x / ?u)) - x / ?u\<bar> * ?u"
    using u(2) by (simp add: abs_mult)
  also have "\<dots> \<le> 1 / 2 * ?u" using u(2) rne_error [of "x / ?u"] by (intro mult_right_mono) simp_all
  also have "\<dots> \<le> 1 / 2 * (\<bar>x\<bar> / 2 ^ 23 + 1 / 2 ^ 149)" using u(1) [OF False] by simp
  finally show ?thesis by simp
qed (simp add: rnd32_def)

lemma rnd32_nonneg: "0 \<le> x \<Longrightarrow> 0 \<le> rnd32 x"
  using ulp32_bound(2) [of x] by (simp add: rnd32_def rne_nonneg)

text \<open>The form the error chains use: an approximation stays one, a little worse.\<close>

lemma rnd32_near:
  assumes "\<bar>x - y\<bar> \<le> d" "\<bar>y\<bar> \<le> m" "d \<le> m" "1 \<le> m"
  shows "\<bar>rnd32 x - y\<bar> \<le> d + m / 2 ^ 22"
proof -
  have "\<bar>x\<bar> \<le> 2 * m" using assms by linarith
  then have "\<bar>x\<bar> / 2 ^ 24 \<le> 2 * m / 2 ^ 24" by (intro divide_right_mono) simp_all
  moreover have "1 / 2 ^ 150 \<le> m / 2 ^ 24"
    using assms(4) by (intro frac_le) simp_all
  moreover have "2 * m / 2 ^ 24 + m / 2 ^ 24 \<le> m / 2 ^ 22" using assms(4) by simp
  ultimately have "\<bar>rnd32 x - x\<bar> \<le> m / 2 ^ 22"
    using rnd32_error [of x] by (meson add_mono order_trans)
  then show ?thesis using assms(1) by linarith
qed

end
