(* ===== verification/Digipot.thy ===== *)
theory Digipot
  imports Prelude Binary32
begin

text \<open>
  The rail voltage, \<open>src/drivers/max5419.c\<close>: the request in volts is turned into a wiper position in
  single precision, and the wiper walks there one position at a time. The I2C bus is a parameter:
  \<open>iw b bytes\<close> is what \<open>i2c_write\<close> to the chip returns, with the bus afterwards.
\<close>

section \<open>Driver\<close>

type_synonym 'b i2c = "'b \<Rightarrow> u8 list \<Rightarrow> int \<times> 'b"

record 'b pot_st =
  pot_bus :: 'b
  cur_tap :: int

definition pot_boot :: "'b \<Rightarrow> 'b pot_st" where
  "pot_boot b = \<lparr>pot_bus = b, cur_tap = - 1\<rparr>"

abbreviation CMD_VREG :: u8 where "CMD_VREG \<equiv> 0x11"
abbreviation TAP_MAX :: u8 where "TAP_MAX \<equiv> 253"
abbreviation MAX5419_VOUT_MIN_MV :: u16 where "MAX5419_VOUT_MIN_MV \<equiv> 750"
abbreviation MAX5419_VOUT_MAX_MV :: u16 where "MAX5419_VOUT_MAX_MV \<equiv> 4200"

fun max5419_probe :: "nat \<Rightarrow> 'b i2c \<Rightarrow> int \<Rightarrow> 'b \<Rightarrow> int \<times> 'b" where
  "max5419_probe 0 iw ret b = (ret, b)"
| "max5419_probe (Suc k) iw ret b =
     (let (ret, b') = iw b [] in if ret = 0 then (ret, b') else max5419_probe k iw ret b')"

definition max5419_init :: "bool \<Rightarrow> 'b i2c \<Rightarrow> 'b pot_st \<Rightarrow> int \<times> 'b pot_st" where
  "max5419_init ready iw st =
     (if \<not> ready then (- ENODEV, st)
      else let (ret, b) = max5419_probe 3 iw (- EIO) (pot_bus st)
           in (if ret < 0 then ret else 0, st\<lparr>pot_bus := b\<rparr>))"

definition max5419_set_tap :: "'b i2c \<Rightarrow> u8 \<Rightarrow> 'b pot_st \<Rightarrow> int \<times> 'b pot_st" where
  "max5419_set_tap iw tap st =
     (if tap > TAP_MAX then (- EINVAL, st)
      else
        let (ret, b) = iw (pot_bus st) [CMD_VREG, tap];
            (ret, b) = (if ret < 0 then iw b [CMD_VREG, tap] else (ret, b))
        in if ret < 0 then (ret, st\<lparr>pot_bus := b\<rparr>)
           else (0, st\<lparr>pot_bus := b, cur_tap := uint tap\<rparr>))"

lemma set_tap_ok:
  assumes "max5419_set_tap iw tap st = (ret, st')" "\<not> ret < 0"
  shows "ret = 0" "cur_tap st' = uint tap" "tap \<le> 253"
  using assms by (auto simp: max5419_set_tap_def Let_def split: if_splits prod.splits)

text \<open>The next position on the way to \<open>tap\<close>, \<open>(uint8_t)(cur_tap + (tap > cur_tap ? 1 : -1))\<close>.\<close>

definition ramp_next :: "u8 \<Rightarrow> int \<Rightarrow> u8" where
  "ramp_next tap cur = of_int (cur + (if uint tap > cur then 1 else - 1))"

definition ramp_dist :: "u8 \<Rightarrow> int \<Rightarrow> nat" where
  "ramp_dist tap cur = (if 0 \<le> cur \<and> cur \<le> 255 then nat \<bar>uint tap - cur\<bar> else 1000)"

lemma uint_u8: "0 \<le> uint (w :: u8)" "uint w \<le> 255"
  using uint_lt2p [of w] by simp_all

lemma ramp_next_val:
  assumes "0 \<le> cur" "cur \<le> 255" "cur \<noteq> uint tap"
  shows "uint (ramp_next tap cur) = cur + (if uint tap > cur then 1 else - 1)"
proof -
  have word: "uint (of_int k :: u8) = k" if "0 \<le> k" "k \<le> 255" for k
    using that by (simp add: uint_word_of_int)
  have t: "uint tap \<le> 255" "uint tap = 0 \<or> 0 < uint tap"
    using uint_u8 [of tap] by (auto simp: order_le_less)
  show ?thesis
  proof (cases "uint tap > cur")
    case True
    then have "cur + 1 \<le> 255" using t by linarith
    then show ?thesis using assms True word [of "cur + 1"] unfolding ramp_next_def by simp
  next
    case False
    then have "0 < cur" using assms t by linarith
    then show ?thesis using assms False word [of "cur - 1"] unfolding ramp_next_def by simp
  qed
qed

lemma ramp_next_dist:
  assumes "cur \<noteq> uint tap"
  shows "ramp_dist tap (uint (ramp_next tap cur)) < ramp_dist tap cur"
proof (cases "0 \<le> cur \<and> cur \<le> 255")
  case True
  then have "uint (ramp_next tap cur) = cur + (if uint tap > cur then 1 else - 1)"
    using assms by (intro ramp_next_val) simp_all
  moreover have "uint tap \<le> 255" "uint tap = 0 \<or> 0 < uint tap"
    using uint_u8 [of tap] by (auto simp: order_le_less)
  ultimately show ?thesis using True assms by (auto simp: ramp_dist_def)
next
  case False
  let ?n = "ramp_next tap cur"
  have "\<bar>uint tap - uint ?n\<bar> \<le> 255"
    using uint_u8(2) [of tap] uint_u8(2) [of ?n] uint_u8(1) [of tap] uint_u8(1) [of ?n] by linarith
  then have "nat \<bar>uint tap - uint ?n\<bar> < 1000" by (subst nat_less_iff) linarith+
  moreover have "ramp_dist tap cur = 1000" using False by (auto simp: ramp_dist_def)
  moreover have "ramp_dist tap (uint ?n) = nat \<bar>uint tap - uint ?n\<bar>"
    using uint_u8 [of ?n] by (simp add: ramp_dist_def)
  ultimately show ?thesis by simp
qed

function ramp_loop :: "'b i2c \<Rightarrow> u8 \<Rightarrow> 'b pot_st \<Rightarrow> int \<times> 'b pot_st" where
  "ramp_loop iw tap st =
     (if cur_tap st = uint tap then (0, st)
      else
        let (ret, st') = max5419_set_tap iw (ramp_next tap (cur_tap st)) st
        in if ret < 0 then (ret, st') else ramp_loop iw tap st')"
  by pat_completeness auto
termination
proof (relation "measure (\<lambda>(iw, tap, st). ramp_dist tap (cur_tap st))", goal_cases)
  case (2 iw tap st r ret st')
  then show ?case using ramp_next_dist [of "cur_tap st" tap] set_tap_ok [of iw _ st ret st'] by simp
qed simp

declare ramp_loop.simps [simp del]

definition ramp_to_tap :: "'b i2c \<Rightarrow> u8 \<Rightarrow> 'b pot_st \<Rightarrow> int \<times> 'b pot_st" where
  "ramp_to_tap iw tap st = (if cur_tap st < 0 then max5419_set_tap iw tap st else ramp_loop iw tap st)"

text \<open>The known position stays one that may be written, or unknown.\<close>

lemma set_tap_range:
  assumes "cur_tap st \<in> {- 1..253}"
  shows "cur_tap (snd (max5419_set_tap iw tap st)) \<in> {- 1..253}"
proof -
  have "- 1 \<le> uint tap" using uint_u8(1) [of tap] by linarith
  then have "uint tap \<in> {- 1..253}" if "\<not> tap > TAP_MAX" using that by (simp add: word_less_def)
  then show ?thesis using assms by (simp add: max5419_set_tap_def Let_def split_beta)
qed

lemma ramp_loop_range: "cur_tap st \<in> {- 1..253} \<Longrightarrow> cur_tap (snd (ramp_loop iw tap st)) \<in> {- 1..253}"
proof (induction iw tap st rule: ramp_loop.induct)
  case (1 iw tap st)
  obtain r st1 where s: "max5419_set_tap iw (ramp_next tap (cur_tap st)) st = (r, st1)" by force
  have "cur_tap st1 \<in> {- 1..253}" using set_tap_range [OF "1.prems"] s by (metis snd_conv)
  then show ?case
    using "1.IH" [OF _ s [symmetric] refl] "1.prems" s by (subst ramp_loop.simps) simp
qed

lemma ramp_to_tap_range: "cur_tap st \<in> {- 1..253} \<Longrightarrow> cur_tap (snd (ramp_to_tap iw tap st)) \<in> {- 1..253}"
  unfolding ramp_to_tap_def by (cases "cur_tap st < 0") (simp_all only: if_True if_False set_tap_range ramp_loop_range)

section \<open>Volts to wiper\<close>

definition R_TOP_K :: rat where "R_TOP_K = 100"
definition R_SERIES_K :: rat where "R_SERIES_K = rnd32 (121 / 10)"
definition R_POT_K :: rat where "R_POT_K = 200"
definition VOUT_MAX_V :: rat where "VOUT_MAX_V = rnd32 (4200 / 1000)"

text \<open>\<open>(float)mv / 1000.0f\<close>, as the callers compute the request; 16-bit integers convert exactly.\<close>

definition float_of_u16 :: "u16 \<Rightarrow> rat" where
  "float_of_u16 mv = of_nat (unat mv)"

lemma float_of_u16_bounds:
  "float_of_u16 mv \<le> numeral n \<longleftrightarrow> unat mv \<le> numeral n" "numeral n \<le> float_of_u16 mv \<longleftrightarrow> numeral n \<le> unat mv"
  "0 \<le> float_of_u16 mv"
proof -
  have "(of_nat (unat mv) :: rat) \<le> of_nat (numeral n) \<longleftrightarrow> unat mv \<le> numeral n"
    "(of_nat (numeral n) :: rat) \<le> of_nat (unat mv) \<longleftrightarrow> numeral n \<le> unat mv"
    "(0 :: rat) \<le> of_nat (unat mv)"
    by (simp_all only: of_nat_le_iff of_nat_0_le_iff)
  then show "float_of_u16 mv \<le> numeral n \<longleftrightarrow> unat mv \<le> numeral n"
    "numeral n \<le> float_of_u16 mv \<longleftrightarrow> numeral n \<le> unat mv" "0 \<le> float_of_u16 mv"
    unfolding float_of_u16_def of_nat_numeral by blast+
qed

definition volts_of_mv :: "u16 \<Rightarrow> rat" where
  "volts_of_mv mv = rnd32 (float_of_u16 mv / 1000)"

definition tap_float :: "rat \<Rightarrow> rat" where
  "tap_float den =
     (let bottom_k = rnd32 (R_TOP_K / den);
          rhw_k = rnd32 (bottom_k - R_SERIES_K)
      in rnd32 (255 - rnd32 (rhw_k * rnd32 (255 / R_POT_K))))"

definition tap_round :: "rat \<Rightarrow> u8" where
  "tap_round tap_f =
     (let t = (if tap_f < 0 then 0 else if tap_f > 253 then 253 else tap_f)
      in of_int \<lfloor>rnd32 (t + 1 / 2)\<rfloor>)"

definition max5419_set_voltage :: "'b i2c \<Rightarrow> rat \<Rightarrow> 'b pot_st \<Rightarrow> int \<times> 'b pot_st" where
  "max5419_set_voltage iw voltage st =
     (let den = rnd32 (rnd32 (2 * voltage) - 1)
      in if den \<le> 0 then (- EINVAL, st)
         else if voltage > VOUT_MAX_V then (- EINVAL, st)
         else ramp_to_tap iw (tap_round (tap_float den)) st)"

definition max5419_get_target_mv :: "'b pot_st \<Rightarrow> u16" where
  "max5419_get_target_mv st =
     (if cur_tap st < 0 then 0
      else
        let rhw_k = rnd32 (rnd32 (R_POT_K * of_int (255 - cur_tap st)) / 255);
            v = rnd32 (1 / 2 * rnd32 (1 + rnd32 (R_TOP_K / rnd32 (R_SERIES_K + rhw_k))))
        in of_int \<lfloor>rnd32 (rnd32 (v * 1000) + 1 / 2)\<rfloor>)"

text \<open>The rail the feedback network gives at a wiper position, and the position that would give a
  voltage exactly.\<close>

definition vout_ideal :: "rat \<Rightarrow> rat" where
  "vout_ideal tap = 1 / 2 * (1 + 100 / (121 / 10 + 200 * (255 - tap) / 255))"

definition tap_ideal :: "rat \<Rightarrow> rat" where
  "tap_ideal v = 255 - (100 / (2 * v - 1) - 121 / 10) * (255 / 200)"

definition clamp_tap :: "rat \<Rightarrow> rat" where
  "clamp_tap t = (if t < 0 then 0 else if t > 253 then 253 else t)"

lemma tap_round_near:
  shows "\<bar>of_int (uint (tap_round t)) - clamp_tap t\<bar> \<le> 1 / 2 + 1 / 10000" "tap_round t \<le> 253"
proof -
  let ?c = "clamp_tap t"
  have c: "0 \<le> ?c" "?c \<le> 253" by (auto simp: clamp_tap_def)
  have near: "\<bar>rnd32 (?c + 1 / 2) - (?c + 1 / 2)\<bar> \<le> 0 + 254 / 2 ^ 22"
    using c by (intro rnd32_near) auto
  define r where "r = rnd32 (?c + 1 / 2)"
  have r: "\<bar>r - (?c + 1 / 2)\<bar> \<le> 1 / 10000" using near unfolding r_def by (rule order_trans) simp
  have r0: "0 \<le> r" using c unfolding r_def by (intro rnd32_nonneg) simp
  then have f: "0 \<le> \<lfloor>r\<rfloor>" by simp
  have "r < 254" using r c by linarith
  then have f2: "\<lfloor>r\<rfloor> \<le> 253" by linarith
  have tr: "tap_round t = of_int \<lfloor>r\<rfloor>" by (simp add: tap_round_def clamp_tap_def r_def)
  then have u: "uint (tap_round t) = \<lfloor>r\<rfloor>" using f f2 by (simp add: uint_word_of_int)
  have "of_int \<lfloor>r\<rfloor> \<le> r" "r < of_int \<lfloor>r\<rfloor> + 1" by linarith+
  then show "\<bar>of_int (uint (tap_round t)) - ?c\<bar> \<le> 1 / 2 + 1 / 10000" using r unfolding u by linarith
  show "tap_round t \<le> 253" using u f2 by (simp add: word_le_def)
qed

lemma clamp_tap_lipschitz: "\<bar>clamp_tap s - clamp_tap t\<bar> \<le> \<bar>s - t\<bar>"
  by (auto simp: clamp_tap_def)

lemma set_voltage_range:
  assumes "cur_tap st \<in> {- 1..253}"
  shows "cur_tap (snd (max5419_set_voltage iw v st)) \<in> {- 1..253}"
  using assms ramp_to_tap_range [OF assms, of iw "tap_round (tap_float (rnd32 (rnd32 (2 * v) - 1)))"]
  by (simp add: max5419_set_voltage_def Let_def)

lemma max5419_init_frame: "cur_tap (snd (max5419_init ready iw st)) = cur_tap st"
  by (simp add: max5419_init_def split_beta)

section \<open>The request is met as closely as the wiper allows\<close>

lemma near_trans:
  fixes x :: rat
  assumes "\<bar>x - y\<bar> \<le> d" "d + m / 2 ^ 22 \<le> e" "\<bar>y\<bar> \<le> m" "d \<le> m" "1 \<le> m"
  shows "\<bar>rnd32 x - y\<bar> \<le> e"
  using rnd32_near [OF assms(1,3,4,5)] assms(2) by linarith

lemma volts_near: "\<bar>volts_of_mv mv - float_of_u16 mv / 1000\<bar> \<le> 1 / 60000"
proof -
  have "float_of_u16 mv \<le> 65535" "0 \<le> float_of_u16 mv"
    using unat_bounds(2) [of mv] by (simp_all add: float_of_u16_bounds)
  then show ?thesis
    unfolding volts_of_mv_def by (intro near_trans [where d = 0 and m = 66]) simp_all
qed

lemma den_near:
  assumes "unat mv \<in> {750..4200}"
  defines "v0 \<equiv> float_of_u16 mv / 1000"
  shows "\<bar>rnd32 (rnd32 (2 * volts_of_mv mv) - 1) - (2 * v0 - 1)\<bar> \<le> 1 / 100000"
proof -
  have v0: "3 / 4 \<le> v0" "v0 \<le> 42 / 10" using assms(1)
    by (simp_all add: v0_def float_of_u16_bounds field_simps)
  have 1: "\<bar>volts_of_mv mv - v0\<bar> \<le> 1 / 800000"
    unfolding volts_of_mv_def v0_def [symmetric]
    by (rule near_trans [where d = 0 and m = 5]) (use v0 in simp_all)
  have 2: "\<bar>rnd32 (2 * volts_of_mv mv) - 2 * v0\<bar> \<le> 1 / 190000"
  proof (rule near_trans [where d = "1 / 400000" and m = 10])
    show "\<bar>2 * volts_of_mv mv - 2 * v0\<bar> \<le> 1 / 400000" using 1 by linarith
  qed (use v0 in simp_all)
  show ?thesis
  proof (rule near_trans [where d = "1 / 190000" and m = 10])
    show "\<bar>rnd32 (2 * volts_of_mv mv) - 1 - (2 * v0 - 1)\<bar> \<le> 1 / 190000" using 2 by linarith
  qed (use v0 in simp_all)
qed

lemma recip_near:
  fixes d d0 :: rat
  assumes "\<bar>d - d0\<bar> \<le> 1 / 100000" "1 / 2 \<le> d0"
  shows "\<bar>100 / d - 100 / d0\<bar> \<le> 1 / 240"
proof -
  have d: "49999 / 100000 \<le> d" using assms by linarith
  then have prod: "24999 / 100000 \<le> d * d0"
    using mult_mono [of "49999 / 100000" d "1 / 2" d0] assms(2) by simp
  have "100 / d - 100 / d0 = 100 * (d0 - d) / (d * d0)" using d assms(2) by (simp add: field_simps)
  then have "\<bar>100 / d - 100 / d0\<bar> = 100 * \<bar>d - d0\<bar> / (d * d0)"
    using d assms(2) by (simp add: abs_mult abs_minus_commute right_diff_distrib [symmetric] del: right_diff_distrib_numeral)
  also have "\<dots> \<le> 100 * (1 / 100000) / (24999 / 100000)"
    using assms prod by (intro frac_le) simp_all
  also have "\<dots> \<le> 1 / 240" by simp
  finally show ?thesis .
qed

lemma mult_near:
  fixes x y :: rat
  assumes "\<bar>x - x0\<bar> \<le> dx" "\<bar>y - y0\<bar> \<le> dy" "\<bar>x0\<bar> \<le> mx" "\<bar>y0\<bar> + dy \<le> my" "dx * my + mx * dy \<le> e"
  shows "\<bar>x * y - x0 * y0\<bar> \<le> e"
proof -
  have "\<bar>y\<bar> \<le> my" "0 \<le> dx" "0 \<le> dy" "0 \<le> mx" using assms by linarith+
  then have "\<bar>x - x0\<bar> * \<bar>y\<bar> \<le> dx * my" "\<bar>x0\<bar> * \<bar>y - y0\<bar> \<le> mx * dy"
    using assms by (intro mult_mono; simp)+
  then have "\<bar>(x - x0) * y\<bar> \<le> dx * my" "\<bar>x0 * (y - y0)\<bar> \<le> mx * dy" by (simp_all only: abs_mult)
  moreover have "x * y - x0 * y0 = (x - x0) * y + x0 * (y - y0)" by (simp add: algebra_simps)
  ultimately show ?thesis using assms(5) by linarith
qed

lemma tap_bounds:
  fixes z :: rat
  assumes "0 \<le> z" "z \<le> 200"
  shows "\<bar>(z - 121 / 10) * (255 / 200)\<bar> \<le> 260" "\<bar>255 - (z - 121 / 10) * (255 / 200)\<bar> \<le> 300"
  using assms by (auto simp: abs_le_iff field_simps)

lemma tap_float_near:
  assumes "\<bar>den - d0\<bar> \<le> 1 / 100000" "1 / 2 \<le> d0" "d0 \<le> 8"
  shows "\<bar>tap_float den - (255 - (100 / d0 - 121 / 10) * (255 / 200))\<bar> \<le> 6 / 1000"
proof -
  have b0: "0 \<le> 100 / d0" "100 / d0 \<le> 200" using assms(2) by (simp_all add: field_simps)
  then have b1: "\<bar>100 / d0 - 121 / 10\<bar> \<le> 200" by linarith
  define k where "k = rnd32 (255 / R_POT_K)"
  have k: "\<bar>k - 255 / 200\<bar> \<le> 1 / 2000000"
    unfolding k_def R_POT_K_def by (rule near_trans [where d = 0 and m = 2]) simp_all
  have r: "\<bar>R_SERIES_K - 121 / 10\<bar> \<le> 1 / 300000"
    unfolding R_SERIES_K_def by (rule near_trans [where d = 0 and m = 13]) simp_all
  define bk where "bk = rnd32 (R_TOP_K / den)"
  have bk: "\<bar>bk - 100 / d0\<bar> \<le> 1 / 230"
    unfolding bk_def R_TOP_K_def
    by (rule near_trans [where d = "1 / 240" and m = 200]) (use recip_near [OF assms(1,2)] b0 in simp_all)
  define rh where "rh = rnd32 (bk - R_SERIES_K)"
  have "\<bar>bk - R_SERIES_K - (100 / d0 - 121 / 10)\<bar> \<le> 1 / 230 + 1 / 300000" using bk r by linarith
  then have rh: "\<bar>rh - (100 / d0 - 121 / 10)\<bar> \<le> 1 / 225"
    unfolding rh_def by (rule near_trans [where m = 200]) (use b1 in simp_all)
  have p: "\<bar>rh * k - (100 / d0 - 121 / 10) * (255 / 200)\<bar> \<le> 58 / 10000"
    by (rule mult_near [OF rh k b1, where my = "128 / 100"]) simp_all
  have "\<bar>rnd32 (rh * k) - (100 / d0 - 121 / 10) * (255 / 200)\<bar> \<le> 587 / 100000"
    by (rule near_trans [OF p _ tap_bounds(1) [OF b0]]) simp_all
  then have q: "\<bar>255 - rnd32 (rh * k) - (255 - (100 / d0 - 121 / 10) * (255 / 200))\<bar> \<le> 587 / 100000" by linarith
  have "\<bar>rnd32 (255 - rnd32 (rh * k)) - (255 - (100 / d0 - 121 / 10) * (255 / 200))\<bar> \<le> 6 / 1000"
    by (rule near_trans [OF q _ tap_bounds(2) [OF b0]]) simp_all
  then show ?thesis by (simp add: tap_float_def Let_def bk_def rh_def k_def)
qed

lemma vmax_near: "\<bar>VOUT_MAX_V - 42 / 10\<bar> \<le> 1 / 60000"
  unfolding VOUT_MAX_V_def by (rule near_trans [where d = 0 and m = 5]) simp_all

text \<open>The position chosen for a request in the allowed range.\<close>

lemma request_volts:
  assumes "750 \<le> mv" "mv \<le> 4200"
  shows "3 / 4 \<le> float_of_u16 mv / 1000" "float_of_u16 mv / 1000 \<le> 42 / 10"
    "\<bar>rnd32 (rnd32 (2 * volts_of_mv mv) - 1) - (2 * (float_of_u16 mv / 1000) - 1)\<bar> \<le> 1 / 100000"
proof -
  have m: "unat mv \<in> {750..4200}" using assms by (simp add: word_le_nat_alt)
  then show "3 / 4 \<le> float_of_u16 mv / 1000" "float_of_u16 mv / 1000 \<le> 42 / 10"
    by (simp_all add: float_of_u16_bounds)
  show "\<bar>rnd32 (rnd32 (2 * volts_of_mv mv) - 1) - (2 * (float_of_u16 mv / 1000) - 1)\<bar> \<le> 1 / 100000"
    by (rule den_near [OF m])
qed

definition volt_tap :: "u16 \<Rightarrow> u8" where
  "volt_tap mv = tap_round (tap_float (rnd32 (rnd32 (2 * volts_of_mv mv) - 1)))"

lemma request_ramps:
  assumes "750 \<le> mv" "mv \<le> 4200"
  shows "max5419_set_voltage iw (volts_of_mv mv) st = ramp_to_tap iw (volt_tap mv) st"
proof -
  note v0 = request_volts [OF assms]
  have pos: "\<not> rnd32 (rnd32 (2 * volts_of_mv mv) - 1) \<le> 0" using v0 by linarith
  have notmax: "\<not> volts_of_mv mv > VOUT_MAX_V"
  proof (cases "unat mv = 4200")
    case True
    then have "float_of_u16 mv = 4200" by (simp only: float_of_u16_def of_nat_numeral)
    then show ?thesis by (simp only: volts_of_mv_def VOUT_MAX_V_def order.irrefl not_False_eq_True)
  next
    case False
    then have "unat mv \<le> 4199" using assms(2) by (simp add: word_le_nat_alt)
    then have "float_of_u16 mv / 1000 \<le> 4199 / 1000" by (simp add: float_of_u16_bounds)
    then show ?thesis using volts_near [of mv] vmax_near by linarith
  qed
  show ?thesis using pos notmax by (simp add: max5419_set_voltage_def volt_tap_def Let_def)
qed

lemma request_near:
  assumes "750 \<le> mv" "mv \<le> 4200"
  shows "volt_tap mv \<le> 253" "\<bar>of_int (uint (volt_tap mv)) - clamp_tap (tap_ideal (float_of_u16 mv / 1000))\<bar> \<le> 51 / 100"
    "vout_ideal (tap_ideal (float_of_u16 mv / 1000)) = float_of_u16 mv / 1000"
proof -
  let ?mid = "float_of_u16 mv / 1000 :: rat" and ?den = "rnd32 (rnd32 (2 * volts_of_mv mv) - 1)"
  note v0 = request_volts [OF assms(1,2)]
  show "volt_tap mv \<le> 253" unfolding volt_tap_def by (rule tap_round_near(2))
  have near: "\<bar>tap_float ?den - tap_ideal ?mid\<bar> \<le> 6 / 1000"
    unfolding tap_ideal_def by (rule tap_float_near [OF v0(3)]) (use v0 in simp_all)
  have c: "\<bar>clamp_tap (tap_float ?den) - clamp_tap (tap_ideal ?mid)\<bar> \<le> 6 / 1000"
    by (rule order_trans [OF clamp_tap_lipschitz near])
  show "\<bar>of_int (uint (volt_tap mv)) - clamp_tap (tap_ideal ?mid)\<bar> \<le> 51 / 100"
    unfolding volt_tap_def using tap_round_near(1) [of "tap_float ?den"] c by linarith
  show "vout_ideal (tap_ideal ?mid) = ?mid"
    using v0 by (simp add: vout_ideal_def tap_ideal_def field_simps)
qed

lemma request_refused:
  assumes "4200 < mv"
  shows "max5419_set_voltage iw (volts_of_mv mv) st = (- EINVAL, st)"
proof -
  have "4201 \<le> unat mv" using assms by (simp add: word_less_nat_alt)
  then have "4201 / 1000 \<le> float_of_u16 mv / 1000" by (simp add: float_of_u16_bounds)
  then have "volts_of_mv mv > VOUT_MAX_V" using volts_near [of mv] vmax_near by linarith
  then show ?thesis by (simp add: max5419_set_voltage_def Let_def)
qed



section \<open>The walk\<close>

text \<open>The bus with a record of the wiper positions written to it.\<close>

definition log_bus :: "'b i2c \<Rightarrow> ('b \<times> u8 list) i2c" where
  "log_bus iw p buf =
     (let (r, b') = iw (fst p) buf
      in (r, (b', if length buf = 2 then snd p @ [buf ! 1] else snd p)))"

abbreviation one_apart :: "int \<Rightarrow> int \<Rightarrow> bool" where
  "one_apart a b \<equiv> \<bar>a - b\<bar> \<le> 1"

lemma set_tap_trace:
  assumes "max5419_set_tap (log_bus iw) t st = (ret, st')" "t \<le> 253"
  shows "\<exists>k. snd (pot_bus st') = snd (pot_bus st) @ replicate (Suc k) t \<and>
    (if ret < 0 then cur_tap st' = cur_tap st else ret = 0 \<and> cur_tap st' = uint t)"
proof -
  obtain r b where 1: "iw (fst (pot_bus st)) [CMD_VREG, t] = (r, b)" by force
  obtain r2 b2 where 2: "iw b [CMD_VREG, t] = (r2, b2)" by force
  show ?thesis
  proof (cases "r < 0")
    case True
    then show ?thesis using assms 1 2
      by (intro exI [of _ 1]) (auto simp: max5419_set_tap_def log_bus_def not_less [symmetric] split: if_splits)
  next
    case False
    then show ?thesis using assms 1
      by (intro exI [of _ 0]) (auto simp: max5419_set_tap_def log_bus_def not_less [symmetric])
  qed
qed

lemma successively_replicate: "one_apart a b \<Longrightarrow> successively one_apart (a # replicate (Suc k) b)"
  by (induction k) simp_all

lemma successively_join:
  "successively P (a # xs) \<Longrightarrow> successively P (last (a # xs) # ys) \<Longrightarrow> successively P (a # xs @ ys)"
  by (induction xs arbitrary: a) (auto simp: successively_Cons split: if_splits)

text \<open>What a walk from \<open>cur\<close> leaves behind.\<close>

definition walked :: "u8 \<Rightarrow> int \<Rightarrow> u8 list \<Rightarrow> int \<Rightarrow> int \<Rightarrow> bool" where
  "walked tap cur tr ret cur' \<longleftrightarrow>
     list_all (\<lambda>t. t \<le> 253) tr \<and> successively one_apart (cur # map uint tr) \<and> cur' \<in> {0..253} \<and>
     one_apart cur' (last (cur # map uint tr)) \<and> (0 \<le> ret \<longrightarrow> ret = 0 \<and> cur' = uint tap \<and> last (cur # map uint tr) = cur')"

lemma ramp_loop_walk:
  assumes "ramp_loop (log_bus iw) tap st = (ret, st')" "tap \<le> 253" "cur_tap st \<in> {0..253}"
  shows "\<exists>tr. snd (pot_bus st') = snd (pot_bus st) @ tr \<and> walked tap (cur_tap st) tr ret (cur_tap st')"
  using assms
proof (induction "log_bus iw" tap st arbitrary: ret st' rule: ramp_loop.induct)
  case (1 tap st)
  have tap: "uint tap \<le> 253" using "1.prems"(2) by (simp add: word_le_def)
  show ?case
  proof (cases "cur_tap st = uint tap")
    case True
    then show ?thesis using "1.prems" tap by (simp add: ramp_loop.simps [of _ _ st] walked_def)
  next
    case False
    let ?n = "ramp_next tap (cur_tap st)"
    have n: "uint ?n = cur_tap st + (if uint tap > cur_tap st then 1 else - 1)"
      using "1.prems"(3) False by (intro ramp_next_val) auto
    have nn: "0 \<le> uint ?n" "uint ?n \<le> 253" "one_apart (cur_tap st) (uint ?n)"
      using n tap "1.prems"(3) uint_u8 [of ?n] by auto
    have n253: "?n \<le> 253" using nn(2) by (simp add: word_le_def)
    obtain r st1 where s1: "max5419_set_tap (log_bus iw) ?n st = (r, st1)" by force
    obtain k where k: "snd (pot_bus st1) = snd (pot_bus st) @ replicate (Suc k) ?n"
      "if r < 0 then cur_tap st1 = cur_tap st else r = 0 \<and> cur_tap st1 = uint ?n"
      using set_tap_trace [OF s1 n253] by blast
    have sc: "successively one_apart (cur_tap st # map uint (replicate (Suc k) ?n))"
      unfolding map_replicate by (rule successively_replicate [OF nn(3)])
    have lst: "last (cur_tap st # map uint (replicate (Suc k) ?n)) = uint ?n" by simp
    show ?thesis
    proof (cases "r < 0")
      case True
      then have "ret = r" "st' = st1" using "1.prems"(1) False s1 by (simp_all add: ramp_loop.simps [of _ _ st])
      then show ?thesis using k sc lst True nn n253 "1.prems"(3)
        by (intro exI [of _ "replicate (Suc k) ?n"]) (simp add: walked_def list_all_iff del: replicate_Suc)
    next
      case False': False
      then have c1: "r = 0" "cur_tap st1 = uint ?n" using k(2) by simp_all
      have "ramp_loop (log_bus iw) tap st1 = (ret, st')"
        using "1.prems"(1) False False' s1 by (simp add: ramp_loop.simps [of _ _ st])
      then obtain tr where tr: "snd (pot_bus st') = snd (pot_bus st1) @ tr" "walked tap (uint ?n) tr ret (cur_tap st')"
        using "1.hyps" [OF False s1 [symmetric] refl False'] "1.prems"(2) c1 nn by auto
      have "successively one_apart (cur_tap st # map uint (replicate (Suc k) ?n) @ map uint tr)"
        by (rule successively_join [OF sc]) (use tr(2) lst in \<open>simp add: walked_def\<close>)
      moreover have "last (cur_tap st # map uint (replicate (Suc k) ?n @ tr)) = last (uint ?n # map uint tr)"
        by (simp add: last_append)
      ultimately show ?thesis using k(1) tr n253
        by (intro exI [of _ "replicate (Suc k) ?n @ tr"]) (simp add: walked_def list_all_iff del: replicate_Suc last.simps)
    qed
  qed
qed

lemma tap_round_le: "uint (tap_round t) \<le> 253"
  using tap_round_near(2) [of t] by (simp add: word_le_def)



end
