(* ===== verification/App_State.thy ===== *)
theory App_State
  imports Imu_Pump Ble_Dump Motor_Drivers Status_Led Digipot
begin

text \<open>
  The state of the application core: the static variables of every module, side by side. A module of
  its own keeps its record (\<open>a_log\<close> is \<open>imu_log.c\<close>, \<open>a_stream\<close>, \<open>a_dump\<close> and \<open>a_msgs\<close> are
  \<open>ble_transport.c\<close>, and so on); the variables of \<open>session.c\<close>, \<open>device_cmd.c\<close>, \<open>ble_interface.c\<close> and
  \<open>app.c\<close> are fields here. What the handlers get from the platform is the record \<open>platform\<close>, one
  for each call, since the answers of the hardware and the time differ from call to call.
\<close>

section \<open>The platform\<close>

datatype att_err = INVALID_OFFSET | VALUE_NOT_ALLOWED | UNLIKELY

text \<open>
  \<open>pf_now\<close> is \<open>k_uptime_get()\<close>, taken once for a call; \<open>pf_sleep i\<close> is what the other threads do to
  the log and the messages in the \<open>i\<close>-th sleep of a flush; \<open>pf_uid\<close> is the device id \<open>hwinfo\<close> gives,
  if it gives one; \<open>pf_attr_read len off v\<close> is \<open>bt_gatt_attr_read\<close> of the value \<open>v\<close>; the last three
  fields are what the Bluetooth stack returns for starting to advertise and what the ADC and the
  conversion of its sample return.
\<close>

record ('f, 'b) platform =
  pf_flash :: "'f flash_dev"
  pf_version :: app_version
  pf_crc32 :: "u8 list \<Rightarrow> u32"
  pf_i2c :: "'b i2c"
  pf_pwm :: "u8 \<Rightarrow> int"
  pf_now :: int
  pf_sleep :: "nat \<Rightarrow> 'f log_st \<times> msg_st \<Rightarrow> 'f log_st \<times> msg_st"
  pf_uid :: "u8 list option"
  pf_attr_read :: "u16 \<Rightarrow> u16 \<Rightarrow> u8 list \<Rightarrow> att_err + u8 list"
  pf_adv_start :: int
  pf_adc :: "int \<times> 16 word"
  pf_to_mv :: "32 word \<Rightarrow> int \<times> 32 word"

section \<open>Commands\<close>

datatype device_cmd = DEVICE_CMD_SET_VOLT_MV u16 | DEVICE_CMD_LOG u8

abbreviation DEVICE_LOG_OP_STOP :: u8 where "DEVICE_LOG_OP_STOP \<equiv> 0"
abbreviation DEVICE_LOG_OP_START :: u8 where "DEVICE_LOG_OP_START \<equiv> 1"
abbreviation DEVICE_LOG_OP_ERASE :: u8 where "DEVICE_LOG_OP_ERASE \<equiv> 2"
abbreviation DEVICE_LOG_OP_START_DETACHED :: u8 where "DEVICE_LOG_OP_START_DETACHED \<equiv> 3"

section \<open>The state\<close>

text \<open>\<open>conn_req\<close> is the last connection parameters asked for (minimum and maximum interval, latency,
  timeout); \<open>adv_restart\<close> is the delayed work item, \<open>advertising\<close> that the stack was started with \<open>ad\<close>.\<close>

record ('f, 'b) app_st =
  a_settings :: settings_st
  a_log :: "'f log_st"
  a_msgs :: msg_st
  a_stream :: stream_st
  a_dump :: dump_st
  a_sh :: imu_shared
  drained_total :: u32
  a_rail :: rail_st
  a_bridge :: bridge_st
  a_pwm :: pwm_st
  a_pot :: "'b pot_st"
  a_led :: led_st
  wall_epoch_at_boot :: u32
  stream_active :: bool
  cmd_msgq :: "device_cmd list"
  tput_rx_bytes :: u32
  cur_conn :: bool
  conn_req :: "(u16 \<times> u16 \<times> u16 \<times> u16) option"
  adv_name :: string
  adv_mfg :: "u8 list"
  adv_restart :: bool
  advertising :: bool
  app_reset_cause :: u32

definition app_boot :: "'f \<Rightarrow> 'b \<Rightarrow> imu_shared \<Rightarrow> rail_st \<Rightarrow> bridge_st \<Rightarrow> ('f, 'b) app_st" where
  "app_boot f b sh rail bridge =
     \<lparr>a_settings = settings_boot, a_log = log_boot f, a_msgs = msg_boot, a_stream = stream_boot,
      a_dump = dump_boot, a_sh = sh, drained_total = 0, a_rail = rail, a_bridge = bridge,
      a_pwm = pwm_boot, a_pot = pot_boot b, a_led = led_boot, wall_epoch_at_boot = 0,
      stream_active = False, cmd_msgq = [], tput_rx_bytes = 0, cur_conn = False, conn_req = None,
      adv_name = [], adv_mfg = replicate 7 0, adv_restart = False, advertising = False,
      app_reset_cause = 0\<rparr>"

text \<open>A line to the message channel.\<close>

definition post :: "('f, 'b) platform \<Rightarrow> string \<Rightarrow> ('f, 'b) app_st \<Rightarrow> ('f, 'b) app_st" where
  "post p line a = a\<lparr>a_msgs := ble_msg (pf_now p) line (a_msgs a)\<rparr>"

definition imu_log_active :: "('f, 'b) app_st \<Rightarrow> bool" where
  "imu_log_active a = active (a_log a)"

text \<open>\<open>k_uptime_get() / 1000\<close> as 32 bits.\<close>

definition uptime_s :: "('f, 'b) platform \<Rightarrow> u32" where
  "uptime_s p = of_int (pf_now p div 1000)"

section \<open>Concrete instances\<close>

text \<open>\<open>bt_gatt_attr_read\<close> as documented: the part of the value from the offset on, as far as the buffer
  reaches, and an error for an offset beyond the value.\<close>

definition attr_read_doc :: "u16 \<Rightarrow> u16 \<Rightarrow> u8 list \<Rightarrow> att_err + u8 list" where
  "attr_read_doc len offset v =
     (if unat offset > length v then Inl INVALID_OFFSET else Inr (take (unat len) (drop (unat offset) v)))"

text \<open>A platform on which every call succeeds, a minute after boot, and a freshly booted core with its
  settings loaded from blank flash.\<close>

definition quiet_platform :: "(nat \<Rightarrow> u8, unit) platform" where
  "quiet_platform = \<lparr>pf_flash = ram_flash, pf_version = \<lparr>ver_major = 1, ver_minor = 5, ver_patch = 1\<rparr>,
     pf_crc32 = (\<lambda>_. 0), pf_i2c = (\<lambda>b _. (0, b)), pf_pwm = (\<lambda>_. 0), pf_now = 60000, pf_sleep = (\<lambda>_ s. s),
     pf_uid = Some [0xAB, 0xCD], pf_attr_read = attr_read_doc, pf_adv_start = 0, pf_adc = (0, 1000),
     pf_to_mv = (\<lambda>v. (0, v))\<rparr>"

definition blank_app :: "(nat \<Rightarrow> u8, unit) app_st" where
  "blank_app = (app_boot (\<lambda>_. 0xFF) () blank_shared \<lparr>rail_pin = False, rail_on = False\<rparr>
     \<lparr>sleep_pin = False, drv_awake = False\<rparr>)
     \<lparr>a_settings := settings_store_init (\<lambda>_. 0) ram_flash (\<lambda>_. 0xFF) settings_boot\<rparr>"

lemma blank_app_simps [simp]:
  "a_sh blank_app = blank_shared" "a_log blank_app = log_boot (\<lambda>_. 0xFF)" "stream_active blank_app = False"
  "cmd_msgq blank_app = []" "a_pot blank_app = pot_boot ()" "cur_conn blank_app = False"
  "a_rail blank_app = \<lparr>rail_pin = False, rail_on = False\<rparr>" "a_stream blank_app = stream_boot"
  "a_pwm blank_app = pwm_boot" "a_msgs blank_app = msg_boot" "wall_epoch_at_boot blank_app = 0"
  "settings_ok (a_settings blank_app)"
  by (simp_all add: blank_app_def app_boot_def settings_init_ok)

end
