(* ===== verification/Session.thy ===== *)
theory Session
  imports App_State
begin

text \<open>
  Run-state policy, \<open>src/app/session.c\<close>: the wall clock, the arbiter that powers the sensor only while
  a log session or a stream wants data, and the effects of starting, stopping and disconnecting.
  \<open>ble_conn_request_params\<close> of \<open>src/ble/ble_interface.c\<close>, which only this file calls besides its own,
  is here too.
\<close>

section \<open>Wall clock\<close>

definition session_time_sync :: "('f, 'b) platform \<Rightarrow> u32 \<Rightarrow> ('f, 'b) app_st \<Rightarrow> ('f, 'b) app_st" where
  "session_time_sync p epoch a = a\<lparr>wall_epoch_at_boot := epoch - uptime_s p\<rparr>"

definition session_wall_now :: "('f, 'b) platform \<Rightarrow> ('f, 'b) app_st \<Rightarrow> u32" where
  "session_wall_now p a =
     (if wall_epoch_at_boot a = 0 then 0 else wall_epoch_at_boot a + uptime_s p)"

section \<open>The sampling arbiter\<close>

definition session_imu_demand :: "('f, 'b) app_st \<Rightarrow> bool" where
  "session_imu_demand a \<longleftrightarrow> stream_active a \<or> imu_log_active a"

definition update_decim :: "('f, 'b) platform \<Rightarrow> ('f, 'b) app_st \<Rightarrow> ('f, 'b) app_st" where
  "update_decim p a = a\<lparr>a_stream := ble_transport_stream_update_decim (cfg_odr (a_sh a))
     (imu_log_active a) (pf_now p) (a_stream a)\<rparr>"

definition session_imu_run_update :: "('f, 'b) platform \<Rightarrow> ('f, 'b) app_st \<Rightarrow> ('f, 'b) app_st" where
  "session_imu_run_update p a =
     (if magic (a_sh a) \<noteq> IMU_SHARED_MAGIC then a
      else
        let get = (\<lambda>i. ucast (settings_get i (a_settings a)));
            content = (if session_imu_demand a then get SETTING_IMU_CONTENT else 0)
        in update_decim p
             (a\<lparr>a_sh := publish_cfg (get SETTING_IMU_ODR_CODE) content (get SETTING_IMU_ACCEL_FS)
                  (get SETTING_IMU_GYRO_FS) (a_sh a)\<rparr>))"

definition session_set_stream_active :: "('f, 'b) platform \<Rightarrow> bool \<Rightarrow> ('f, 'b) app_st \<Rightarrow> ('f, 'b) app_st" where
  "session_set_stream_active p on a = session_imu_run_update p (a\<lparr>stream_active := on\<rparr>)"

section \<open>Lifecycle\<close>

definition ble_conn_request_params :: "bool \<Rightarrow> ('f, 'b) app_st \<Rightarrow> ('f, 'b) app_st" where
  "ble_conn_request_params slow a =
     (if \<not> cur_conn a then a
      else a\<lparr>conn_req := Some (if slow then (32, 48, 0, 400) else (6, 12, 0, 400))\<rparr>)"

definition session_on_log_started :: "('f, 'b) platform \<Rightarrow> ('f, 'b) app_st \<Rightarrow> ('f, 'b) app_st" where
  "session_on_log_started p a = session_imu_run_update p (ble_conn_request_params True a)"

definition session_on_log_stopped :: "('f, 'b) platform \<Rightarrow> ('f, 'b) app_st \<Rightarrow> ('f, 'b) app_st" where
  "session_on_log_stopped p a = session_imu_run_update p (ble_conn_request_params False a)"

definition stream_enable :: "('f, 'b) platform \<Rightarrow> bool \<Rightarrow> ('f, 'b) app_st \<Rightarrow> ('f, 'b) app_st" where
  "stream_enable p on a =
     a\<lparr>a_stream := ble_transport_stream_enable on (cfg_odr (a_sh a)) (imu_log_active a) (pf_now p) (a_stream a)\<rparr>"

definition log_stop :: "('f, 'b) platform \<Rightarrow> ('f, 'b) app_st \<Rightarrow> ('f, 'b) app_st" where
  "log_stop p a =
     (let (l, m) = imu_log_stop (pf_flash p) (pf_sleep p) (a_log a, a_msgs a)
      in a\<lparr>a_log := l, a_msgs := m\<rparr>)"

definition session_on_disconnect :: "('f, 'b) platform \<Rightarrow> ('f, 'b) app_st \<Rightarrow> ('f, 'b) app_st" where
  "session_on_disconnect p a =
     (let a1 = stream_enable p False (a\<lparr>stream_active := False\<rparr>);
          a2 = a1\<lparr>a_dump := ble_transport_dump_abort (a_dump a1)\<rparr>;
          a3 = (if \<not> imu_log_detached (a_log a2) then log_stop p a2 else a2)
      in session_imu_run_update p a3)"

section \<open>What the operations keep\<close>

lemma post_frame [simp]:
  "a_settings (post p l a) = a_settings a" "a_log (post p l a) = a_log a" "a_stream (post p l a) = a_stream a"
  "a_dump (post p l a) = a_dump a" "a_sh (post p l a) = a_sh a" "a_rail (post p l a) = a_rail a"
  "a_bridge (post p l a) = a_bridge a" "a_pwm (post p l a) = a_pwm a" "a_pot (post p l a) = a_pot a"
  "a_led (post p l a) = a_led a" "stream_active (post p l a) = stream_active a"
  "cmd_msgq (post p l a) = cmd_msgq a" "cur_conn (post p l a) = cur_conn a"
  "wall_epoch_at_boot (post p l a) = wall_epoch_at_boot a" "app_reset_cause (post p l a) = app_reset_cause a"
  "drained_total (post p l a) = drained_total a" "conn_req (post p l a) = conn_req a"
  by (simp_all add: post_def)

lemma run_update_frame [simp]:
  "a_settings (session_imu_run_update p a) = a_settings a" "a_log (session_imu_run_update p a) = a_log a"
  "a_msgs (session_imu_run_update p a) = a_msgs a" "a_dump (session_imu_run_update p a) = a_dump a"
  "a_rail (session_imu_run_update p a) = a_rail a" "a_bridge (session_imu_run_update p a) = a_bridge a"
  "a_pwm (session_imu_run_update p a) = a_pwm a" "a_pot (session_imu_run_update p a) = a_pot a"
  "a_led (session_imu_run_update p a) = a_led a" "stream_active (session_imu_run_update p a) = stream_active a"
  "cmd_msgq (session_imu_run_update p a) = cmd_msgq a" "cur_conn (session_imu_run_update p a) = cur_conn a"
  "wall_epoch_at_boot (session_imu_run_update p a) = wall_epoch_at_boot a"
  "conn_req (session_imu_run_update p a) = conn_req a"
  "magic (a_sh (session_imu_run_update p a)) = magic (a_sh a)"
  by (simp_all add: session_imu_run_update_def update_decim_def publish_cfg_def Let_def)

lemma conn_params_frame [simp]:
  "a_settings (ble_conn_request_params s a) = a_settings a" "a_log (ble_conn_request_params s a) = a_log a"
  "a_msgs (ble_conn_request_params s a) = a_msgs a" "a_dump (ble_conn_request_params s a) = a_dump a"
  "a_sh (ble_conn_request_params s a) = a_sh a" "a_stream (ble_conn_request_params s a) = a_stream a"
  "a_rail (ble_conn_request_params s a) = a_rail a" "a_bridge (ble_conn_request_params s a) = a_bridge a"
  "a_pwm (ble_conn_request_params s a) = a_pwm a" "a_pot (ble_conn_request_params s a) = a_pot a"
  "a_led (ble_conn_request_params s a) = a_led a" "stream_active (ble_conn_request_params s a) = stream_active a"
  "cmd_msgq (ble_conn_request_params s a) = cmd_msgq a" "cur_conn (ble_conn_request_params s a) = cur_conn a"
  "wall_epoch_at_boot (ble_conn_request_params s a) = wall_epoch_at_boot a"
  by (simp_all add: ble_conn_request_params_def)

lemma stream_enable_frame [simp]:
  "a_settings (stream_enable p on a) = a_settings a" "a_log (stream_enable p on a) = a_log a"
  "a_msgs (stream_enable p on a) = a_msgs a" "a_dump (stream_enable p on a) = a_dump a"
  "a_sh (stream_enable p on a) = a_sh a" "a_rail (stream_enable p on a) = a_rail a"
  "a_bridge (stream_enable p on a) = a_bridge a" "a_pwm (stream_enable p on a) = a_pwm a"
  "a_pot (stream_enable p on a) = a_pot a" "a_led (stream_enable p on a) = a_led a"
  "stream_active (stream_enable p on a) = stream_active a" "cmd_msgq (stream_enable p on a) = cmd_msgq a"
  "cur_conn (stream_enable p on a) = cur_conn a" "wall_epoch_at_boot (stream_enable p on a) = wall_epoch_at_boot a"
  by (simp_all add: stream_enable_def)

lemma log_stop_frame [simp]:
  "a_settings (log_stop p a) = a_settings a" "a_stream (log_stop p a) = a_stream a"
  "a_dump (log_stop p a) = a_dump a" "a_sh (log_stop p a) = a_sh a" "a_rail (log_stop p a) = a_rail a"
  "a_bridge (log_stop p a) = a_bridge a" "a_pwm (log_stop p a) = a_pwm a" "a_pot (log_stop p a) = a_pot a"
  "a_led (log_stop p a) = a_led a" "stream_active (log_stop p a) = stream_active a"
  "cmd_msgq (log_stop p a) = cmd_msgq a" "cur_conn (log_stop p a) = cur_conn a"
  "wall_epoch_at_boot (log_stop p a) = wall_epoch_at_boot a"
  by (simp_all add: log_stop_def split_beta)

text \<open>After a stop no session runs, whatever happened while it waited.\<close>

lemma stop_inactive: "\<not> active (fst (imu_log_stop fd env s))"
proof (cases "active (fst s)")
  case True
  obtain l m where w: "writer_flush 200 env s = (l, m)" by force
  have "\<not> active (stop_finish fd l)"
    by (auto simp: stop_finish_def dir_refresh_current_def split: option.splits)
  then show ?thesis using True w by (simp add: imu_log_stop_def)
qed (simp add: imu_log_stop_def)

lemma log_stop_inactive [simp]: "\<not> active (a_log (log_stop p a))"
  using stop_inactive [of "pf_flash p" "pf_sleep p" "(a_log a, a_msgs a)"]
  by (simp add: log_stop_def split_beta)

section \<open>Demand and configuration\<close>

text \<open>
  The sampling configuration in the shared block is in step with the demand: the sensor is told to
  run exactly when somebody wants data, with the stored sampling settings. The block is only
  written after the FLPR announced itself.
\<close>

definition arbitrated :: "('f, 'b) app_st \<Rightarrow> bool" where
  "arbitrated a \<longleftrightarrow> magic (a_sh a) = IMU_SHARED_MAGIC \<and>
     cfg_content (a_sh a) = (if session_imu_demand a
       then ucast (settings_get SETTING_IMU_CONTENT (a_settings a)) else 0) \<and>
     cfg_odr (a_sh a) = ucast (settings_get SETTING_IMU_ODR_CODE (a_settings a)) \<and>
     cfg_accel_fs (a_sh a) = ucast (settings_get SETTING_IMU_ACCEL_FS (a_settings a)) \<and>
     cfg_gyro_fs (a_sh a) = ucast (settings_get SETTING_IMU_GYRO_FS (a_settings a))"

lemma run_update_arbitrates: "magic (a_sh a) = IMU_SHARED_MAGIC \<Longrightarrow> arbitrated (session_imu_run_update p a)"
  by (simp add: arbitrated_def session_imu_demand_def imu_log_active_def session_imu_run_update_def
      update_decim_def publish_cfg_def Let_def)

lemma arbitrated_cong:
  assumes "arbitrated a" "a_settings a' = a_settings a" "a_sh a' = a_sh a"
    "stream_active a' = stream_active a" "active (a_log a') = active (a_log a)"
  shows "arbitrated a'"
  using assms by (simp add: arbitrated_def session_imu_demand_def imu_log_active_def)

lemma u16_small:
  fixes v :: u16
  assumes "v \<le> 255"
  shows "unat (ucast v :: u8) = unat v"
  using assms by (intro unat_ucast_down) (simp add: word_le_nat_alt)

text \<open>Whatever is published is a configuration the sensor driver accepts, or switches the sensor off.\<close>

lemma arbitrated_cfg:
  assumes "arbitrated a" "settings_ok (a_settings a)"
  shows "if session_imu_demand a
    then cfg_valid (cfg_odr (a_sh a)) (cfg_content (a_sh a)) (cfg_accel_fs (a_sh a)) (cfg_gyro_fs (a_sh a)) \<and>
      cfg_content (a_sh a) \<noteq> 0
    else cfg_content (a_sh a) = 0"
proof (cases "session_imu_demand a")
  case True
  note v = registry.imu_cfg_valid [OF assms(2)]
  let ?g = "\<lambda>i. settings_get i (a_settings a)"
  have small: "?g SETTING_IMU_ODR_CODE \<le> 255" "?g SETTING_IMU_CONTENT \<le> 255" "?g SETTING_IMU_ACCEL_FS \<le> 255"
    "?g SETTING_IMU_GYRO_FS \<le> 255"
    using v by (auto intro: order_trans)
  have c: "1 \<le> unat (?g SETTING_IMU_CONTENT)" "unat (?g SETTING_IMU_CONTENT) \<le> 3"
    using v(3,4) by (simp_all add: word_le_nat_alt)
  then have "?g SETTING_IMU_CONTENT = 1 \<or> ?g SETTING_IMU_CONTENT = 2 \<or> ?g SETTING_IMU_CONTENT = 3"
    by (simp add: word_unat_eq_iff) linarith
  then show ?thesis using True assms(1) v small
    by (auto simp: arbitrated_def cfg_valid_def word_le_nat_alt word_less_nat_alt u16_small)
qed (use assms(1) in \<open>simp add: arbitrated_def\<close>)

end
