(* ===== verification/Device_Cmd.thy ===== *)
theory Device_Cmd
  imports Session
begin

text \<open>
  The command queue of \<open>src/app/device_cmd.c\<close>: slow operations run on a thread of their own, one after
  the other, from a message queue of eight entries. \<open>k_msgq_put\<close> without waiting is Zephyr's; it gives
  \<open>-ENOMSG\<close> when the queue is full.
\<close>

section \<open>Queue and execution\<close>

abbreviation CMD_QUEUE_DEPTH :: nat where "CMD_QUEUE_DEPTH \<equiv> 8"
abbreviation ENOMSG :: int where "ENOMSG \<equiv> 35"

definition device_cmd_submit :: "device_cmd \<Rightarrow> ('f, 'b) app_st \<Rightarrow> int \<times> ('f, 'b) app_st" where
  "device_cmd_submit cmd a =
     (if length (cmd_msgq a) \<ge> CMD_QUEUE_DEPTH then (- ENOMSG, a)
      else (0, a\<lparr>cmd_msgq := cmd_msgq a @ [cmd]\<rparr>))"

definition vdc_failed_msg :: "u16 \<Rightarrow> int \<Rightarrow> string" where
  "vdc_failed_msg mv ret = ''VDC set to '' @ fmt_u (ucast mv) @ '' mV failed ('' @ fmt_d ret @ '')''"

text \<open>The measurement after a voltage change only feeds the console.\<close>

definition exec_volt :: "('f, 'b) platform \<Rightarrow> u16 \<Rightarrow> ('f, 'b) app_st \<Rightarrow> ('f, 'b) app_st" where
  "exec_volt p mv a =
     (let (ret, pot) = max5419_set_voltage (pf_i2c p) (volts_of_mv mv) (a_pot a);
          a1 = a\<lparr>a_pot := pot\<rparr>
      in if ret < 0 then post p (vdc_failed_msg mv ret) a1
         else a1\<lparr>a_settings := settings_set SETTING_MOTOR_VDC_MV mv (a_settings a1)\<rparr>)"

definition log_start :: "('f, 'b) platform \<Rightarrow> ('f, 'b) app_st \<Rightarrow> int \<times> ('f, 'b) app_st" where
  "log_start p a =
     (let (ret, l) = imu_log_start (pf_flash p) (a_settings a) (session_wall_now p a) (a_log a)
      in (ret, a\<lparr>a_log := l\<rparr>))"

definition exec_log :: "('f, 'b) platform \<Rightarrow> u8 \<Rightarrow> ('f, 'b) app_st \<Rightarrow> ('f, 'b) app_st" where
  "exec_log p op a =
     (if op = DEVICE_LOG_OP_STOP then session_on_log_stopped p (log_stop p a)
      else if op = DEVICE_LOG_OP_START then
        (let (ret, a1) = log_start p a in if ret = 0 then session_on_log_started p a1 else a1)
      else if op = DEVICE_LOG_OP_START_DETACHED then
        (let (ret, a1) = log_start p a
         in if ret = 0 then session_on_log_started p (a1\<lparr>a_log := imu_log_mark_detached (a_log a1)\<rparr>) else a1)
      else if op = DEVICE_LOG_OP_ERASE then
        (let (l, m) = imu_log_erase (pf_flash p) (pf_version p) (pf_sleep p) (a_log a, a_msgs a)
         in a\<lparr>a_log := l, a_msgs := m\<rparr>)
      else a)"

fun execute :: "('f, 'b) platform \<Rightarrow> device_cmd \<Rightarrow> ('f, 'b) app_st \<Rightarrow> ('f, 'b) app_st" where
  "execute p (DEVICE_CMD_SET_VOLT_MV mv) a = exec_volt p mv a"
| "execute p (DEVICE_CMD_LOG op) a = exec_log p op a"

text \<open>One turn of the command thread; it sleeps while the queue is empty.\<close>

definition cmd_thread :: "('f, 'b) platform \<Rightarrow> ('f, 'b) app_st \<Rightarrow> ('f, 'b) app_st" where
  "cmd_thread p a =
     (case cmd_msgq a of [] \<Rightarrow> a | cmd # rest \<Rightarrow> execute p cmd (a\<lparr>cmd_msgq := rest\<rparr>))"

section \<open>Effects\<close>

lemma exec_volt_frame [simp]:
  "a_log (exec_volt p mv a) = a_log a" "a_stream (exec_volt p mv a) = a_stream a"
  "a_dump (exec_volt p mv a) = a_dump a" "a_sh (exec_volt p mv a) = a_sh a"
  "a_rail (exec_volt p mv a) = a_rail a" "a_bridge (exec_volt p mv a) = a_bridge a"
  "a_pwm (exec_volt p mv a) = a_pwm a" "a_led (exec_volt p mv a) = a_led a"
  "stream_active (exec_volt p mv a) = stream_active a" "cmd_msgq (exec_volt p mv a) = cmd_msgq a"
  "cur_conn (exec_volt p mv a) = cur_conn a" "wall_epoch_at_boot (exec_volt p mv a) = wall_epoch_at_boot a"
  by (simp_all add: exec_volt_def split_beta Let_def)

lemma log_start_frame:
  assumes "log_start p a = (ret, a')"
  shows "a_settings a' = a_settings a" "a_stream a' = a_stream a" "a_dump a' = a_dump a" "a_sh a' = a_sh a"
    "a_rail a' = a_rail a" "a_bridge a' = a_bridge a" "a_pwm a' = a_pwm a" "a_pot a' = a_pot a"
    "a_led a' = a_led a" "stream_active a' = stream_active a" "cmd_msgq a' = cmd_msgq a"
    "cur_conn a' = cur_conn a" "wall_epoch_at_boot a' = wall_epoch_at_boot a" "a_msgs a' = a_msgs a"
  using assms by (auto simp: log_start_def split_beta)

lemma log_start_active:
  assumes "log_start p a = (ret, a')"
  shows "if ret = 0 then active (a_log a') \<and> \<not> active (a_log a) else active (a_log a') = active (a_log a)"
  using assms by (auto simp: log_start_def imu_log_start_def Let_def split_beta split: if_splits)

lemma erase_inactive: "\<not> active (fst (imu_log_erase fd v env s))"
  using stop_inactive [of fd env s] by (simp add: imu_log_erase_def split_beta)

text \<open>Outside the log, the stream, the shared block and the messages a log command changes nothing.\<close>

lemma exec_log_frame [simp]:
  "a_settings (exec_log p op a) = a_settings a" "a_dump (exec_log p op a) = a_dump a"
  "a_rail (exec_log p op a) = a_rail a" "a_bridge (exec_log p op a) = a_bridge a"
  "a_pwm (exec_log p op a) = a_pwm a" "a_pot (exec_log p op a) = a_pot a" "a_led (exec_log p op a) = a_led a"
  "stream_active (exec_log p op a) = stream_active a" "cmd_msgq (exec_log p op a) = cmd_msgq a"
  "cur_conn (exec_log p op a) = cur_conn a" "magic (a_sh (exec_log p op a)) = magic (a_sh a)"
proof -
  obtain ret a1 where "log_start p a = (ret, a1)" by force
  note fr = this log_start_frame [OF this]
  show "a_settings (exec_log p op a) = a_settings a" "a_dump (exec_log p op a) = a_dump a"
    "a_rail (exec_log p op a) = a_rail a" "a_bridge (exec_log p op a) = a_bridge a"
    "a_pwm (exec_log p op a) = a_pwm a" "a_pot (exec_log p op a) = a_pot a" "a_led (exec_log p op a) = a_led a"
    "stream_active (exec_log p op a) = stream_active a" "cmd_msgq (exec_log p op a) = cmd_msgq a"
    "cur_conn (exec_log p op a) = cur_conn a" "magic (a_sh (exec_log p op a)) = magic (a_sh a)"
    by (simp_all add: exec_log_def fr session_on_log_started_def session_on_log_stopped_def split_beta)
qed

lemma execute_frame [simp]:
  "a_rail (execute p c a) = a_rail a" "a_bridge (execute p c a) = a_bridge a" "a_pwm (execute p c a) = a_pwm a"
  "a_led (execute p c a) = a_led a" "a_dump (execute p c a) = a_dump a"
  "stream_active (execute p c a) = stream_active a" "cmd_msgq (execute p c a) = cmd_msgq a"
  "cur_conn (execute p c a) = cur_conn a" "magic (a_sh (execute p c a)) = magic (a_sh a)"
  by (cases c; simp)+

lemma exec_volt_settings:
  "i \<noteq> SETTING_MOTOR_VDC_MV \<Longrightarrow> settings_get i (a_settings (exec_volt p mv a)) = settings_get i (a_settings a)"
  by (simp add: exec_volt_def split_beta Let_def registry.get_put_other)

lemma execute_settings_ok: "settings_ok (a_settings a) \<Longrightarrow> settings_ok (a_settings (execute p c a))"
  by (cases c) (simp_all add: exec_volt_def split_beta Let_def settings_set_ok)

text \<open>Every command but an erase leaves the arbitration in step.\<close>

lemma exec_volt_arbitrated: "arbitrated a \<Longrightarrow> arbitrated (exec_volt p mv a)"
  by (simp add: arbitrated_def session_imu_demand_def imu_log_active_def exec_volt_settings)

lemma exec_log_arbitrated:
  assumes "arbitrated a" "op \<noteq> DEVICE_LOG_OP_ERASE"
  shows "arbitrated (exec_log p op a)"
proof -
  have m: "magic (a_sh a) = IMU_SHARED_MAGIC" using assms(1) by (simp add: arbitrated_def)
  obtain ret a1 where st: "log_start p a = (ret, a1)" by force
  note fr = log_start_frame [OF st]
  have keep: "arbitrated a1" if "ret \<noteq> 0"
    using arbitrated_cong [OF assms(1) fr(1,4,10)] log_start_active [OF st] that by simp
  show ?thesis
    using assms keep m
    by (auto simp: exec_log_def st fr session_on_log_started_def session_on_log_stopped_def
        intro!: run_update_arbitrates)
qed

lemma cmd_thread_arbitrated:
  assumes "arbitrated a" "DEVICE_CMD_LOG DEVICE_LOG_OP_ERASE \<notin> set (cmd_msgq a)"
  shows "arbitrated (cmd_thread p a)"
proof (cases "cmd_msgq a")
  case (Cons c cs)
  have "arbitrated (a\<lparr>cmd_msgq := cs\<rparr>)" by (rule arbitrated_cong [OF assms(1)]) simp_all
  then show ?thesis using assms(2) Cons
    by (cases c) (auto simp: cmd_thread_def intro!: exec_volt_arbitrated exec_log_arbitrated)
qed (use assms in \<open>simp add: cmd_thread_def\<close>)

end
