(* ===== verification/Ble_Gatt.thy ===== *)
theory Ble_Gatt
  imports Device_Cmd
begin

text \<open>
  The GATT service of \<open>src/ble/ble_interface.c\<close>: every write handler (0xFFE1 to 0xFFF1), every read
  handler with the packet it sends, and the table that attaches them to the characteristics. A write
  handler gets the offset and the bytes (their number is \<open>len\<close>) and returns the error or the length.
\<close>

type_synonym ('f, 'b) write_handler =
  "('f, 'b) platform \<Rightarrow> u16 \<Rightarrow> u8 list \<Rightarrow> ('f, 'b) app_st \<Rightarrow> (att_err + nat) \<times> ('f, 'b) app_st"
type_synonym ('f, 'b) read_handler =
  "('f, 'b) platform \<Rightarrow> u16 \<Rightarrow> u16 \<Rightarrow> ('f, 'b) app_st \<Rightarrow> att_err + u8 list"

section \<open>Motor\<close>

definition on_freq_write :: "('f, 'b) write_handler" where
  "on_freq_write p offset buf a =
     (if length buf \<noteq> 2 \<or> offset \<noteq> 0 then (Inl INVALID_OFFSET, a)
      else
        let hz = get_le16 buf
        in if hz < DRV_PWM_FREQ_MIN_HZ \<or> hz > DRV_PWM_FREQ_MAX_HZ then (Inl VALUE_NOT_ALLOWED, a)
           else
             let (ret, pwm) = drv_pwm_set_frequency (pf_pwm p) hz (a_pwm a);
                 a1 = a\<lparr>a_pwm := pwm\<rparr>
             in if ret < 0 then (Inl UNLIKELY, a1)
                else (Inr (length buf), a1\<lparr>a_settings := settings_set SETTING_MOTOR_FREQ_HZ hz (a_settings a1)\<rparr>))"

definition on_volt_write :: "('f, 'b) write_handler" where
  "on_volt_write p offset buf a =
     (if length buf \<noteq> 2 \<or> offset \<noteq> 0 then (Inl INVALID_OFFSET, a)
      else
        let mv = get_le16 buf
        in if mv < MAX5419_VOUT_MIN_MV \<or> mv > MAX5419_VOUT_MAX_MV then (Inl VALUE_NOT_ALLOWED, a)
           else
             let (ret, a1) = device_cmd_submit (DEVICE_CMD_SET_VOLT_MV mv) a
             in if ret < 0 then (Inl UNLIKELY, a1) else (Inr (length buf), a1))"

definition on_rail_write :: "('f, 'b) write_handler" where
  "on_rail_write p offset buf a =
     (if length buf \<noteq> 1 \<or> offset \<noteq> 0 then (Inl INVALID_OFFSET, a)
      else
        let on = hd buf
        in if on > 1 then (Inl VALUE_NOT_ALLOWED, a)
           else (Inr (length buf), a\<lparr>a_rail := drv_stbb1_apur_set (on \<noteq> 0) (a_rail a)\<rparr>))"

definition on_drv_write :: "('f, 'b) write_handler" where
  "on_drv_write p offset buf a =
     (if length buf \<noteq> 1 \<or> offset \<noteq> 0 then (Inl INVALID_OFFSET, a)
      else
        let awake = hd buf
        in if awake > 1 then (Inl VALUE_NOT_ALLOWED, a)
           else (Inr (length buf), a\<lparr>a_bridge := drv_drv8212_set (awake \<noteq> 0) (a_bridge a)\<rparr>))"

section \<open>Throughput probe, clock, LED\<close>

definition on_tput_write :: "('f, 'b) write_handler" where
  "on_tput_write p offset buf a =
     (Inr (length buf), a\<lparr>tput_rx_bytes := tput_rx_bytes a + of_nat (length buf)\<rparr>)"

definition on_time_write :: "('f, 'b) write_handler" where
  "on_time_write p offset buf a =
     (if length buf \<noteq> 4 \<or> offset \<noteq> 0 then (Inl INVALID_OFFSET, a)
      else
        let epoch = get_le32 buf
        in if epoch = 0 then (Inl VALUE_NOT_ALLOWED, a)
           else (Inr (length buf), session_time_sync p epoch a))"

definition on_led_write :: "('f, 'b) write_handler" where
  "on_led_write p offset buf a =
     (if length buf \<noteq> 1 \<or> offset \<noteq> 0 then (Inl INVALID_OFFSET, a)
      else
        let on = hd buf
        in if on > 1 then (Inl VALUE_NOT_ALLOWED, a)
           else
             let a1 = a\<lparr>a_led := drv_led_set_enabled (on \<noteq> 0) (a_led a)\<rparr>
             in (Inr (length buf), a1\<lparr>a_settings := settings_set SETTING_LED_ENABLED (ucast on) (a_settings a1)\<rparr>))"

section \<open>Sampling configuration, stream, log, dump, identity\<close>

definition imucfg_rejected :: "u8 \<Rightarrow> u8 \<Rightarrow> u8 \<Rightarrow> u8 \<Rightarrow> bool" where
  "imucfg_rejected odr content afs gfs \<longleftrightarrow>
     odr < IMU_ODR_12HZ5 \<or> odr > IMU_ODR_6660HZ \<or> content = 0 \<or>
     content AND NOT (IMU_CONTENT_ACCEL OR IMU_CONTENT_GYRO) \<noteq> 0 \<or> afs > 3 \<or> gfs > 3"

definition on_imucfg_write :: "('f, 'b) write_handler" where
  "on_imucfg_write p offset buf a =
     (if length buf < 4 \<or> offset \<noteq> 0 then (Inl INVALID_OFFSET, a)
      else
        let odr = buf ! 0; content = buf ! 1; afs = buf ! 2; gfs = buf ! 3
        in if imucfg_rejected odr content afs gfs then (Inl VALUE_NOT_ALLOWED, a)
           else if magic (a_sh a) \<noteq> IMU_SHARED_MAGIC then (Inl UNLIKELY, a)
           else
             let preview = (if length buf \<ge> 6 then get_le16 (drop 4 buf) else 0);
                 a1 = a\<lparr>a_stream := ble_stream_set_preview preview (cfg_odr (a_sh a)) (imu_log_active a)
                          (pf_now p) (a_stream a)\<rparr>;
                 s1 = settings_set SETTING_IMU_ODR_CODE (ucast odr) (a_settings a1);
                 s2 = settings_set SETTING_IMU_CONTENT (ucast content) s1;
                 s3 = settings_set SETTING_IMU_ACCEL_FS (ucast afs) s2;
                 s4 = settings_set SETTING_IMU_GYRO_FS (ucast gfs) s3;
                 s5 = settings_set SETTING_PREVIEW_HZ preview s4
             in (Inr (length buf), session_imu_run_update p (a1\<lparr>a_settings := s5\<rparr>)))"

text \<open>\<open>BT_GATT_CCC_NOTIFY\<close> is 1.\<close>

definition stream_ccc_changed :: "('f, 'b) platform \<Rightarrow> u16 \<Rightarrow> ('f, 'b) app_st \<Rightarrow> ('f, 'b) app_st" where
  "stream_ccc_changed p value a =
     (let on = (value = 1) in session_set_stream_active p on (stream_enable p on a))"

definition on_logctl_write :: "('f, 'b) write_handler" where
  "on_logctl_write p offset buf a =
     (if length buf < 1 \<or> offset \<noteq> 0 then (Inl INVALID_OFFSET, a)
      else
        let op = hd buf
        in if op > DEVICE_LOG_OP_START_DETACHED then (Inl VALUE_NOT_ALLOWED, a)
           else if (op = DEVICE_LOG_OP_START \<or> op = DEVICE_LOG_OP_START_DETACHED) \<and> imu_log_active a
           then (Inl VALUE_NOT_ALLOWED, a)
           else
             let (ret, a1) = device_cmd_submit (DEVICE_CMD_LOG op) a
             in if ret < 0 then (Inl UNLIKELY, a1) else (Inr (length buf), a1))"

definition on_dump_write :: "('f, 'b) write_handler" where
  "on_dump_write p offset buf a =
     (if length buf \<noteq> 12 \<or> offset \<noteq> 0 then (Inl INVALID_OFFSET, a)
      else (Inr (length buf), a\<lparr>a_dump := ble_transport_dump_request (get_le32 buf) (get_le32 (drop 4 buf))
              (get_le32 (drop 8 buf)) (a_dump a)\<rparr>))"

definition on_robotid_write :: "('f, 'b) write_handler" where
  "on_robotid_write p offset buf a =
     (if length buf \<noteq> 1 \<or> offset \<noteq> 0 then (Inl INVALID_OFFSET, a)
      else
        let i = hd buf
        in if ucast i > settings_max SETTING_ROBOT_ID then (Inl VALUE_NOT_ALLOWED, a)
           else (Inr (length buf), a\<lparr>a_settings := settings_set SETTING_ROBOT_ID (ucast i) (a_settings a)\<rparr>))"

section \<open>Reads\<close>

definition flag :: "bool \<Rightarrow> u8" where
  "flag b = (if b then 1 else 0)"

definition on_vdc_read :: "('f, 'b) read_handler" where
  "on_vdc_read p len offset a =
     (case drv_vdc_sense_read_mv (pf_adc p) (pf_to_mv p) of
        Inl _ \<Rightarrow> Inl UNLIKELY
      | Inr mv \<Rightarrow> pf_attr_read p len offset (le16 (vdc_u16 mv)))"

abbreviation STATUS_PKT_VERSION :: u8 where "STATUS_PKT_VERSION \<equiv> 3"
abbreviation IMU_LOG_POLICY_CIRCULAR :: u8 where "IMU_LOG_POLICY_CIRCULAR \<equiv> 1"

text \<open>The measured rail in the status packet: 0 when the measurement failed.\<close>

definition status_vdc :: "('f, 'b) platform \<Rightarrow> u16" where
  "status_vdc p = (case drv_vdc_sense_read_mv (pf_adc p) (pf_to_mv p) of Inl _ \<Rightarrow> 0 | Inr mv \<Rightarrow> vdc_u16 mv)"

definition status_pkt :: "('f, 'b) platform \<Rightarrow> ('f, 'b) app_st \<Rightarrow> u8 list" where
  "status_pkt p a =
     (let sh = a_sh a; v = pf_version p
      in [STATUS_PKT_VERSION, ver_major v, ver_minor v, ver_patch v]
         @ le16 (drv_pwm_get_frequency (a_pwm a))
         @ [drv_pwm_get_duty 0 (a_pwm a), drv_pwm_get_duty 1 (a_pwm a)]
         @ le16 (max5419_get_target_mv (a_pot a)) @ le16 (status_vdc p)
         @ [flag (rail_on (a_rail a)), flag (drv_awake (a_bridge a)),
            flag (magic sh = IMU_SHARED_MAGIC \<and> imu_ok sh \<noteq> 0), flag (led_enabled (a_led a))]
         @ le32 (uptime_s p) @ le32 (app_reset_cause a)
         @ le32 (if magic sh = IMU_SHARED_MAGIC then flpr_version sh else 0)
         @ [cfg_odr sh, cfg_content sh, flag (imu_log_active a),
            IMU_LOG_POLICY_CIRCULAR OR (if imu_log_detached (a_log a) then 2 else 0)]
         @ le32 (imu_log_bytes_stored (a_log a)) @ le32 DATA_CAPACITY @ le32 (imu_pump_overrun sh))"

definition on_status_read :: "('f, 'b) read_handler" where
  "on_status_read p len offset a = pf_attr_read p len offset (status_pkt p a)"

definition on_tput_read :: "('f, 'b) read_handler" where
  "on_tput_read p len offset a = pf_attr_read p len offset (le32 (tput_rx_bytes a))"

definition on_time_read :: "('f, 'b) read_handler" where
  "on_time_read p len offset a = pf_attr_read p len offset (le32 (session_wall_now p a))"

definition on_led_read :: "('f, 'b) read_handler" where
  "on_led_read p len offset a = pf_attr_read p len offset [flag (led_enabled (a_led a))]"

definition imucfg_pkt :: "('f, 'b) app_st \<Rightarrow> u8 list" where
  "imucfg_pkt a =
     (let sh = a_sh a
      in [cfg_odr sh, cfg_content sh, cfg_accel_fs sh, cfg_gyro_fs sh, flag (cfg_applied sh = cfg_seq sh),
          of_int (clamp (cfg_status sh) (- 128) 0), stream_decim (a_stream a), 0] @ le32 (overrun sh))"

definition on_imucfg_read :: "('f, 'b) read_handler" where
  "on_imucfg_read p len offset a = pf_attr_read p len offset (imucfg_pkt a)"

definition logctl_pkt :: "('f, 'b) app_st \<Rightarrow> u8 list" where
  "logctl_pkt a =
     [flag (imu_log_active a), IMU_LOG_POLICY_CIRCULAR, 0, 0] @ le32 (imu_log_bytes_stored (a_log a))
       @ le32 DATA_CAPACITY @ le32 (cur_count (a_log a)) @ le32 (imu_pump_overrun (a_sh a))"

definition on_logctl_read :: "('f, 'b) read_handler" where
  "on_logctl_read p len offset a = pf_attr_read p len offset (logctl_pkt a)"

definition enc_session :: "imu_log_session \<Rightarrow> u8 list" where
  "enc_session s = le32 (ls_seq s) @ le32 (ls_wall_start s) @ le32 (ls_rec_count s)
     @ [ls_odr_code s, ls_content s, ls_accel_fs s, ls_gyro_fs s]"

definition dir_pkt :: "imu_log_session list \<Rightarrow> u8 list" where
  "dir_pkt ls = [of_nat (length ls), 0, 0, 0] @ concat (map enc_session ls)"

definition on_dir_read :: "('f, 'b) read_handler" where
  "on_dir_read p len offset a =
     pf_attr_read p len offset
       (dir_pkt (imu_log_session_list (pf_flash p) (unat IMU_LOG_MAX_SESSIONS) (a_log a)))"

definition on_t2log_read :: "('f, 'b) read_handler" where
  "on_t2log_read p len offset a =
     pf_attr_read p len offset (map of_char (ble_transport_t2_snapshot 2048 (a_msgs a)))"

definition on_robotid_read :: "('f, 'b) read_handler" where
  "on_robotid_read p len offset a =
     pf_attr_read p len offset [ucast (settings_get SETTING_ROBOT_ID (a_settings a))]"

section \<open>The service\<close>

datatype chrc = FREQ | VOLT | VDCMEAS | RAIL | DRV | STATUS | TPUT | IMUCFG | STREAM | LOGCTL | DUMP
  | MSG | LED | TIME | DIR | T2LOG | ROBOTID

fun svc_write :: "chrc \<Rightarrow> ('f, 'b) write_handler option" where
  "svc_write FREQ = Some on_freq_write"
| "svc_write VOLT = Some on_volt_write"
| "svc_write RAIL = Some on_rail_write"
| "svc_write DRV = Some on_drv_write"
| "svc_write TPUT = Some on_tput_write"
| "svc_write IMUCFG = Some on_imucfg_write"
| "svc_write LOGCTL = Some on_logctl_write"
| "svc_write DUMP = Some on_dump_write"
| "svc_write LED = Some on_led_write"
| "svc_write TIME = Some on_time_write"
| "svc_write ROBOTID = Some on_robotid_write"
| "svc_write _ = None"

fun svc_read :: "chrc \<Rightarrow> ('f, 'b) read_handler option" where
  "svc_read VDCMEAS = Some on_vdc_read"
| "svc_read STATUS = Some on_status_read"
| "svc_read TPUT = Some on_tput_read"
| "svc_read IMUCFG = Some on_imucfg_read"
| "svc_read LOGCTL = Some on_logctl_read"
| "svc_read LED = Some on_led_read"
| "svc_read TIME = Some on_time_read"
| "svc_read DIR = Some on_dir_read"
| "svc_read T2LOG = Some on_t2log_read"
| "svc_read ROBOTID = Some on_robotid_read"
| "svc_read _ = None"

section \<open>Refusals\<close>

lemmas write_handlers = on_freq_write_def on_volt_write_def on_rail_write_def on_drv_write_def on_tput_write_def
  on_time_write_def on_led_write_def on_imucfg_write_def on_logctl_write_def on_dump_write_def on_robotid_write_def

lemma submit_result:
  assumes "device_cmd_submit c a = (ret, a')"
  shows "if ret < 0 then a' = a else ret = 0 \<and> a' = a\<lparr>cmd_msgq := cmd_msgq a @ [c]\<rparr>"
  using assms by (auto simp: device_cmd_submit_def split: if_splits)

text \<open>C29: A refused write changes nothing on the robot, whatever the characteristic, the offset and the
  bytes; the one exception is a frequency the PWM hardware rejects, where only the PWM state may have
  changed. An accepted write reports the length it was given.\<close>

theorem gatt_refused_write_unchanged:
  assumes "svc_write c = Some h" "h p offset buf a = (r, a')"
  shows "case r of
      Inl e \<Rightarrow> if c = FREQ \<and> e = UNLIKELY then a' = a\<lparr>a_pwm := a_pwm a'\<rparr> else a' = a
    | Inr n \<Rightarrow> n = length buf"
proof -
  obtain ret a1 where s: "device_cmd_submit (DEVICE_CMD_LOG (hd buf)) a = (ret, a1)" by force
  obtain ret2 a2 where s2: "device_cmd_submit (DEVICE_CMD_SET_VOLT_MV (get_le16 buf)) a = (ret2, a2)" by force
  obtain ret3 pwm where f: "drv_pwm_set_frequency (pf_pwm p) (get_le16 buf) (a_pwm a) = (ret3, pwm)" by force
  show ?thesis
    using assms submit_result [OF s] submit_result [OF s2]
    by (cases c) (auto simp: write_handlers s s2 f Let_def split: if_splits)
qed

theorem gatt_refused_write_unchanged_witness:
  "svc_write RAIL = Some on_rail_write \<and>
   on_rail_write quiet_platform 0 [7] blank_app = (Inl VALUE_NOT_ALLOWED, blank_app)"
proof -
  obtain a' where r: "on_rail_write quiet_platform 0 [7] blank_app = (Inl VALUE_NOT_ALLOWED, a')"
    by (simp add: on_rail_write_def)
  have s: "svc_write RAIL = Some on_rail_write" by simp
  show ?thesis using gatt_refused_write_unchanged [OF s r] r s by simp
qed

section \<open>Accepted writes\<close>

lemma u8_mask:
  fixes w :: u8
  assumes "w AND NOT 3 = 0"
  shows "unat w \<le> 3"
proof -
  have "w = w AND (3 OR NOT 3)" by simp
  also have "\<dots> = (w AND 3) OR (w AND NOT 3)" by (rule bit.conj_disj_distrib)
  also have "\<dots> = w AND mask 2" using assms by (simp add: mask_eq_exp_minus_1)
  finally have e: "w AND mask 2 = w" by (rule sym)
  have "unat (w AND mask 2) = unat w mod 2 ^ 2"
    by (simp add: take_bit_eq_mask [symmetric] take_bit_eq_mod unat_mod)
  then have "unat w = unat w mod 4" unfolding e by simp
  then show ?thesis by presburger
qed

text \<open>A configuration that passes the handler's check lies in the ranges of the settings registry.\<close>

lemma imucfg_in_registry:
  assumes "\<not> imucfg_rejected odr content afs gfs"
  shows "1 \<le> (ucast odr :: u16)" "(ucast odr :: u16) \<le> 10" "1 \<le> (ucast content :: u16)" "(ucast content :: u16) \<le> 3"
    "(ucast afs :: u16) \<le> 3" "(ucast gfs :: u16) \<le> 3"
proof -
  have u: "unat (ucast w :: u16) = unat w" for w :: u8
    using unat_bounds(1) [of w] by (simp add: unsigned_ucast_eq take_bit_nat_eq_self)
  have "unat content \<noteq> 0" "unat content \<le> 3"
    using assms u8_mask [of content] by (simp_all add: imucfg_rejected_def word_unat_eq_iff)
  then show "1 \<le> (ucast odr :: u16)" "(ucast odr :: u16) \<le> 10" "1 \<le> (ucast content :: u16)"
    "(ucast content :: u16) \<le> 3" "(ucast afs :: u16) \<le> 3" "(ucast gfs :: u16) \<le> 3"
    using assms by (auto simp: imucfg_rejected_def u word_le_nat_alt word_less_nat_alt)
qed

lemma ucast_u16_u8 [simp]: "ucast (ucast w :: u16) = (w :: u8)"
  by (simp add: word_unat_eq_iff unsigned_ucast_eq take_bit_word_eq_self)
  
lemma take_four: "4 \<le> length xs \<Longrightarrow> take 4 xs = [xs ! 0, xs ! 1, xs ! 2, xs ! 3]"
  by (cases xs; cases "tl xs"; cases "tl (tl xs)"; cases "tl (tl (tl xs))") (auto simp: numeral_eq_Suc)

text \<open>What the handler stores, as the sampling settings and the preview cap.\<close>

definition imucfg_preview :: "u8 list \<Rightarrow> u16" where
  "imucfg_preview buf = (if length buf \<ge> 6 then get_le16 (drop 4 buf) else 0)"

lemma imucfg_settings:
  fixes pv :: u16
  assumes ok: "settings_ok s" and acc: "\<not> imucfg_rejected odr content afs gfs"
  defines "s' \<equiv> settings_set SETTING_PREVIEW_HZ pv (settings_set SETTING_IMU_GYRO_FS (ucast gfs)
      (settings_set SETTING_IMU_ACCEL_FS (ucast afs) (settings_set SETTING_IMU_CONTENT (ucast content)
        (settings_set SETTING_IMU_ODR_CODE (ucast odr) s))))"
  shows "settings_ok s'" "settings_get SETTING_IMU_ODR_CODE s' = ucast odr"
    "settings_get SETTING_IMU_CONTENT s' = ucast content" "settings_get SETTING_IMU_ACCEL_FS s' = ucast afs"
    "settings_get SETTING_IMU_GYRO_FS s' = ucast gfs" "settings_get SETTING_PREVIEW_HZ s' = min pv 6660"
proof -
  note r = imucfg_in_registry [OF acc]
  show "settings_ok s'" using ok by (simp add: s'_def settings_set_ok)
  show "settings_get SETTING_IMU_ODR_CODE s' = ucast odr"
    "settings_get SETTING_IMU_CONTENT s' = ucast content" "settings_get SETTING_IMU_ACCEL_FS s' = ucast afs"
    "settings_get SETTING_IMU_GYRO_FS s' = ucast gfs" "settings_get SETTING_PREVIEW_HZ s' = min pv 6660"
    using r ok
    by (simp_all add: s'_def registry.get_put_other registry.get_put settings_set_ok meta_for_def
        settings_table_def clamp_def min_def)
qed

text \<open>A sampling configuration the host may ask for is stored as asked (the preview cap clamped to
  its range), survives in the registry, and reaches the FLPR in one step of the sequence number: the
  block holds the new configuration while anybody wants data, and a powered-down sensor otherwise;
  reading the characteristic back shows it.\<close>

theorem imucfg_write_applied:
  assumes ok: "settings_ok (a_settings a)" and mg: "magic (a_sh a) = IMU_SHARED_MAGIC"
    and len: "length buf = 4 \<or> length buf = 6"
    and acc: "\<not> imucfg_rejected (buf ! 0) (buf ! 1) (buf ! 2) (buf ! 3)"
    and run: "on_imucfg_write p 0 buf a = (r, a')"
  shows "r = Inr (length buf) \<and> settings_ok (a_settings a') \<and> arbitrated a' \<and>
    map (\<lambda>i. settings_get i (a_settings a')) [SETTING_IMU_ODR_CODE, SETTING_IMU_CONTENT, SETTING_IMU_ACCEL_FS,
      SETTING_IMU_GYRO_FS, SETTING_PREVIEW_HZ] = map ucast (take 4 buf) @ [min (imucfg_preview buf) 6660] \<and>
    cfg_seq (a_sh a') = cfg_seq (a_sh a) + 1 \<and>
    take 4 (imucfg_pkt a') = [buf ! 0, if session_imu_demand a then buf ! 1 else 0, buf ! 2, buf ! 3]"
proof -
  have four: "take 4 buf = [buf ! 0, buf ! 1, buf ! 2, buf ! 3]"
    using len by (intro take_four) auto
  note st = imucfg_settings [OF ok acc, of "imucfg_preview buf"]
  obtain s' where s': "s' = settings_set SETTING_PREVIEW_HZ (imucfg_preview buf) (settings_set SETTING_IMU_GYRO_FS
      (ucast (buf ! 3)) (settings_set SETTING_IMU_ACCEL_FS (ucast (buf ! 2)) (settings_set SETTING_IMU_CONTENT
        (ucast (buf ! 1)) (settings_set SETTING_IMU_ODR_CODE (ucast (buf ! 0)) (a_settings a)))))" by simp
  obtain stream where a': "r = Inr (length buf)"
    "a' = session_imu_run_update p (a\<lparr>a_stream := stream, a_settings := s'\<rparr>)"
    using run len acc mg unfolding on_imucfg_write_def s' imucfg_preview_def by (auto simp: Let_def)
  let ?b = "a\<lparr>a_stream := stream, a_settings := s'\<rparr>"
  have dem: "session_imu_demand ?b = session_imu_demand a" by (simp add: session_imu_demand_def imu_log_active_def)
  have arb: "arbitrated a'" unfolding a' using mg by (intro run_update_arbitrates) simp
  have set: "a_settings a' = s'" by (simp add: a')
  have dem': "session_imu_demand a' = session_imu_demand a"
    by (simp add: a' session_imu_demand_def imu_log_active_def)
  have "cfg_seq (a_sh a') = cfg_seq (a_sh a) + 1"
    using mg by (simp add: a' session_imu_run_update_def update_decim_def publish_cfg_def Let_def)
  moreover have "take 4 (imucfg_pkt a') = [buf ! 0, if session_imu_demand a then buf ! 1 else 0, buf ! 2, buf ! 3]"
    using arb st [folded s'] by (simp add: arbitrated_def set dem' imucfg_pkt_def Let_def)
  ultimately show ?thesis using a'(1) arb st [folded s'] by (simp add: set four)
qed

theorem imucfg_write_applied_witness:
  "take 4 (imucfg_pkt (snd (on_imucfg_write quiet_platform 0 [6, 3, 1, 2, 100, 0] blank_app))) = [6, 0, 1, 2] \<and>
   settings_get SETTING_IMU_ODR_CODE (a_settings (snd (on_imucfg_write quiet_platform 0 [6, 3, 1, 2, 100, 0] blank_app))) = 6"
  using imucfg_write_applied [of blank_app "[6, 3, 1, 2, 100, 0]" quiet_platform,
      OF _ _ _ _ surjective_pairing]
  by (simp add: blank_shared_def imucfg_rejected_def session_imu_demand_def imu_log_active_def log_boot_def)

section \<open>A voltage request from the write to the wiper\<close>



end
