(* ===== verification/Ble_Link.thy ===== *)
theory Ble_Link
  imports Ble_Gatt
begin

text \<open>
  Advertising and the connection lifecycle of \<open>src/ble/ble_interface.c\<close>: the advertised identity, what
  connecting and disconnecting do, and the delayed work item that advertises again. What the stack
  returns for enabling is an argument; for starting to advertise it is a field of the platform.
\<close>

section \<open>Advertising data\<close>

definition hex2 :: "u8 \<Rightarrow> string" where
  "hex2 b = pad_left 2 CHR ''0'' (digits_base True 16 (unat b))"

definition adv_name_of :: "u16 \<Rightarrow> u8 list option \<Rightarrow> string" where
  "adv_name_of i uid =
     take 11
       (if i > 0 then ''Cat-'' @ pad_left 2 CHR ''0'' (fmt_u (ucast i))
        else case uid of
          None \<Rightarrow> ''Cat-????''
        | Some u \<Rightarrow>
            if length u \<ge> 2 then ''Cat-'' @ hex2 (u ! (length u - 2)) @ hex2 (u ! (length u - 1))
            else ''Cat-????'')"

definition build_ad :: "('f, 'b) platform \<Rightarrow> ('f, 'b) app_st \<Rightarrow> ('f, 'b) app_st" where
  "build_ad p a =
     (let i = settings_get SETTING_ROBOT_ID (a_settings a); v = pf_version p
      in a\<lparr>adv_name := adv_name_of i (pf_uid p),
           adv_mfg := [0xFF, 0xFF, ucast i, ver_major v, ver_minor v, ver_patch v, flag (imu_log_active a)]\<rparr>)"

text \<open>The three elements of \<open>ad\<close>, as type and data: flags, complete name, manufacturer data.\<close>

definition ad :: "('f, 'b) app_st \<Rightarrow> (u8 \<times> u8 list) list" where
  "ad a = [(0x01, [0x02 OR 0x04]), (0x09, map of_char (adv_name a)), (0xFF, adv_mfg a)]"

section \<open>Connection lifecycle\<close>

definition restart_advertise :: "('f, 'b) platform \<Rightarrow> ('f, 'b) app_st \<Rightarrow> ('f, 'b) app_st" where
  "restart_advertise p a =
     (let a1 = build_ad p (a\<lparr>adv_restart := False\<rparr>)
      in if pf_adv_start p \<noteq> 0 then a1 else a1\<lparr>advertising := True\<rparr>)"

text \<open>The stack has stopped advertising when it calls \<open>connected\<close>.\<close>

definition connected :: "u8 \<Rightarrow> ('f, 'b) app_st \<Rightarrow> ('f, 'b) app_st" where
  "connected err a =
     (let a0 = a\<lparr>advertising := False\<rparr>
      in if err \<noteq> 0 then a0\<lparr>adv_restart := True\<rparr>
         else ble_conn_request_params False (a0\<lparr>cur_conn := True\<rparr>))"

definition disconnected :: "('f, 'b) platform \<Rightarrow> ('f, 'b) app_st \<Rightarrow> ('f, 'b) app_st" where
  "disconnected p a =
     (session_on_disconnect p (a\<lparr>cur_conn := False, conn_req := None\<rparr>))\<lparr>adv_restart := True\<rparr>"

definition ble_interface_init :: "int \<Rightarrow> ('f, 'b) platform \<Rightarrow> ('f, 'b) app_st \<Rightarrow> int \<times> ('f, 'b) app_st" where
  "ble_interface_init enable p a =
     (if enable \<noteq> 0 then (enable, a)
      else
        let a1 = build_ad p a
        in if pf_adv_start p \<noteq> 0 then (pf_adv_start p, a1) else (0, a1\<lparr>advertising := True\<rparr>))"

lemma build_ad_frame [simp]:
  "a_settings (build_ad p a) = a_settings a" "a_log (build_ad p a) = a_log a" "a_sh (build_ad p a) = a_sh a"
  "a_rail (build_ad p a) = a_rail a" "a_bridge (build_ad p a) = a_bridge a" "a_msgs (build_ad p a) = a_msgs a"
  "stream_active (build_ad p a) = stream_active a" "cmd_msgq (build_ad p a) = cmd_msgq a"
  "a_led (build_ad p a) = a_led a" "a_pwm (build_ad p a) = a_pwm a" "a_pot (build_ad p a) = a_pot a"
  "a_stream (build_ad p a) = a_stream a" "cur_conn (build_ad p a) = cur_conn a"
  by (simp_all add: build_ad_def Let_def)

section \<open>Disconnecting\<close>

lemma disconnect_frame [simp]:
  "a_settings (session_on_disconnect p a) = a_settings a" "stream_active (session_on_disconnect p a) = False"
  "a_rail (session_on_disconnect p a) = a_rail a" "a_bridge (session_on_disconnect p a) = a_bridge a"
  "a_pwm (session_on_disconnect p a) = a_pwm a" "a_pot (session_on_disconnect p a) = a_pot a"
  "a_led (session_on_disconnect p a) = a_led a" "cmd_msgq (session_on_disconnect p a) = cmd_msgq a"
  "cur_conn (session_on_disconnect p a) = cur_conn a"
  "magic (a_sh (session_on_disconnect p a)) = magic (a_sh a)"
  by (simp_all add: session_on_disconnect_def Let_def)

text \<open>C23: A disconnect ends what belongs to the connection: no stream, the sink off, the dump aborted, a
  session that is not detached closed and the sensor told to power down, and advertising scheduled
  again. A detached session is left exactly as it runs, and the sensor keeps its configuration.\<close>

theorem disconnect_policy:
  assumes "settings_ok (a_settings a)" "magic (a_sh a) = IMU_SHARED_MAGIC"
  shows "let a' = disconnected p a in
    \<not> cur_conn a' \<and> \<not> stream_active a' \<and> \<not> sink_on (a_stream a') \<and> dump_abort (a_dump a') \<and> adv_restart a' \<and>
    arbitrated a' \<and>
    (if imu_log_detached (a_log a)
     then a_log a' = a_log a \<and> session_imu_demand a' \<and> cfg_content (a_sh a') \<noteq> 0
     else \<not> active (a_log a') \<and> \<not> session_imu_demand a' \<and> cfg_content (a_sh a') = 0)"
proof -
  let ?a1 = "stream_enable p False (a\<lparr>cur_conn := False, conn_req := None, stream_active := False\<rparr>)"
  define a2 where "a2 = ?a1\<lparr>a_dump := ble_transport_dump_abort (a_dump ?a1)\<rparr>"
  define a3 where "a3 = (if \<not> imu_log_detached (a_log a2) then log_stop p a2 else a2)"
  have d: "disconnected p a = (session_imu_run_update p a3)\<lparr>adv_restart := True\<rparr>"
    by (simp add: disconnected_def session_on_disconnect_def a3_def a2_def Let_def)
  have log2: "a_log a2 = a_log a" by (simp add: a2_def)
  have a3: "\<not> cur_conn a3" "\<not> stream_active a3" "\<not> sink_on (a_stream a3)" "dump_abort (a_dump a3)"
    "a_settings a3 = a_settings a" "a_sh a3 = a_sh a"
    "if imu_log_detached (a_log a) then a_log a3 = a_log a else \<not> active (a_log a3)"
    using log2 by (auto simp: a3_def a2_def stream_enable_def ble_transport_stream_enable_def ble_transport_dump_abort_def)
  have sink: "\<not> sink_on (a_stream (session_imu_run_update p a3))"
    using a3(3) by (simp add: session_imu_run_update_def update_decim_def ble_transport_stream_update_decim_def Let_def)
  have arb: "arbitrated (session_imu_run_update p a3)"
    by (rule run_update_arbitrates) (simp add: a3 assms)
  then have arb': "arbitrated (disconnected p a)"
    unfolding d by (rule arbitrated_cong) simp_all
  have ok: "settings_ok (a_settings (disconnected p a))" using assms(1) by (simp add: d a3)
  have dem: "session_imu_demand (disconnected p a) = imu_log_detached (a_log a)"
    using a3 by (auto simp: d session_imu_demand_def imu_log_active_def imu_log_detached_def split: if_splits)
  have fields: "a_log (disconnected p a) = a_log a3" "stream_active (disconnected p a) = stream_active a3"
    "cur_conn (disconnected p a) = cur_conn a3" "a_dump (disconnected p a) = a_dump a3"
    "adv_restart (disconnected p a)" "\<not> sink_on (a_stream (disconnected p a))"
    using sink by (simp_all add: d)
  have "if imu_log_detached (a_log a) then a_log a3 = a_log a \<and> cfg_content (a_sh (disconnected p a)) \<noteq> 0
      else \<not> active (a_log a3) \<and> cfg_content (a_sh (disconnected p a)) = 0"
    using arbitrated_cfg [OF arb' ok] a3(7) by (simp add: dem split: if_splits)
  then show ?thesis using fields arb' a3 dem by (simp add: Let_def split: if_splits)
qed

text \<open>A running detached session with a stream beside it, for the instance.\<close>

definition logging_app :: "(nat \<Rightarrow> u8, unit) app_st" where
  "logging_app = session_imu_run_update quiet_platform
     (blank_app\<lparr>a_log := (log_boot (\<lambda>_. 0xFF))\<lparr>active := True, session_detached := True\<rparr>,
                stream_active := True, cur_conn := True\<rparr>)"

theorem disconnect_policy_witness:
  "a_log (disconnected quiet_platform logging_app) = a_log logging_app \<and>
   cfg_content (a_sh (disconnected quiet_platform logging_app)) \<noteq> 0"
  using disconnect_policy [of logging_app quiet_platform]
  by (simp add: logging_app_def Let_def imu_log_detached_def blank_shared_def)

end
