(* ===== verification/Host_Protocol.thy ===== *)
theory Host_Protocol
  imports Ble_Link
begin

text \<open>
  The other end of the wire: the packet decoders and encoders of the host tools,
  \<open>scripts/protocol.py\<close>, and what they make of the packets the firmware sends. Python's integers are
  \<open>int\<close>; a \<open>ValueError\<close> is \<open>None\<close>; \<open>struct.unpack_from\<close> reads little-endian fields at an offset.
\<close>

section \<open>Unpacking\<close>

definition py_u8 :: "u8 list \<Rightarrow> nat \<Rightarrow> int" where "py_u8 data k = uint (data ! k)"
definition py_u16 :: "u8 list \<Rightarrow> nat \<Rightarrow> int" where "py_u16 data k = uint (get_le16 (drop k data))"
definition py_u32 :: "u8 list \<Rightarrow> nat \<Rightarrow> int" where "py_u32 data k = uint (get_le32 (drop k data))"
definition py_i8 :: "u8 list \<Rightarrow> nat \<Rightarrow> int" where "py_i8 data k = sint (data ! k)"
definition py_i16 :: "u8 list \<Rightarrow> nat \<Rightarrow> int" where "py_i16 data k = sint (get_le16 (drop k data))"

type_synonym py_version = "int \<times> int \<times> int"

record py_status =
  fw :: py_version
  flpr_fw :: "py_version option"
  freq_hz :: int
  duty1 :: int
  duty2 :: int
  vdc_target_mv :: int
  vdc_meas_mv :: int
  py_rail_on :: bool
  py_drv_awake :: bool
  py_imu_ok :: bool
  led_on :: bool
  uptime :: int
  reset_cause :: int
  odr_code :: int
  py_content :: int
  log_active :: bool
  log_policy :: int
  log_bytes :: int
  log_capacity :: int
  overruns :: int

definition decode_status :: "u8 list \<Rightarrow> py_status option" where
  "decode_status data =
     (if length data < 44 \<or> data ! 0 \<noteq> 3 then None
      else
        let flpr = py_u32 data 24
        in Some \<lparr>fw = (py_u8 data 1, py_u8 data 2, py_u8 data 3),
             flpr_fw = (if flpr \<noteq> 0 then Some (flpr div 2 ^ 16 mod 256, flpr div 2 ^ 8 mod 256, flpr mod 256)
               else None),
             freq_hz = py_u16 data 4, duty1 = py_u8 data 6, duty2 = py_u8 data 7,
             vdc_target_mv = py_u16 data 8, vdc_meas_mv = py_u16 data 10,
             py_rail_on = py_u8 data 12 \<noteq> 0, py_drv_awake = py_u8 data 13 \<noteq> 0, py_imu_ok = py_u8 data 14 \<noteq> 0,
             led_on = py_u8 data 15 \<noteq> 0, uptime = py_u32 data 16, reset_cause = py_u32 data 20,
             odr_code = py_u8 data 28, py_content = py_u8 data 29, log_active = py_u8 data 30 \<noteq> 0,
             log_policy = py_u8 data 31, log_bytes = py_u32 data 32, log_capacity = py_u32 data 36,
             overruns = py_u32 data 40\<rparr>)"

record py_imu_cfg =
  ic_odr :: int
  ic_content :: int
  ic_accel_fs :: int
  ic_gyro_fs :: int
  ic_applied :: bool
  ic_status :: int
  ic_decim :: int
  ic_overruns :: int

text \<open>\<open>struct.unpack_from\<close> raises on a buffer that is too short: \<open>None\<close>.\<close>

definition decode_imu_cfg :: "u8 list \<Rightarrow> py_imu_cfg option" where
  "decode_imu_cfg data =
     (if length data < 12 then None
      else Some \<lparr>ic_odr = py_u8 data 0, ic_content = py_u8 data 1, ic_accel_fs = py_u8 data 2,
        ic_gyro_fs = py_u8 data 3, ic_applied = py_u8 data 4 \<noteq> 0, ic_status = py_i8 data 5,
        ic_decim = py_u8 data 6, ic_overruns = py_u32 data 8\<rparr>)"

record py_log_state =
  lg_active :: bool
  lg_policy :: int
  lg_bytes_stored :: int
  lg_capacity :: int
  lg_records_total :: int
  lg_overruns :: int

definition decode_log_state :: "u8 list \<Rightarrow> py_log_state option" where
  "decode_log_state data =
     (if length data < 20 then None
      else Some \<lparr>lg_active = py_u8 data 0 \<noteq> 0, lg_policy = py_u8 data 1, lg_bytes_stored = py_u32 data 4,
        lg_capacity = py_u32 data 8, lg_records_total = py_u32 data 12, lg_overruns = py_u32 data 16\<rparr>)"

text \<open>The slice of the samples or data ends where the packet ends, if it is shorter than announced.\<close>

record py_stream_packet =
  sp_decim :: int
  sp_dropped :: int
  sp_samples :: "u8 list"

definition decode_stream_packet :: "u8 list \<Rightarrow> py_stream_packet option" where
  "decode_stream_packet data =
     (if length data < 8 then None
      else Some \<lparr>sp_decim = py_u8 data 1, sp_dropped = py_u32 data 4,
        sp_samples = take (nat (py_u8 data 0) * 16) (drop 8 data)\<rparr>)"

record py_dump_chunk =
  dc_offset :: int
  dc_last :: bool
  dc_data :: "u8 list"

definition decode_dump_chunk :: "u8 list \<Rightarrow> py_dump_chunk option" where
  "decode_dump_chunk data =
     (if length data < 8 then None
      else Some \<lparr>dc_offset = py_u32 data 0, dc_last = py_u8 data 6 \<noteq> 0,
        dc_data = take (nat (py_u16 data 4)) (drop 8 data)\<rparr>)"

record py_session =
  ps_seq :: int
  ps_wall_start :: int
  ps_rec_count :: int
  ps_odr_code :: int
  ps_content :: int
  ps_accel_fs :: int
  ps_gyro_fs :: int

definition decode_sessions :: "u8 list \<Rightarrow> py_session list option" where
  "decode_sessions data =
     (if data = [] \<or> length data < 4 + 16 * nat (py_u8 data 0) \<and> py_u8 data 0 \<noteq> 0 then None
      else Some (map (\<lambda>i. \<lparr>ps_seq = py_u32 data (4 + i * 16), ps_wall_start = py_u32 data (8 + i * 16),
             ps_rec_count = py_u32 data (12 + i * 16), ps_odr_code = py_u8 data (16 + i * 16),
             ps_content = py_u8 data (17 + i * 16), ps_accel_fs = py_u8 data (18 + i * 16),
             ps_gyro_fs = py_u8 data (19 + i * 16)\<rparr>)
        [0..<nat (py_u8 data 0)]))"

text \<open>\<open>unpack_records\<close>: seven signed fields and the sequence number of every whole record.\<close>

fun unpack_records :: "u8 list \<Rightarrow> (int list \<times> int) list" where
  "unpack_records raw =
     (if length raw < 16 then []
      else (map (\<lambda>k. py_i16 raw (2 * k)) [0..<7], py_u16 raw 14) # unpack_records (drop 16 raw))"

declare unpack_records.simps [simp del]

text \<open>The fleet identity in the advertising data; \<open>payload\<close> is the manufacturer data behind the company id.\<close>

definition is_caterpillar :: "string \<Rightarrow> bool" where
  "is_caterpillar name \<longleftrightarrow> name \<noteq> [] \<and> (take 4 name = ''Cat-'' \<or> name = ''Caterpillar'')"

record py_adv =
  pa_name :: string
  pa_robot_id :: "int option"
  pa_fw :: "py_version option"
  pa_session_active :: "bool option"

definition parse_adv :: "string \<Rightarrow> u8 list option \<Rightarrow> py_adv option" where
  "parse_adv name payload =
     (if \<not> is_caterpillar name then None
      else
        let info = \<lparr>pa_name = name, pa_robot_id = None, pa_fw = None, pa_session_active = None\<rparr>
        in case payload of
             None \<Rightarrow> Some info
           | Some d \<Rightarrow>
               if length d \<ge> 5
               then Some (info\<lparr>pa_robot_id := Some (py_u8 d 0),
                   pa_fw := Some (py_u8 d 1, py_u8 d 2, py_u8 d 3), pa_session_active := Some (py_u8 d 4 mod 2 \<noteq> 0)\<rparr>)
               else Some info)"

text \<open>Encoders of what the host writes. \<open>struct.pack\<close> and \<open>bytes\<close> raise for a number that does not fit.\<close>

definition pack_H :: "int \<Rightarrow> u8 list option" where
  "pack_H v = (if 0 \<le> v \<and> v < 2 ^ 16 then Some (le16 (of_int v)) else None)"

definition pack_I :: "int \<Rightarrow> u8 list option" where
  "pack_I v = (if 0 \<le> v \<and> v < 2 ^ 32 then Some (le32 (of_int v)) else None)"

definition py_bytes :: "int list \<Rightarrow> u8 list option" where
  "py_bytes vs = (if list_all (\<lambda>v. 0 \<le> v \<and> v < 256) vs then Some (map of_int vs) else None)"

definition py_append :: "u8 list option \<Rightarrow> u8 list option \<Rightarrow> u8 list option" where
  "py_append x y = Option.bind x (\<lambda>xs. map_option (\<lambda>ys. xs @ ys) y)"

definition encode_freq :: "int \<Rightarrow> u8 list option" where "encode_freq hz = pack_H hz"
definition encode_volt_mv :: "int \<Rightarrow> u8 list option" where "encode_volt_mv mv = pack_H mv"
definition encode_onoff :: "bool \<Rightarrow> u8 list option" where "encode_onoff on = py_bytes [if on then 1 else 0]"
definition encode_imu_cfg :: "int \<Rightarrow> int \<Rightarrow> int \<Rightarrow> int \<Rightarrow> int \<Rightarrow> u8 list option" where
  "encode_imu_cfg odr content afs gfs preview = py_append (py_bytes [odr, content, afs, gfs]) (pack_H preview)"
definition encode_log_cmd :: "int \<Rightarrow> int \<Rightarrow> u8 list option" where "encode_log_cmd cmd policy = py_bytes [cmd, policy]"
definition encode_dump_req :: "int \<Rightarrow> int \<Rightarrow> int \<Rightarrow> u8 list option" where
  "encode_dump_req session offset len = py_append (pack_I session) (py_append (pack_I offset) (pack_I len))"
definition encode_time :: "int \<Rightarrow> u8 list option" where "encode_time epoch = pack_I epoch"

section \<open>Round trips\<close>

lemma flag_uint [simp]: "(uint (flag b) \<noteq> 0) = b" "(uint (flag b) = 0) = (\<not> b)"
  by (simp_all add: flag_def)

lemma drop_le [simp]: "4 \<le> k \<Longrightarrow> drop k (le32 w) = []" "2 \<le> k \<Longrightarrow> drop k (le16 v) = []"
  by simp_all

lemmas py_fields = py_u8_def py_u16_def py_u32_def py_i8_def py_i16_def

text \<open>C31: The status packet of \<open>0xFFE6\<close> has 44 bytes, and the host decodes every field of it to the value
  the firmware holds.\<close>

theorem status_wire_roundtrip:
  "length (status_pkt p a) = 44 \<and> decode_status (status_pkt p a) = Some
    \<lparr>fw = (uint (ver_major (pf_version p)), uint (ver_minor (pf_version p)), uint (ver_patch (pf_version p))),
     flpr_fw = (let v = uint (if magic (a_sh a) = IMU_SHARED_MAGIC then flpr_version (a_sh a) else 0)
       in if v \<noteq> 0 then Some (v div 2 ^ 16 mod 256, v div 2 ^ 8 mod 256, v mod 256) else None),
     freq_hz = uint (drv_pwm_get_frequency (a_pwm a)), duty1 = uint (drv_pwm_get_duty 0 (a_pwm a)),
     duty2 = uint (drv_pwm_get_duty 1 (a_pwm a)), vdc_target_mv = uint (max5419_get_target_mv (a_pot a)),
     vdc_meas_mv = uint (status_vdc p), py_rail_on = rail_on (a_rail a), py_drv_awake = drv_awake (a_bridge a),
     py_imu_ok = (magic (a_sh a) = IMU_SHARED_MAGIC \<and> imu_ok (a_sh a) \<noteq> 0), led_on = led_enabled (a_led a),
     uptime = uint (uptime_s p), reset_cause = uint (app_reset_cause a), odr_code = uint (cfg_odr (a_sh a)),
     py_content = uint (cfg_content (a_sh a)), log_active = active (a_log a),
     log_policy = (if imu_log_detached (a_log a) then 3 else 1), log_bytes = uint (imu_log_bytes_stored (a_log a)),
     log_capacity = 695648, overruns = uint (imu_pump_overrun (a_sh a))\<rparr>"
proof -
  have "length (status_pkt p a) = 44" by (simp add: status_pkt_def Let_def)
  then show ?thesis
    by (simp add: decode_status_def status_pkt_def py_fields nth_append Let_def imu_log_active_def)
qed

text \<open>So do the two smaller state packets and the packets of the live stream.\<close>

lemma state_packets_roundtrip:
  "decode_imu_cfg (imucfg_pkt a) = Some
     \<lparr>ic_odr = uint (cfg_odr (a_sh a)), ic_content = uint (cfg_content (a_sh a)),
      ic_accel_fs = uint (cfg_accel_fs (a_sh a)), ic_gyro_fs = uint (cfg_gyro_fs (a_sh a)),
      ic_applied = (cfg_applied (a_sh a) = cfg_seq (a_sh a)), ic_status = clamp (cfg_status (a_sh a)) (- 128) 0,
      ic_decim = uint (stream_decim (a_stream a)), ic_overruns = uint (overrun (a_sh a))\<rparr>"
  "decode_log_state (logctl_pkt a) = Some
     \<lparr>lg_active = active (a_log a), lg_policy = 1, lg_bytes_stored = uint (imu_log_bytes_stored (a_log a)),
      lg_capacity = 695648, lg_records_total = uint (cur_count (a_log a)),
      lg_overruns = uint (imu_pump_overrun (a_sh a))\<rparr>"
proof -
  have "sint (of_int (clamp x (- 128) 0) :: u8) = clamp x (- 128) 0" for x :: int
    by (simp add: signed_of_int signed_take_bit_int_eq_self clamp_bounds) (auto simp: clamp_def intro: signed_take_bit_int_eq_self)
  then show "decode_imu_cfg (imucfg_pkt a) = Some
     \<lparr>ic_odr = uint (cfg_odr (a_sh a)), ic_content = uint (cfg_content (a_sh a)),
      ic_accel_fs = uint (cfg_accel_fs (a_sh a)), ic_gyro_fs = uint (cfg_gyro_fs (a_sh a)),
      ic_applied = (cfg_applied (a_sh a) = cfg_seq (a_sh a)), ic_status = clamp (cfg_status (a_sh a)) (- 128) 0,
      ic_decim = uint (stream_decim (a_stream a)), ic_overruns = uint (overrun (a_sh a))\<rparr>"
    by (simp add: decode_imu_cfg_def imucfg_pkt_def py_fields nth_append Let_def)
qed (simp add: decode_log_state_def logctl_pkt_def py_fields nth_append Let_def imu_log_active_def)

text \<open>The session directory: every listed session, in the listed order.\<close>

definition host_session :: "imu_log_session \<Rightarrow> py_session" where
  "host_session s = \<lparr>ps_seq = uint (ls_seq s), ps_wall_start = uint (ls_wall_start s),
     ps_rec_count = uint (ls_rec_count s), ps_odr_code = uint (ls_odr_code s), ps_content = uint (ls_content s),
     ps_accel_fs = uint (ls_accel_fs s), ps_gyro_fs = uint (ls_gyro_fs s)\<rparr>"

lemma length_enc_session [simp]: "length (enc_session s) = 16"
  by (simp add: enc_session_def)

lemma drop_session:
  assumes "i < length ls" "j \<le> 16"
  shows "\<exists>r. drop (4 + j + i * 16) (dir_pkt ls) = drop j (enc_session (ls ! i)) @ r"
proof -
  obtain h where h: "dir_pkt ls = h @ concat (map enc_session ls)" "length h = 4"
    unfolding dir_pkt_def by fastforce
  have e: "drop (4 + j + i * 16) (dir_pkt ls) = drop j (drop (16 * i) (concat (map enc_session ls)))"
    unfolding h(1) by (simp add: h(2) mult.commute)
  have "drop (16 * i) (concat (map enc_session ls)) = concat (map enc_session (drop i ls))"
    by (rule drop_concat_const) simp
  also have "\<dots> = enc_session (ls ! i) @ concat (map enc_session (drop (Suc i) ls))"
    using assms(1) by (simp add: Cons_nth_drop_Suc [symmetric])
  finally show ?thesis using assms(2) unfolding e by simp
qed

lemma dir_byte:
  assumes "i < length ls" "j < 16"
  shows "dir_pkt ls ! (4 + j + i * 16) = enc_session (ls ! i) ! j"
proof -
  obtain r where r: "drop (4 + j + i * 16) (dir_pkt ls) = drop j (enc_session (ls ! i)) @ r"
    using drop_session [OF assms(1)] assms(2) by (meson less_imp_le)
  have "dir_pkt ls ! (4 + j + i * 16) = hd (drop (4 + j + i * 16) (dir_pkt ls))"
    by (rule hd_drop_conv_nth [symmetric])
      (use assms in \<open>simp add: dir_pkt_def length_concat_const [where w = 16]\<close>)
  also have "\<dots> = enc_session (ls ! i) ! j" using assms(2) unfolding r by (simp add: hd_drop_conv_nth)
  finally show ?thesis .
qed

lemma length_dir_pkt: "length (dir_pkt ls) = 4 + 16 * length ls"
  by (simp add: dir_pkt_def length_concat_const [where w = 16])

lemma decode_dir_pkt:
  assumes "length ls < 256"
  shows "decode_sessions (dir_pkt ls) = Some (map host_session ls)"
proof -
  let ?out = "map (\<lambda>i. \<lparr>ps_seq = py_u32 (dir_pkt ls) (4 + i * 16), ps_wall_start = py_u32 (dir_pkt ls) (8 + i * 16),
      ps_rec_count = py_u32 (dir_pkt ls) (12 + i * 16), ps_odr_code = py_u8 (dir_pkt ls) (16 + i * 16),
      ps_content = py_u8 (dir_pkt ls) (17 + i * 16), ps_accel_fs = py_u8 (dir_pkt ls) (18 + i * 16),
      ps_gyro_fs = py_u8 (dir_pkt ls) (19 + i * 16)\<rparr>) [0..<length ls]"
  have n: "nat (py_u8 (dir_pkt ls) 0) = length ls"
    using assms by (simp add: py_u8_def dir_pkt_def unsigned_of_nat take_bit_nat_eq_self)
  have "?out = map host_session ls"
  proof (rule nth_equalityI)
    fix i assume "i < length ?out"
    then have i: "i < length ls" by simp
    have w: "get_le32 (drop (4 + i * 16) (dir_pkt ls)) = ls_seq (ls ! i)"
      "get_le32 (drop (8 + i * 16) (dir_pkt ls)) = ls_wall_start (ls ! i)"
      "get_le32 (drop (12 + i * 16) (dir_pkt ls)) = ls_rec_count (ls ! i)"
      using drop_session [OF i, of 0] drop_session [OF i, of 4] drop_session [OF i, of 8]
      by (auto simp: enc_session_def)
    have b: "dir_pkt ls ! (16 + i * 16) = ls_odr_code (ls ! i)" "dir_pkt ls ! (17 + i * 16) = ls_content (ls ! i)"
      "dir_pkt ls ! (18 + i * 16) = ls_accel_fs (ls ! i)" "dir_pkt ls ! (19 + i * 16) = ls_gyro_fs (ls ! i)"
      using dir_byte [OF i, of 12] dir_byte [OF i, of 13] dir_byte [OF i, of 14] dir_byte [OF i, of 15]
      by (simp_all add: enc_session_def nth_append)
    show "?out ! i = map host_session ls ! i" using i w b by (simp add: host_session_def py_fields)
  qed simp
  moreover have "dir_pkt ls \<noteq> []" by (simp add: dir_pkt_def)
  ultimately show ?thesis by (simp add: decode_sessions_def n length_dir_pkt)
qed

text \<open>Records: the seven signed values and the sequence number.\<close>

definition host_sample :: "imu_sample \<Rightarrow> int list \<times> int" where
  "host_sample x = ([sint (s_ax x), sint (s_ay x), sint (s_az x), sint (s_gx x), sint (s_gy x), sint (s_gz x),
     sint (s_temp x)], uint (s_seq16 x))"

lemma unpack_enc: "unpack_records (concat (map enc_sample xs)) = map host_sample xs"
proof (induction xs)
  case Nil
  then show ?case by (simp add: unpack_records.simps)
next
  case (Cons x xs)
  have "[0..<7] = [0, 1, 2, 3, 4, 5, 6 :: nat]" by (simp add: upt_rec)
  then have "map (\<lambda>k. py_i16 (enc_sample x @ r) (2 * k)) [0..<7] = fst (host_sample x) \<and>
      py_u16 (enc_sample x @ r) 14 = snd (host_sample x)" for r
    by (simp add: py_fields enc_sample_def host_sample_def)
  then show ?case using Cons.IH by (subst unpack_records.simps) simp
qed

text \<open>The host's bytes of a packet; a packet it cannot decode contributes none.\<close>

definition host_bytes :: "u8 list \<Rightarrow> u8 list" where
  "host_bytes pkt = (case decode_dump_chunk pkt of None \<Rightarrow> [] | Some c \<Rightarrow> dc_data c)"

lemma decode_chunks:
  assumes "chunks_follow off ps"
  shows "map host_bytes ps = map chunk_data ps"
  using assms
proof (induction off ps rule: chunks_follow.induct)
  case (2 off p ps)
  have "length (chunk_data p) < 2 ^ 16" using 2(2) by (auto simp: chunk_data_def)
  then have n: "unat (of_nat (length (chunk_data p)) :: u16) = length (chunk_data p)"
    by (simp add: unsigned_of_nat take_bit_nat_eq_self)
  have "host_bytes p = chunk_data p"
  proof (cases "length p < 8")
    case False
    have "nat (py_u16 p 4) = length (chunk_data p)" using 2(2) n by (simp add: py_u16_def nat_uint_eq)
    then show ?thesis using False by (simp add: host_bytes_def decode_dump_chunk_def chunk_data_def)
  qed (simp add: host_bytes_def decode_dump_chunk_def chunk_data_def)
  then show ?case using 2 by simp
qed simp

lemma unat_mult_u32: "unat a * unat b < 2 ^ 32 \<Longrightarrow> unat (a * b :: u32) = unat a * unat b"
  by (simp add: unat_word_ariths)

text \<open>A dump that asks for at least the whole session gives its samples.\<close>

lemma dump_gives_samples:
  assumes "dir_dev fd img" "log_inv img st hist" "length hist < 2 ^ 28" "link_ok env"
    and len: "16 * length (session_samples fd st hist sq) \<le> unat len"
  shows "\<exists>ps. dump_serve fd (\<lambda>_. st) env (sq, 0, len) = Some (ps, DDone) \<and>
    unpack_records (concat (map host_bytes ps)) = map host_sample (session_samples fd st hist sq)"
proof -
  let ?ss = "session_samples fd st hist sq"
  have "requested fd st hist sq 0 len = concat (map enc_sample ?ss)"
    using len unfolding requested_def session_bytes_samples by (simp add: length_concat_const)
  moreover obtain ps where "dump_serve fd (\<lambda>_. st) env (sq, 0, len) = Some (ps, DDone)" "chunks_follow 0 ps"
    "concat (map chunk_data ps) = requested fd st hist sq 0 len"
    using dump_serves [OF assms(1-4), of sq 0 len] by blast
  ultimately show ?thesis by (intro exI [of _ ps]) (simp add: decode_chunks unpack_enc)
qed

text \<open>C3: From the list to the samples: the host reads the session directory, takes any session of it, asks
  for all its records in one dump over a link that serves it, and unpacks what arrives. It gets the
  directory as the robot has it, and exactly the samples of that session still in the ring, as many
  as the directory says, in the order they were recorded.\<close>

theorem host_downloads_session:
  assumes "dir_dev (pf_flash p) img" "log_inv img (a_log a) hist" "length hist < 2 ^ 28" "link_ok env"
    and attr: "pf_attr_read p = attr_read_doc" and big: "260 \<le> len"
    and s: "s \<in> set (imu_log_session_list (pf_flash p) 16 (a_log a))"
  shows "(case on_dir_read p len 0 a of
        Inl e \<Rightarrow> False
      | Inr pkt \<Rightarrow> decode_sessions pkt = Some (map host_session (imu_log_session_list (pf_flash p) 16 (a_log a)))) \<and>
    (\<exists>ps. dump_serve (pf_flash p) (\<lambda>_. a_log a) env (ls_seq s, 0, 16 * ls_rec_count s) = Some (ps, DDone) \<and>
      (let got = unpack_records (concat (map host_bytes ps))
       in got = map host_sample (session_samples (pf_flash p) (a_log a) hist (ls_seq s)) \<and>
          int (length got) = ps_rec_count (host_session s)))"
proof
  let ?ls = "imu_log_session_list (pf_flash p) 16 (a_log a)"
  have l16: "length ?ls \<le> 16" by (simp add: imu_log_session_list_def)
  then have "length (dir_pkt ?ls) \<le> 260" by (simp add: dir_pkt_def length_concat_const [where w = 16])
  moreover have "260 \<le> unat len" using big by (simp add: word_le_nat_alt)
  ultimately have "on_dir_read p len 0 a = Inr (dir_pkt ?ls)"
    by (simp add: on_dir_read_def attr attr_read_doc_def)
  then show "case on_dir_read p len 0 a of Inl e \<Rightarrow> False | Inr pkt \<Rightarrow> decode_sessions pkt = Some (map host_session ?ls)"
    using decode_dir_pkt [of ?ls] l16 by simp
next
  let ?ss = "session_samples (pf_flash p) (a_log a) hist (ls_seq s)"
  have n: "length ?ss = unat (ls_rec_count s)" by (rule listed_samples [OF assms(1-3) s])
  have cap: "length ?ss \<le> CAP" by (auto simp: session_samples_def split: option.split)
  have "unat (16 * ls_rec_count s) = 16 * unat (ls_rec_count s)"
    using cap n by (subst unat_mult_u32) simp_all
  then have "16 * length ?ss \<le> unat (16 * ls_rec_count s)" using n by simp
  then obtain ps where ps: "dump_serve (pf_flash p) (\<lambda>_. a_log a) env (ls_seq s, 0, 16 * ls_rec_count s) = Some (ps, DDone)"
    "unpack_records (concat (map host_bytes ps)) = map host_sample ?ss"
    using dump_gives_samples [OF assms(1-4), of "ls_seq s"] by blast
  have "int (length ?ss) = ps_rec_count (host_session s)" by (simp add: n host_session_def)
  then show "\<exists>ps. dump_serve (pf_flash p) (\<lambda>_. a_log a) env (ls_seq s, 0, 16 * ls_rec_count s) = Some (ps, DDone) \<and>
      (let got = unpack_records (concat (map host_bytes ps))
       in got = map host_sample ?ss \<and> int (length got) = ps_rec_count (host_session s))"
    using ps by (intro exI [of _ ps]) (simp add: Let_def)
qed

theorem host_downloads_session_witness:
  "\<exists>s \<in> set (imu_log_session_list ram_flash 16 short_drained). \<exists>ps.
     dump_serve ram_flash (\<lambda>_. short_drained) good_link (ls_seq s, 0, 16 * ls_rec_count s) = Some (ps, DDone) \<and>
     length (unpack_records (concat (map host_bytes ps))) = 1"
proof -
  let ?a = "blank_app\<lparr>a_log := short_drained\<rparr>"
  obtain s where s: "s \<in> set (imu_log_session_list ram_flash 16 short_drained)" "ls_rec_count s = 1"
    using short_listed by blast
  have "pf_flash quiet_platform = ram_flash" "pf_attr_read quiet_platform = attr_read_doc"
    by (simp_all add: quiet_platform_def)
  then obtain ps where
    "dump_serve ram_flash (\<lambda>_. short_drained) good_link (ls_seq s, 0, 16 * ls_rec_count s) = Some (ps, DDone)"
    "int (length (unpack_records (concat (map host_bytes ps)))) = ps_rec_count (host_session s)"
    using host_downloads_session [of quiet_platform "\<lambda>m. m" ?a "[zero_sample]" good_link 300 s]
      ram_flash_dir_dev short_drained_facts good_link_ok s(1) by (auto simp: Let_def)
  then show ?thesis using s by (intro bexI [of _ s] exI [of _ ps]) (simp_all add: host_session_def)
qed

text \<open>C32: The advertised identity: the name fits its buffer and the 31 bytes of an advertising packet, is
  one the host recognises, and the manufacturer data tells the host the robot id, the firmware version
  and whether a session runs.\<close>

theorem adv_identity_roundtrip:
  fixes p :: "('f, 'b) platform" and a :: "('f, 'b) app_st"
  assumes "settings_ok (a_settings a)"
  defines "a' \<equiv> build_ad p a"
  shows "length (adv_name a') \<le> 11 \<and> sum_list (map (\<lambda>(k, d). 2 + length d) (ad a')) \<le> 31 \<and>
    take 2 (adv_mfg a') = [0xFF, 0xFF] \<and>
    parse_adv (adv_name a') (Some (drop 2 (adv_mfg a'))) =
      Some \<lparr>pa_name = adv_name a', pa_robot_id = Some (uint (settings_get SETTING_ROBOT_ID (a_settings a))),
        pa_fw = Some (uint (ver_major (pf_version p)), uint (ver_minor (pf_version p)), uint (ver_patch (pf_version p))),
        pa_session_active = Some (active (a_log a))\<rparr>"
proof -
  let ?i = "settings_get SETTING_ROBOT_ID (a_settings a)"
  have "?i \<le> 20" by (rule registry.motor_cfg_valid(5) [OF assms(1)])
  then have "unat (ucast ?i :: u8) = unat ?i" by (intro unat_ucast_down(3)) (simp add: word_le_nat_alt)
  then have i: "uint (ucast ?i :: u8) = uint ?i" by (simp only: uint_nat)
  have name: "length (adv_name a') \<le> 11" by (simp add: a'_def build_ad_def adv_name_of_def Let_def)
  have cat: "take 4 (adv_name a') = ''Cat-''"
    by (auto simp: a'_def build_ad_def adv_name_of_def Let_def min_def split: option.split)
  then have "is_caterpillar (adv_name a')" by (auto simp: is_caterpillar_def)
  then show ?thesis using name i
    by (simp add: parse_adv_def a'_def [symmetric]) 
       (simp add: a'_def build_ad_def Let_def ad_def py_fields flag_def imu_log_active_def)
qed

theorem adv_identity_roundtrip_witness:
  "parse_adv (adv_name (build_ad quiet_platform blank_app)) (Some (drop 2 (adv_mfg (build_ad quiet_platform blank_app)))) \<noteq> None"
  using adv_identity_roundtrip [of blank_app quiet_platform] by simp

end
