(* ===== verification/App.thy ===== *)
theory App
  imports Host_Protocol
begin

text \<open>
  The application of \<open>src/app/app.c\<close>: the boot sequence and the health monitor. \<open>flpr_launch\<close> only
  copies the image and starts the coprocessor, which from then on takes its own steps.
\<close>

section \<open>Boot\<close>

text \<open>What the boot code meets: the reset cause and whether it could be read, whether each device is ready
  and what its set-up call returns, and what \<open>bt_enable\<close> returns.\<close>

record boot_env =
  be_reset :: "int \<times> u32"
  be_led :: "bool \<times> int"
  be_i2c_ready :: bool
  be_rail :: "bool \<times> int"
  be_drv :: "bool \<times> int"
  be_pwm_ready :: bool
  be_ble :: int

definition hex8 :: "u32 \<Rightarrow> string" where
  "hex8 w = pad_left 8 CHR ''0'' (digits_base False 16 (unat w))"

definition boot_msg :: "app_version \<Rightarrow> u32 \<Rightarrow> string" where
  "boot_msg v cause = ''boot: fw v'' @ fmt_u (ucast (ver_major v)) @ ''.'' @ fmt_u (ucast (ver_minor v)) @ ''.'' @
     fmt_u (ucast (ver_patch v)) @ '', reset cause 0x'' @ hex8 cause"

text \<open>The digipot is programmed before anything can be enabled.\<close>

definition boot_digipot :: "boot_env \<Rightarrow> ('f, 'b) platform \<Rightarrow> ('f, 'b) app_st \<Rightarrow> ('f, 'b) app_st" where
  "boot_digipot be p a =
     (let v = volts_of_mv (settings_get SETTING_MOTOR_VDC_MV (a_settings a));
          (r, pot) = max5419_init (be_i2c_ready be) (pf_i2c p) (a_pot a)
      in if r \<noteq> 0 then a\<lparr>a_pot := pot\<rparr> else a\<lparr>a_pot := snd (max5419_set_voltage (pf_i2c p) v pot)\<rparr>)"

definition boot_motor :: "boot_env \<Rightarrow> ('f, 'b) platform \<Rightarrow> ('f, 'b) app_st \<Rightarrow> ('f, 'b) app_st" where
  "boot_motor be p a =
     (let rail = snd (drv_stbb1_apur_init (fst (be_rail be)) (snd (be_rail be)) (a_rail a));
          bridge = snd (drv_drv8212_init (fst (be_drv be)) (snd (be_drv be)) (a_bridge a));
          pwm1 = snd (drv_pwm_init (be_pwm_ready be) (pf_pwm p) (a_pwm a));
          pwm2 = snd (drv_pwm_set_duty (pf_pwm p) 0 50 pwm1);
          pwm3 = snd (drv_pwm_set_frequency (pf_pwm p) (settings_get SETTING_MOTOR_FREQ_HZ (a_settings a)) pwm2)
      in a\<lparr>a_rail := rail, a_bridge := bridge, a_pwm := pwm3\<rparr>)"

definition boot_led :: "('f, 'b) app_st \<Rightarrow> ('f, 'b) app_st" where
  "boot_led a =
     (let led = drv_led_blink_start (a_led a)
      in a\<lparr>a_led := if settings_get SETTING_LED_ENABLED (a_settings a) = 0 then drv_led_set_enabled False led else led\<rparr>)"

definition app_init :: "boot_env \<Rightarrow> ('f, 'b) platform \<Rightarrow> ('f, 'b) app_st \<Rightarrow> ('f, 'b) app_st" where
  "app_init be p a =
     (let (rc, cause) = be_reset be;
          a1 = (if rc = 0 then a\<lparr>app_reset_cause := cause\<rparr> else a);
          a2 = a1\<lparr>a_settings := settings_store_init (pf_crc32 p) (pf_flash p) (flash (a_log a1)) (a_settings a1)\<rparr>;
          a3 = a2\<lparr>a_led := snd (drv_led_init (fst (be_led be)) (snd (be_led be)) (a_led a2))\<rparr>;
          a4 = boot_motor be p (boot_digipot be p a3);
          a5 = a4\<lparr>a_log := snd (imu_log_init (pf_flash p) (pf_version p) (a_log a4))\<rparr>;
          a6 = snd (ble_interface_init (be_ble be) p a5);
          a7 = post p (boot_msg (pf_version p) (app_reset_cause a6)) a6
      in boot_led a7)"

section \<open>Health monitor\<close>

record health_st =
  flpr_announced :: bool
  last_drained :: u32
  last_overrun :: u32
  last_wdrop :: u32
  last_warn :: int

definition health_boot :: health_st where
  "health_boot = \<lparr>flpr_announced = False, last_drained = 0, last_overrun = 0, last_wdrop = 0, last_warn = 0\<rparr>"

definition stream_set_preview :: "('f, 'b) platform \<Rightarrow> u16 \<Rightarrow> ('f, 'b) app_st \<Rightarrow> ('f, 'b) app_st" where
  "stream_set_preview p hz a =
     a\<lparr>a_stream := ble_stream_set_preview hz (cfg_odr (a_sh a)) (imu_log_active a) (pf_now p) (a_stream a)\<rparr>"

text \<open>Once the FLPR announced itself, its configuration is arbitrated for the first time.\<close>

definition health_announce :: "('f, 'b) platform \<Rightarrow> health_st \<times> ('f, 'b) app_st \<Rightarrow> health_st \<times> ('f, 'b) app_st" where
  "health_announce p s =
     (let (h, a) = s
      in if magic (a_sh a) = IMU_SHARED_MAGIC \<and> \<not> flpr_announced h
         then (h\<lparr>flpr_announced := True\<rparr>,
               session_imu_run_update p (stream_set_preview p (settings_get SETTING_PREVIEW_HZ (a_settings a)) a))
         else s)"

definition overrun_msg :: "u32 \<Rightarrow> u32 \<Rightarrow> string" where
  "overrun_msg lost tot = ''IMU ring overrun: '' @ fmt_u lost @ '' samples lost (total '' @ fmt_u tot @ '')''"

definition backlog_msg :: "u32 \<Rightarrow> u32 \<Rightarrow> string" where
  "backlog_msg lost tot = ''log write backlog: '' @ fmt_u lost @ '' samples lost (total '' @ fmt_u tot @ '')''"

definition health_losses :: "('f, 'b) platform \<Rightarrow> health_st \<times> ('f, 'b) app_st \<Rightarrow> health_st \<times> ('f, 'b) app_st" where
  "health_losses p s =
     (let (h, a) = s;
          over = imu_pump_overrun (a_sh a);
          (h1, a1) = (if over \<noteq> last_overrun h
             then (h\<lparr>last_overrun := over\<rparr>, post p (overrun_msg (over - last_overrun h) over) a) else (h, a));
          wdrop = log_dropped (a_log a1);
          a2 = (if wdrop > last_wdrop h1 then post p (backlog_msg (wdrop - last_wdrop h1) wdrop) a1 else a1)
      in (h1\<lparr>last_wdrop := wdrop\<rparr>, a2))"

text \<open>The warning a tick posts about a sampling chain that does not run, at most one in five seconds.\<close>

definition stall_msg :: "u32 \<Rightarrow> health_st \<Rightarrow> ('f, 'b) app_st \<Rightarrow> string option" where
  "stall_msg drained h a =
     (let sh = a_sh a
      in if magic sh \<noteq> IMU_SHARED_MAGIC then Some ''FLPR not running (no shared-memory magic)''
         else if imu_ok sh = 0 then
           Some (''IMU init failed (WHO_AM_I=0x'' @ pad_left 2 CHR ''0'' (digits_base False 16 (unat (whoami sh))) @ '')'')
         else if drained = last_drained h \<and> session_imu_demand a
         then Some (''IMU samples stalled at '' @ fmt_u drained)
         else None)"

definition health_tick :: "('f, 'b) platform \<Rightarrow> health_st \<times> ('f, 'b) app_st \<Rightarrow> health_st \<times> ('f, 'b) app_st" where
  "health_tick p s =
     (let s1 = health_announce p s;
          drained = drained_total (snd s1);
          (h, a) = health_losses p s1;
          (h1, a1) = (if pf_now p - last_warn h \<ge> 5000
             then (case stall_msg drained h a of None \<Rightarrow> (h, a) | Some m \<Rightarrow> (h\<lparr>last_warn := pf_now p\<rparr>, post p m a))
             else (h, a))
      in (h1\<lparr>last_drained := drained\<rparr>, a1))"

text \<open>Apart from the first arbitration, a tick of the monitor only posts messages.\<close>

lemma losses_msgs: "\<exists>m. snd (health_losses p s) = (snd s)\<lparr>a_msgs := m\<rparr>"
proof -
  have id: "\<exists>m. a = a\<lparr>a_msgs := m\<rparr>" for a :: "('a, 'b) app_st" by (rule exI [of _ "a_msgs a"]) simp
  show ?thesis
    by (auto simp: health_losses_def post_def Let_def split_beta intro: id)
qed

lemma tick_msgs: "\<exists>m. snd (health_tick p s) = (snd (health_announce p s))\<lparr>a_msgs := m\<rparr>"
proof -
  obtain h a where l: "health_losses p (health_announce p s) = (h, a)" by force
  obtain m where m: "a = (snd (health_announce p s))\<lparr>a_msgs := m\<rparr>"
    using losses_msgs [of p "health_announce p s"] l by auto
  show ?thesis
    unfolding health_tick_def l Let_def prod.case m post_def by (auto split: option.split)
qed

lemma announce_core:
  "snd (health_announce p s) = snd s \<or>
   (\<exists>hz. snd (health_announce p s) = session_imu_run_update p (stream_set_preview p hz (snd s)))"
  by (auto simp: health_announce_def split_beta)

lemma set_preview_frame [simp]:
  "a_rail (stream_set_preview p hz a) = a_rail a" "a_bridge (stream_set_preview p hz a) = a_bridge a"
  "a_settings (stream_set_preview p hz a) = a_settings a" "a_log (stream_set_preview p hz a) = a_log a"
  "a_led (stream_set_preview p hz a) = a_led a" "a_pwm (stream_set_preview p hz a) = a_pwm a"
  "a_pot (stream_set_preview p hz a) = a_pot a" "cmd_msgq (stream_set_preview p hz a) = cmd_msgq a"
  "stream_active (stream_set_preview p hz a) = stream_active a" "a_sh (stream_set_preview p hz a) = a_sh a"
  by (simp_all add: stream_set_preview_def)

lemma health_tick_frame:
  "a_rail (snd (health_tick p s)) = a_rail (snd s)" "a_bridge (snd (health_tick p s)) = a_bridge (snd s)"
  "a_settings (snd (health_tick p s)) = a_settings (snd s)" "a_log (snd (health_tick p s)) = a_log (snd s)"
  "a_led (snd (health_tick p s)) = a_led (snd s)" "a_pwm (snd (health_tick p s)) = a_pwm (snd s)"
  "a_pot (snd (health_tick p s)) = a_pot (snd s)" "cmd_msgq (snd (health_tick p s)) = cmd_msgq (snd s)"
  "stream_active (snd (health_tick p s)) = stream_active (snd s)"
  "magic (a_sh (snd (health_tick p s))) = magic (a_sh (snd s))"
  using tick_msgs [of p s] announce_core [of p s] by auto

end
