(* ===== verification/Robot.thy ===== *)
theory Robot
  imports App
begin

text \<open>
  The robot as a whole: every thread and callback of the application core and the sampling loop of the
  coprocessor as an event, in any order, and what holds whatever the order is.
\<close>

section \<open>The robot\<close>

text \<open>
  One event is one uninterrupted piece of work of a thread, a callback or the coprocessor. The pump,
  the TX thread and the dump thread are cut where they hand over: a pass of the pump, one message or
  packet sent, one request served. What a write returns is seen by the host only.
\<close>

record ('f, 'b, 'c) robot =
  core :: "('f, 'b) app_st"
  health :: health_st
  flpr :: "'c flpr_st"

datatype robot_ev =
    EvWrite chrc u16 "u8 list"
  | EvCcc u16
  | EvCommand
  | EvConnected u8
  | EvDisconnected
  | EvAdvRestart
  | EvPump
  | EvWriter
  | EvPersist
  | EvTxMessage
  | EvTxPacket bool
  | EvDump dump_env
  | EvDumpSent
  | EvLedTimer
  | EvHealth
  | EvFlpr
  | EvDrdy

definition gatt_write :: "('f, 'b) platform \<Rightarrow> chrc \<Rightarrow> u16 \<Rightarrow> u8 list \<Rightarrow> ('f, 'b) app_st \<Rightarrow> ('f, 'b) app_st" where
  "gatt_write p c offset buf a = (case svc_write c of None \<Rightarrow> a | Some h \<Rightarrow> snd (h p offset buf a))"

text \<open>A chunk goes to the log, and to the stream sink while one is registered.\<close>

definition deliver :: "int \<Rightarrow> imu_sample list \<Rightarrow> 'f log_st \<times> stream_st \<Rightarrow> 'f log_st \<times> stream_st" where
  "deliver now xs s = (imu_log_append xs (fst s), if sink_on (snd s) then stream_sink now xs (snd s) else snd s)"

definition pump_thread :: "('f, 'b) platform \<Rightarrow> ('f, 'b) app_st \<Rightarrow> ('f, 'b) app_st" where
  "pump_thread p a =
     (let (sh, drained, l, st) = pump_pass (deliver (pf_now p)) (a_sh a, drained_total a, a_log a, a_stream a)
      in a\<lparr>a_sh := sh, drained_total := drained, a_log := l, a_stream := st\<rparr>)"

definition writer_thread :: "('f, 'b) platform \<Rightarrow> ('f, 'b) app_st \<Rightarrow> ('f, 'b) app_st" where
  "writer_thread p a =
     (let (l, m) = writer_step (pf_flash p) (pf_now p) (a_log a, a_msgs a) in a\<lparr>a_log := l, a_msgs := m\<rparr>)"

definition persist_work :: "('f, 'b) platform \<Rightarrow> ('f, 'b) app_st \<Rightarrow> ('f, 'b) app_st" where
  "persist_work p a =
     (let (st, f) = persist_work_fn (pf_crc32 p) (pf_flash p) (a_settings a, flash (a_log a))
      in a\<lparr>a_settings := st, a_log := (a_log a)\<lparr>flash := f\<rparr>\<rparr>)"

definition dump_thread :: "('f, 'b) platform \<Rightarrow> dump_env \<Rightarrow> ('f, 'b) app_st \<Rightarrow> ('f, 'b) app_st" where
  "dump_thread p env a =
     (case dump_take (a_dump a) of
        None \<Rightarrow> a
      | Some (req, d) \<Rightarrow>
          let a1 = a\<lparr>a_dump := d\<rparr>
          in case dump_serve (pf_flash p) (\<lambda>_. a_log a) env req of
               None \<Rightarrow> a1
             | Some (_, e) \<Rightarrow> (case dump_end_msg e of None \<Rightarrow> a1 | Some m \<Rightarrow> post p m a1))"

fun core_step :: "('f, 'b) platform \<Rightarrow> robot_ev \<Rightarrow> ('f, 'b) app_st \<Rightarrow> ('f, 'b) app_st" where
  "core_step p (EvWrite c offset buf) a = gatt_write p c offset buf a"
| "core_step p (EvCcc value) a = stream_ccc_changed p value a"
| "core_step p EvCommand a = cmd_thread p a"
| "core_step p (EvConnected err) a = connected err a"
| "core_step p EvDisconnected a = disconnected p a"
| "core_step p EvAdvRestart a = (if adv_restart a then restart_advertise p a else a)"
| "core_step p EvPump a = pump_thread p a"
| "core_step p EvWriter a = writer_thread p a"
| "core_step p EvPersist a = (if persist_pending (a_settings a) then persist_work p a else a)"
| "core_step p EvTxMessage a = (case tx_message (a_msgs a) of None \<Rightarrow> a | Some (_, m) \<Rightarrow> a\<lparr>a_msgs := m\<rparr>)"
| "core_step p (EvTxPacket sent) a =
     (case tx_build (pf_now p) (a_stream a) of
        None \<Rightarrow> a | Some (n, _) \<Rightarrow> a\<lparr>a_stream := tx_done (pf_now p) sent n (a_stream a)\<rparr>)"
| "core_step p (EvDump env) a = dump_thread p env a"
| "core_step p EvDumpSent a = a\<lparr>a_dump := dump_sent_cb (a_dump a)\<rparr>"
| "core_step p EvLedTimer a = a\<lparr>a_led := led_exec LedTimer (a_led a)\<rparr>"
| "core_step p EvHealth a = a"
| "core_step p EvFlpr a = a"
| "core_step p EvDrdy a = a"

definition robot_step :: "'c spi_bus \<Rightarrow> ('f, 'b) platform \<times> robot_ev \<Rightarrow> ('f, 'b, 'c) robot \<Rightarrow> ('f, 'b, 'c) robot" where
  "robot_step sp pe r =
     (let (p, ev) = pe
      in case ev of
           EvHealth \<Rightarrow> (let (h, a) = health_tick p (health r, core r) in r\<lparr>core := a, health := h\<rparr>)
         | EvFlpr \<Rightarrow> (let (sh, f) = flpr_loop sp (a_sh (core r), flpr r)
             in r\<lparr>core := (core r)\<lparr>a_sh := sh\<rparr>, flpr := f\<rparr>)
         | EvDrdy \<Rightarrow> r\<lparr>flpr := (flpr r)\<lparr>sensor := drdy_isr (sensor (flpr r))\<rparr>\<rparr>
         | _ \<Rightarrow> r\<lparr>core := core_step p ev (core r)\<rparr>)"

definition robot_run :: "'c spi_bus \<Rightarrow> (('f, 'b) platform \<times> robot_ev) list \<Rightarrow> ('f, 'b, 'c) robot \<Rightarrow> ('f, 'b, 'c) robot" where
  "robot_run sp = fold (robot_step sp)"

section \<open>Who touches the motor\<close>

definition rail_after :: "robot_ev \<Rightarrow> rail_st \<Rightarrow> rail_st" where
  "rail_after ev st =
     (case ev of
        EvWrite c offset buf \<Rightarrow>
          if c = RAIL \<and> length buf = 1 \<and> offset = 0 \<and> hd buf \<le> 1 then drv_stbb1_apur_set (hd buf \<noteq> 0) st else st
      | _ \<Rightarrow> st)"

definition bridge_after :: "robot_ev \<Rightarrow> bridge_st \<Rightarrow> bridge_st" where
  "bridge_after ev st =
     (case ev of
        EvWrite c offset buf \<Rightarrow>
          if c = DRV \<and> length buf = 1 \<and> offset = 0 \<and> hd buf \<le> 1 then drv_drv8212_set (hd buf \<noteq> 0) st else st
      | _ \<Rightarrow> st)"

lemma submit_frame [simp]:
  "a_rail (snd (device_cmd_submit c a)) = a_rail a" "a_bridge (snd (device_cmd_submit c a)) = a_bridge a"
  "a_sh (snd (device_cmd_submit c a)) = a_sh a" "a_log (snd (device_cmd_submit c a)) = a_log a"
  "stream_active (snd (device_cmd_submit c a)) = stream_active a" "a_stream (snd (device_cmd_submit c a)) = a_stream a"
  "a_settings (snd (device_cmd_submit c a)) = a_settings a" "a_led (snd (device_cmd_submit c a)) = a_led a"
  "a_pwm (snd (device_cmd_submit c a)) = a_pwm a" "a_pot (snd (device_cmd_submit c a)) = a_pot a"
  by (simp_all add: device_cmd_submit_def)

lemma gatt_write_motor:
  "a_rail (gatt_write p c offset buf a) = rail_after (EvWrite c offset buf) (a_rail a)"
  "a_bridge (gatt_write p c offset buf a) = bridge_after (EvWrite c offset buf) (a_bridge a)"
  by (cases c; simp add: gatt_write_def write_handlers rail_after_def bridge_after_def Let_def split_beta
        session_time_sync_def not_less [symmetric])+

lemma core_step_motor:
  "a_rail (core_step p ev a) = rail_after ev (a_rail a)"
  "a_bridge (core_step p ev a) = bridge_after ev (a_bridge a)"
proof -
  have "a_rail (core_step p ev a) = rail_after ev (a_rail a) \<and> a_bridge (core_step p ev a) = bridge_after ev (a_bridge a)"
  proof (cases ev)
    case (EvWrite c offset buf)
    then show ?thesis by (simp add: gatt_write_motor)
  qed (simp_all add: rail_after_def bridge_after_def stream_ccc_changed_def session_set_stream_active_def Let_def
      cmd_thread_def connected_def disconnected_def restart_advertise_def pump_thread_def writer_thread_def
      persist_work_def dump_thread_def split_beta split: list.split option.split)
  then show "a_rail (core_step p ev a) = rail_after ev (a_rail a)"
    "a_bridge (core_step p ev a) = bridge_after ev (a_bridge a)" by blast+
qed

lemma robot_step_cases:
  "robot_step sp (p, ev) r =
     (if ev = EvHealth then r\<lparr>core := snd (health_tick p (health r, core r)), health := fst (health_tick p (health r, core r))\<rparr>
      else if ev = EvFlpr then r\<lparr>core := (core r)\<lparr>a_sh := fst (flpr_loop sp (a_sh (core r), flpr r))\<rparr>,
        flpr := snd (flpr_loop sp (a_sh (core r), flpr r))\<rparr>
      else if ev = EvDrdy then r\<lparr>flpr := (flpr r)\<lparr>sensor := drdy_isr (sensor (flpr r))\<rparr>\<rparr>
      else r\<lparr>core := core_step p ev (core r)\<rparr>)"
  by (cases ev) (simp_all add: robot_step_def Let_def split_beta)

lemma robot_step_motor:
  "a_rail (core (robot_step sp (p, ev) r)) = rail_after ev (a_rail (core r))"
  "a_bridge (core (robot_step sp (p, ev) r)) = bridge_after ev (a_bridge (core r))"
  by (simp_all add: robot_step_cases core_step_motor health_tick_frame rail_after_def bridge_after_def)

text \<open>A host write that switches the rail on, or wakes the bridge.\<close>

fun energises :: "chrc \<Rightarrow> robot_ev \<Rightarrow> bool" where
  "energises d (EvWrite c offset buf) \<longleftrightarrow> c = d \<and> buf = [1] \<and> offset = 0"
| "energises d _ \<longleftrightarrow> False"

lemma byte_le_1: "(w :: u8) \<le> 1 \<Longrightarrow> w \<noteq> 0 \<Longrightarrow> w = 1"
  by (simp add: word_le_nat_alt word_unat_eq_iff)

lemma rail_stays_off:
  "\<not> energises RAIL ev \<Longrightarrow> \<not> rail_pin st \<Longrightarrow> \<not> rail_pin (rail_after ev st)"
  by (cases ev) (auto simp: rail_after_def drv_stbb1_apur_set_def length_Suc_conv dest: byte_le_1)

lemma bridge_stays_asleep:
  "\<not> energises DRV ev \<Longrightarrow> \<not> sleep_pin st \<Longrightarrow> \<not> sleep_pin (bridge_after ev st)"
  by (cases ev) (auto simp: bridge_after_def drv_drv8212_set_def length_Suc_conv dest: byte_le_1)

interpretation rail_off: step_invariant "robot_step sp" "\<lambda>r. \<not> rail_pin (a_rail (core r))"
    "\<lambda>(p, ev). \<not> energises RAIL ev" for sp
  by unfold_locales (auto simp: robot_step_motor rail_stays_off)

interpretation bridge_asleep: step_invariant "robot_step sp" "\<lambda>r. \<not> sleep_pin (a_bridge (core r))"
    "\<lambda>(p, ev). \<not> energises DRV ev" for sp
  by unfold_locales (auto simp: robot_step_motor bridge_stays_asleep)

lemma boot_motor_off:
  assumes "fst (be_rail be)" "0 \<le> snd (be_rail be)" "fst (be_drv be)" "0 \<le> snd (be_drv be)"
  shows "\<not> rail_pin (a_rail (app_init be p a)) \<and> \<not> sleep_pin (a_bridge (app_init be p a))"
  using assms
  by (simp add: app_init_def boot_motor_def boot_led_def ble_interface_init_def drv_stbb1_apur_init_def
      drv_drv8212_init_def Let_def split_beta)

text \<open>C6: The motor is off until the host switches it on. After a boot in which both pins were set up, the
  rail stays off through any events, whatever connects, disconnects, fails or is written, until a write
  of exactly the byte 1 to the rail characteristic, and the bridge stays asleep until such a write to
  its own: no other characteristic, command, setting or malformed write can energise the motor.\<close>

theorem motor_off_until_commanded:
  assumes "fst (be_rail be)" "0 \<le> snd (be_rail be)" "fst (be_drv be)" "0 \<le> snd (be_drv be)"
    and "core r = app_init be p a"
  shows "let a' = core (robot_run sp evs r) in
    (rail_pin (a_rail a') \<longrightarrow> list_ex (\<lambda>(p, ev). energises RAIL ev) evs) \<and>
    (sleep_pin (a_bridge a') \<longrightarrow> list_ex (\<lambda>(p, ev). energises DRV ev) evs)"
  using rail_off.run_ruled_out [of r sp evs] bridge_asleep.run_ruled_out [of r sp evs]
    boot_motor_off [OF assms(1-4), of p a] assms(5)
  by (simp add: robot_run_def case_prod_unfold)

definition quiet_boot :: boot_env where
  "quiet_boot = \<lparr>be_reset = (0, 0), be_led = (True, 0), be_i2c_ready = True, be_rail = (True, 0),
     be_drv = (True, 0), be_pwm_ready = True, be_ble = 0\<rparr>"

definition booted_robot :: "(nat \<Rightarrow> u8, unit, u8 \<Rightarrow> u8) robot" where
  "booted_robot = \<lparr>core = app_init quiet_boot quiet_platform blank_app, health = health_boot,
     flpr = \<lparr>sensor = sensor_boot (\<lambda>_. 0), sampled = 0, since_cfg_poll = 0\<rparr>\<rparr>"

theorem motor_off_until_commanded_witness:
  "\<not> rail_pin (a_rail (core (robot_run reg_file_bus
     [(quiet_platform, EvConnected 0), (quiet_platform, EvWrite DRV 0 [1]), (quiet_platform, EvWrite RAIL 0 [2]),
      (quiet_platform, EvDisconnected)] booted_robot)))"
  using motor_off_until_commanded [of quiet_boot booted_robot quiet_platform blank_app reg_file_bus
      "[(quiet_platform, EvConnected 0), (quiet_platform, EvWrite DRV 0 [1]), (quiet_platform, EvWrite RAIL 0 [2]),
      (quiet_platform, EvDisconnected)]"]
  by (auto simp: quiet_boot_def booted_robot_def Let_def)

section \<open>What always holds\<close>

fun cmd_ok :: "device_cmd \<Rightarrow> bool" where
  "cmd_ok (DEVICE_CMD_SET_VOLT_MV mv) \<longleftrightarrow> 750 \<le> mv \<and> mv \<le> 4200"
| "cmd_ok (DEVICE_CMD_LOG op) \<longleftrightarrow> op \<le> 3"

text \<open>Settings in range, the preview control sane, LED and PWM in order, the command queue bounded and of
  valid commands, the wiper unknown or where it may be.\<close>

definition app_inv :: "('f, 'b) app_st \<Rightarrow> bool" where
  "app_inv a \<longleftrightarrow> settings_ok (a_settings a) \<and> adapt_ok (a_stream a) \<and> led_ok (a_led a) \<and> pwm_ok (a_pwm a) \<and>
     length (cmd_msgq a) \<le> CMD_QUEUE_DEPTH \<and> list_all cmd_ok (cmd_msgq a) \<and> cur_tap (a_pot a) \<in> {- 1..253}"

lemma app_invD:
  assumes "app_inv a"
  shows "settings_ok (a_settings a)" "adapt_ok (a_stream a)" "led_ok (a_led a)" "pwm_ok (a_pwm a)"
    "length (cmd_msgq a) \<le> 8" "list_all cmd_ok (cmd_msgq a)" "cur_tap (a_pot a) \<in> {- 1..253}"
  using assms by (simp_all add: app_inv_def)

text \<open>A step that leaves these parts alone, apart from the preview control.\<close>

lemma app_inv_cong:
  assumes "app_inv a" "a_settings a' = a_settings a" "adapt_ok (a_stream a')" "a_led a' = a_led a"
    "a_pwm a' = a_pwm a" "cmd_msgq a' = cmd_msgq a" "a_pot a' = a_pot a"
  shows "app_inv a'"
  using assms by (simp add: app_inv_def)

lemma update_decim_adapt: "adapt_ok (a_stream a) \<Longrightarrow> adapt_ok (a_stream (update_decim p a))"
  by (simp add: update_decim_def update_decim_ok adapt_ok_max)

lemma run_update_adapt: "adapt_ok (a_stream a) \<Longrightarrow> adapt_ok (a_stream (session_imu_run_update p a))"
  by (simp add: session_imu_run_update_def Let_def update_decim_adapt)

lemma set_preview_adapt:
  "adapt_ok st \<Longrightarrow> adapt_ok (ble_stream_set_preview hz odr act now st)"
  using stream_apply_ok [of st "SPreview hz odr act now"] by simp

lemma stream_enable_adapt: "adapt_ok (a_stream a) \<Longrightarrow> adapt_ok (a_stream (stream_enable p on a))"
  using stream_apply_ok [of "a_stream a" "SEnable on (cfg_odr (a_sh a)) (imu_log_active a) (pf_now p)"]
  by (simp add: stream_enable_def)

lemma run_update_inv: "app_inv a \<Longrightarrow> app_inv (session_imu_run_update p a)"
  by (rule app_inv_cong) (simp_all add: run_update_adapt app_invD)

lemma conn_params_inv: "app_inv a \<Longrightarrow> app_inv (ble_conn_request_params s a)"
  by (rule app_inv_cong) (simp_all add: app_invD)

lemma log_stop_inv: "app_inv a \<Longrightarrow> app_inv (log_stop p a)"
  by (rule app_inv_cong) (simp_all add: app_invD)

lemma submit_inv: "app_inv a \<Longrightarrow> cmd_ok c \<Longrightarrow> app_inv (snd (device_cmd_submit c a))"
  by (simp add: device_cmd_submit_def app_inv_def)

lemma exec_volt_inv: "app_inv a \<Longrightarrow> app_inv (exec_volt p mv a)"
  using set_voltage_range [of "a_pot a" "pf_i2c p" "volts_of_mv mv"]
  by (simp add: app_inv_def exec_volt_def split_beta Let_def settings_set_ok)

lemma exec_log_inv: "app_inv a \<Longrightarrow> app_inv (exec_log p op a)"
proof -
  assume inv: "app_inv a"
  obtain ret a1 where st: "log_start p a = (ret, a1)" by force
  note fr = log_start_frame [OF st]
  have 1: "app_inv a1" using inv by (rule app_inv_cong) (simp_all add: fr app_invD [OF inv])
  have 2: "app_inv (a1\<lparr>a_log := l\<rparr>)" for l using 1 by (rule app_inv_cong) (simp_all add: app_invD [OF 1])
  have 3: "app_inv (a\<lparr>a_log := l, a_msgs := m\<rparr>)" for l m
    using inv by (rule app_inv_cong) (simp_all add: app_invD [OF inv])
  show ?thesis
    using inv 1 2 3
    by (simp add: exec_log_def st session_on_log_started_def session_on_log_stopped_def split_beta
        run_update_inv conn_params_inv log_stop_inv)
qed

lemma cmd_thread_inv: "app_inv a \<Longrightarrow> app_inv (cmd_thread p a)"
proof (cases "cmd_msgq a")
  case (Cons c cs)
  assume inv: "app_inv a"
  then have "app_inv (a\<lparr>cmd_msgq := cs\<rparr>)" using Cons by (simp add: app_inv_def)
  then show ?thesis using Cons by (cases c) (simp_all add: cmd_thread_def exec_volt_inv exec_log_inv)
qed (simp add: cmd_thread_def)

lemma disconnect_inv: "app_inv a \<Longrightarrow> app_inv (session_on_disconnect p a)"
proof -
  assume inv: "app_inv a"
  let ?b = "stream_enable p False (a\<lparr>stream_active := False\<rparr>)"
  have "app_inv ?b"
    using inv by (rule app_inv_cong) (simp_all add: stream_enable_adapt app_invD [OF inv])
  then have "app_inv (?b\<lparr>a_dump := d\<rparr>)" for d
    by (rule app_inv_cong) (simp_all add: stream_enable_adapt app_invD [OF inv])
  then show ?thesis by (simp add: session_on_disconnect_def Let_def run_update_inv log_stop_inv)
qed

lemma gatt_write_inv:
  assumes "app_inv a"
  shows "app_inv (gatt_write p c offset buf a)"
proof -
  note d = app_invD [OF assms]
  have led: "led_ok (drv_led_set_enabled on (a_led a))" for on using led_exec_ok [OF d(3), of "LedEnable on"] by simp
  have upd: "app_inv (a\<lparr>a_rail := x\<rparr>)" "app_inv (a\<lparr>a_bridge := y\<rparr>)" "app_inv (a\<lparr>tput_rx_bytes := z\<rparr>)"
    "app_inv (a\<lparr>wall_epoch_at_boot := z\<rparr>)" "app_inv (a\<lparr>a_dump := w\<rparr>)" "app_inv (a\<lparr>a_pwm := snd (drv_pwm_set_frequency dev hz (a_pwm a))\<rparr>)"
    "app_inv (a\<lparr>a_pwm := snd (drv_pwm_set_frequency dev hz (a_pwm a)), a_settings := settings_set i v (a_settings a)\<rparr>)"
    "app_inv (a\<lparr>a_settings := settings_set i v (a_settings a)\<rparr>)"
    "app_inv (a\<lparr>a_led := drv_led_set_enabled on (a_led a), a_settings := settings_set i v (a_settings a)\<rparr>)"
    for x y z w dev hz i v on
    using assms led by (simp_all add: app_inv_def drv_pwm_ok settings_set_ok)
  have cfg: "app_inv (session_imu_run_update p (a\<lparr>a_stream := ble_stream_set_preview hz odr act now (a_stream a),
      a_settings := settings_set i1 v1 (settings_set i2 v2 (settings_set i3 v3 (settings_set i4 v4
        (settings_set i5 v5 (a_settings a)))))\<rparr>))" for hz odr act now i1 v1 i2 v2 i3 v3 i4 v4 i5 v5
    using assms by (intro run_update_inv) (simp add: app_inv_def settings_set_ok set_preview_adapt)
  have submit: "app_inv a1" if "device_cmd_submit cmd a = (r, a1)" "cmd_ok cmd" for cmd r a1
    using submit_inv [OF assms that(2)] that(1) by simp
  show ?thesis
  proof (cases c)
    case VOLT
    then show ?thesis using assms submit
      by (auto simp: gatt_write_def on_volt_write_def Let_def split_beta not_less intro: submit_inv)
  next
    case LOGCTL
    then show ?thesis using assms
      by (auto simp: gatt_write_def on_logctl_write_def Let_def split_beta not_less intro: submit_inv)
  qed (use assms upd cfg in \<open>simp_all add: gatt_write_def write_handlers Let_def split_beta session_time_sync_def\<close>)
qed

lemma fold_deliver_adapt: "adapt_ok (snd s) \<Longrightarrow> adapt_ok (snd (fold (deliver now) cs s))"
proof (induction cs arbitrary: s)
  case (Cons c cs)
  have "adapt_ok (snd (deliver now c s))"
    using Cons.prems stream_apply_ok [OF Cons.prems, of "SSink now c"] by (simp add: deliver_def)
  then show ?case using Cons.IH by simp
qed simp

lemma pump_pass_frame:
  obtains sh dr cs where "sh = sh0 \<or> sh = sh0\<lparr>sh_tail := sh_head sh0\<rparr>" "pump_pass d (sh0, dr0, s) = (sh, dr, fold d cs s)"
proof (cases "magic sh0 = IMU_SHARED_MAGIC \<and> imu_ok sh0 \<noteq> 0")
  case True
  obtain chunks where "pump_drain d (sh_head sh0) (sh_tail sh0) (sh0, dr0, s) =
      (sh0\<lparr>sh_tail := sh_head sh0\<rparr>, dr0 + (sh_head sh0 - sh_tail sh0), fold d chunks s)"
    using pump_drain_delivers [OF refl refl, where sh = sh0 and deliver = d and drained = dr0 and s = s] by (elim exE conjE)
  with True show ?thesis by (intro that [OF disjI2 [OF refl]]) (simp add: pump_pass_def)
next
  case False
  then show ?thesis using that [of sh0 dr0 "[]"] by (auto simp: pump_pass_def)
qed

lemma pump_frame:
  obtains sh dr cs l st where "sh = a_sh a \<or> sh = (a_sh a)\<lparr>sh_tail := sh_head (a_sh a)\<rparr>"
    "(l, st) = fold (deliver (pf_now p)) cs (a_log a, a_stream a)"
    "pump_thread p a = a\<lparr>a_sh := sh, drained_total := dr, a_log := l, a_stream := st\<rparr>"
proof -
  let ?s = "(a_log a, a_stream a)"
  obtain sh dr cs where sh: "sh = a_sh a \<or> sh = (a_sh a)\<lparr>sh_tail := sh_head (a_sh a)\<rparr>"
    and pass: "pump_pass (deliver (pf_now p)) (a_sh a, drained_total a, ?s) = (sh, dr, fold (deliver (pf_now p)) cs ?s)"
    by (rule pump_pass_frame)
  obtain l st where fold: "(l, st) = fold (deliver (pf_now p)) cs ?s" by (metis surj_pair)
  show ?thesis
    by (rule that [OF sh fold, of dr]) (simp add: pump_thread_def pass fold [symmetric])
qed

lemma pump_adapt: "adapt_ok (a_stream a) \<Longrightarrow> adapt_ok (a_stream (pump_thread p a))"
proof -
  assume ok: "adapt_ok (a_stream a)"
  obtain sh dr cs l st where fold: "(l, st) = fold (deliver (pf_now p)) cs (a_log a, a_stream a)"
    and eq: "pump_thread p a = a\<lparr>a_sh := sh, drained_total := dr, a_log := l, a_stream := st\<rparr>"
    by (rule pump_frame)
  show ?thesis using fold_deliver_adapt [of "(a_log a, a_stream a)" "pf_now p" cs] ok by (simp add: eq fold [symmetric])
qed

lemma pump_core:
  "a_settings (pump_thread p a) = a_settings a" "a_led (pump_thread p a) = a_led a" "a_pwm (pump_thread p a) = a_pwm a"
  "cmd_msgq (pump_thread p a) = cmd_msgq a" "a_pot (pump_thread p a) = a_pot a"
  "stream_active (pump_thread p a) = stream_active a"
  by (simp_all add: pump_thread_def split_beta)

lemma ccc_changed_inv:
  assumes "app_inv a"
  shows "app_inv (stream_ccc_changed p ccc a)"
proof -
  have "app_inv (stream_enable p on a)" for on
    using app_invD [OF assms] by (intro app_inv_cong [OF assms]) (simp_all add: stream_enable_adapt)
  then have "app_inv ((stream_enable p on a)\<lparr>stream_active := x\<rparr>)" for on x
    by (rule app_inv_cong) (simp_all add: stream_enable_adapt app_invD [OF assms])
  then show ?thesis
    by (simp add: stream_ccc_changed_def session_set_stream_active_def Let_def run_update_inv)
qed

text \<open>A step outside these parts.\<close>

lemma app_inv_frame:
  assumes "app_inv a" "a_settings a' = a_settings a" "a_stream a' = a_stream a" "a_led a' = a_led a"
    "a_pwm a' = a_pwm a" "cmd_msgq a' = cmd_msgq a" "a_pot a' = a_pot a"
  shows "app_inv a'"
  using assms app_invD [OF assms(1)] by (intro app_inv_cong [OF assms(1)]) simp_all

lemma link_change_inv:
  assumes "app_inv a"
  shows "app_inv (connected err a)" "app_inv (disconnected p a)"
proof -
  have "app_inv (ble_conn_request_params False (a\<lparr>advertising := False, cur_conn := True\<rparr>))"
    by (intro conn_params_inv app_inv_frame [OF assms]) simp_all
  moreover have "app_inv (a\<lparr>advertising := False, adv_restart := True\<rparr>)" by (intro app_inv_frame [OF assms]) simp_all
  ultimately show "app_inv (connected err a)" by (simp add: connected_def Let_def)
  have off: "app_inv (session_on_disconnect p (a\<lparr>cur_conn := False, conn_req := None\<rparr>))"
    by (intro disconnect_inv app_inv_frame [OF assms]) simp_all
  have "app_inv ((session_on_disconnect p (a\<lparr>cur_conn := False, conn_req := None\<rparr>))\<lparr>adv_restart := True\<rparr>)"
    by (intro app_inv_frame [OF off]) simp_all
  then show "app_inv (disconnected p a)" by (simp add: disconnected_def)
qed

lemma core_step_inv:
  assumes inv: "app_inv a"
  shows "app_inv (core_step p ev a)"
proof -
  note d = app_invD [OF inv]
  note frame = app_inv_frame [OF inv]
  show ?thesis
  proof (cases ev)
    case EvPump
    then show ?thesis using pump_adapt [OF d(2), of p] by (intro app_inv_cong [OF inv]) (simp_all add: pump_core)
  next
    case (EvTxPacket sent)
    then show ?thesis
      using stream_apply_ok [OF d(2)] inv
      by (auto simp: app_inv_def split: option.split) (metis stream_apply.simps(5))
  next
    case EvPersist
    have "settings_ok (persist_prepare crc st)" if "settings_ok st" for crc st
      using that by (simp add: persist_prepare_def settings_ok_def Let_def)
    then show ?thesis using EvPersist inv
      by (simp add: persist_work_def persist_work_fn_def app_inv_def Let_def split_beta)
  next
    case EvLedTimer
    then show ?thesis using inv led_exec_ok [OF d(3), of LedTimer] by (simp add: app_inv_def)
  next
    case (EvDump env)
    then show ?thesis using inv by (auto simp: dump_thread_def Let_def split: option.split intro!: frame)
  next
    case EvAdvRestart
    have "app_inv (restart_advertise p a)"
      by (intro frame) (simp_all add: restart_advertise_def Let_def)
    then show ?thesis using EvAdvRestart inv by simp
  qed (use inv in \<open>auto simp: gatt_write_inv ccc_changed_inv link_change_inv cmd_thread_inv writer_thread_def split_beta
        split: option.split intro!: frame\<close>)
qed

lemma tick_inv: "app_inv (snd s) \<Longrightarrow> app_inv (snd (health_tick p s))"
proof -
  assume inv: "app_inv (snd s)"
  have "app_inv (stream_set_preview p hz (snd s))" for hz
    using inv by (rule app_inv_cong) (simp_all add: stream_set_preview_def set_preview_adapt app_invD [OF inv])
  then have "app_inv (snd (health_announce p s))"
    using announce_core [of p s] inv by (auto simp: run_update_inv)
  moreover obtain m where "snd (health_tick p s) = (snd (health_announce p s))\<lparr>a_msgs := m\<rparr>"
    using tick_msgs [of p s] by blast
  ultimately show ?thesis by (simp add: app_inv_def)
qed

lemma robot_step_inv: "app_inv (core r) \<Longrightarrow> app_inv (core (robot_step sp pe r))"
proof (cases pe)
  case (Pair p ev)
  assume inv: "app_inv (core r)"
  have "app_inv ((core r)\<lparr>a_sh := sh\<rparr>)" for sh using inv by (simp add: app_inv_def)
  then show ?thesis
    using inv tick_inv [of "(health r, core r)" p] by (simp add: Pair robot_step_cases core_step_inv)
qed

interpretation robot_inv: step_invariant "robot_step sp" "\<lambda>r. app_inv (core r)" "\<lambda>_. True" for sp
  by unfold_locales (rule robot_step_inv)

lemma robot_run_inv: "app_inv (core r) \<Longrightarrow> app_inv (core (robot_run sp evs r))"
  unfolding robot_run_def by (rule robot_inv.run_keeps) (simp_all add: list_all_iff)

lemma boot_digipot_inv: "app_inv a \<Longrightarrow> app_inv (boot_digipot be p a)"
proof -
  assume inv: "app_inv a"
  obtain r pot where i: "max5419_init (be_i2c_ready be) (pf_i2c p) (a_pot a) = (r, pot)" by force
  have "cur_tap pot \<in> {- 1..253}"
    using app_invD(7) [OF inv] max5419_init_frame [of "be_i2c_ready be" "pf_i2c p" "a_pot a"] by (simp add: i)
  then show ?thesis
    using inv set_voltage_range [of pot] unfolding boot_digipot_def i Let_def prod.case by (auto simp: app_inv_def)
qed

lemma boot_motor_inv: "app_inv a \<Longrightarrow> app_inv (boot_motor be p a)"
  by (simp add: app_inv_def boot_motor_def Let_def drv_pwm_ok)

lemma boot_led_inv: "app_inv a \<Longrightarrow> app_inv (boot_led a)"
  using led_exec_ok [of "a_led a" LedStart] led_exec_ok [of "drv_led_blink_start (a_led a)" "LedEnable False"]
  by (simp add: app_inv_def boot_led_def Let_def)

lemma ble_init_inv: "app_inv a \<Longrightarrow> app_inv (snd (ble_interface_init en p a))"
  by (simp add: app_inv_def ble_interface_init_def Let_def)

lemma app_init_inv:
  assumes "led_ok (a_led a)" "pwm_ok (a_pwm a)" "adapt_ok (a_stream a)" "cmd_msgq a = []" "cur_tap (a_pot a) \<in> {- 1..253}"
  shows "app_inv (app_init be p a)"
proof -
  define a2 where "a2 = (let a1 = (if fst (be_reset be) = 0 then a\<lparr>app_reset_cause := snd (be_reset be)\<rparr> else a)
    in a1\<lparr>a_settings := settings_store_init (pf_crc32 p) (pf_flash p) (flash (a_log a1)) (a_settings a1)\<rparr>)"
  define a3 where "a3 = a2\<lparr>a_led := snd (drv_led_init (fst (be_led be)) (snd (be_led be)) (a_led a2))\<rparr>"
  define a4 where "a4 = boot_motor be p (boot_digipot be p a3)"
  define a5 where "a5 = a4\<lparr>a_log := snd (imu_log_init (pf_flash p) (pf_version p) (a_log a4))\<rparr>"
  define a6 where "a6 = snd (ble_interface_init (be_ble be) p a5)"
  have "app_inv a2" using assms by (simp add: a2_def Let_def app_inv_def settings_init_ok)
  then have "app_inv a3" by (simp add: a3_def app_inv_def drv_led_init_def led_ok_def)
  then have "app_inv a4" by (simp add: a4_def boot_motor_inv boot_digipot_inv)
  then have "app_inv a5" by (simp add: a5_def app_inv_def)
  then have "app_inv a6" by (simp add: a6_def ble_init_inv)
  then have "app_inv (post p m a6)" for m by (simp add: app_inv_def)
  moreover have "app_init be p a = boot_led (post p (boot_msg (pf_version p) (app_reset_cause a6)) a6)"
    by (simp add: app_init_def a6_def a5_def a4_def a3_def a2_def Let_def split_beta)
  ultimately show ?thesis by (simp add: boot_led_inv)
qed

lemma boot_inv: "app_inv (app_init be p (app_boot f b sh rail bridge))"
proof (rule app_init_inv)
  show "led_ok (a_led (app_boot f b sh rail bridge))" by (simp add: led_ok_def led_boot_def app_boot_def)
  show "pwm_ok (a_pwm (app_boot f b sh rail bridge))" by (simp add: pwm_ok_def pwm_boot_def app_boot_def)
  show "adapt_ok (a_stream (app_boot f b sh rail bridge))" by (simp add: adapt_ok_def stream_boot_def app_boot_def)
qed (simp_all add: app_boot_def pot_boot_def)

text \<open>C11: Whatever the host writes, whatever the hardware answers and however threads, callbacks and the
  coprocessor interleave after a boot: every setting stays in the range of its table, the preview
  divisor is never zero, the LED's step stays inside its pattern, every programmed PWM period is one the
  timer was given, the command queue never exceeds its depth and holds only commands the executor
  knows, with a voltage in range, and the wiper is never past the highest tap the ramp may reach.\<close>

theorem robot_invariant:
  assumes "core r = app_init be p (app_boot f b sh rail bridge)"
    and "a' = core (robot_run sp evs r)"
  shows "settings_ok (a_settings a') \<and> stream_decim (a_stream a') \<noteq> 0 \<and>
    step_idx (a_led a') < length (steps_of (led_pattern (a_led a'))) \<and>
    1000000 \<le> unat (period_ns (a_pwm a')) \<and> unat (period_ns (a_pwm a')) \<le> 250000000 \<and>
    length (cmd_msgq a') \<le> CMD_QUEUE_DEPTH \<and> list_all cmd_ok (cmd_msgq a') \<and> cur_tap (a_pot a') \<le> 253"
proof -
  have "app_inv a'" unfolding assms(2) by (rule robot_run_inv) (simp add: assms(1) boot_inv)
  note d = app_invD [OF this]
  show ?thesis using d by (simp add: adapt_ok_def led_ok_def pwm_ok_def)
qed

theorem robot_invariant_witness:
  fixes r :: "(nat \<Rightarrow> u8, unit, u8 \<Rightarrow> u8) robot"
  defines "r \<equiv> booted_robot\<lparr>core := app_init quiet_boot quiet_platform
      (app_boot (\<lambda>_. 0xFF) () blank_shared \<lparr>rail_pin = False, rail_on = False\<rparr> \<lparr>sleep_pin = False, drv_awake = False\<rparr>)\<rparr>"
  shows "length (cmd_msgq (core (robot_run reg_file_bus
     (replicate 20 (quiet_platform, EvWrite VOLT 0 [0x00, 0x00, 0x80, 0x40])) r))) \<le> 8"
  using robot_invariant [where r = r, OF _ refl] by (simp add: r_def)

end
