(* ===== verification/Robot_Sensor.thy ===== *)
theory Robot_Sensor
  imports Robot
begin

text \<open>
  The sensor's power policy over whole runs of the robot: the configuration in the shared block, which
  the coprocessor applies, stays in step with what the log and the stream want.
\<close>

section \<open>What does not move the arbitration\<close>

lemma append_keeps_active:
  "active (imu_log_append xs st) = active st \<and> session_detached (imu_log_append xs st) = session_detached st"
proof (cases "active st")
  case True
  obtain a b c where "fold append_one xs st = st\<lparr>stage := a, stage_head := b, log_dropped := c\<rparr>"
    using append_fold_frame by blast
  then show ?thesis by (simp add: imu_log_append_def)
qed (simp add: imu_log_append_def)

lemma fold_deliver_active:
  "active (fst (fold (deliver now) cs s)) = active (fst s) \<and>
   session_detached (fst (fold (deliver now) cs s)) = session_detached (fst s)"
  by (induction cs arbitrary: s) (simp_all add: deliver_def append_keeps_active)

lemma pump_active:
  "active (a_log (pump_thread p a)) = active (a_log a)"
  "session_detached (a_log (pump_thread p a)) = session_detached (a_log a)"
proof -
  obtain sh dr cs l st where fold: "(l, st) = fold (deliver (pf_now p)) cs (a_log a, a_stream a)"
    and eq: "pump_thread p a = a\<lparr>a_sh := sh, drained_total := dr, a_log := l, a_stream := st\<rparr>"
    by (rule pump_frame)
  then show "active (a_log (pump_thread p a)) = active (a_log a)"
    "session_detached (a_log (pump_thread p a)) = session_detached (a_log a)"
    using fold_deliver_active [of "pf_now p" cs "(a_log a, a_stream a)"] by (simp_all add: eq fold [symmetric])
qed

lemma writer_active:
  "active (fst (writer_step fd up s)) = active (fst s)"
  "session_detached (fst (writer_step fd up s)) = session_detached (fst s)"
proof -
  obtain st ms where s: "s = (st, ms)" by force
  obtain f l m where "dir_maintenance fd up (drain_write fd st, ms) = ((drain_write fd st)\<lparr>flash := f, last_dir_refresh := l\<rparr>, m)"
    using dir_maintenance_frame [of fd up "drain_write fd st" ms undefined] by blast
  then show "active (fst (writer_step fd up s)) = active (fst s)"
    "session_detached (fst (writer_step fd up s)) = session_detached (fst s)"
    by (simp_all add: s writer_step_def writer_drain_batch_split) (simp_all add: drain_write_def Let_def)
qed

lemma pump_sh:
  "magic (a_sh (pump_thread p a)) = magic (a_sh a)" "cfg_odr (a_sh (pump_thread p a)) = cfg_odr (a_sh a)"
  "cfg_content (a_sh (pump_thread p a)) = cfg_content (a_sh a)"
  "cfg_accel_fs (a_sh (pump_thread p a)) = cfg_accel_fs (a_sh a)"
  "cfg_gyro_fs (a_sh (pump_thread p a)) = cfg_gyro_fs (a_sh a)"
proof -
  obtain sh dr cs l st where "sh = a_sh a \<or> sh = (a_sh a)\<lparr>sh_tail := sh_head (a_sh a)\<rparr>"
    and "pump_thread p a = a\<lparr>a_sh := sh, drained_total := dr, a_log := l, a_stream := st\<rparr>"
    by (rule pump_frame)
  then show "magic (a_sh (pump_thread p a)) = magic (a_sh a)" "cfg_odr (a_sh (pump_thread p a)) = cfg_odr (a_sh a)"
    "cfg_content (a_sh (pump_thread p a)) = cfg_content (a_sh a)"
    "cfg_accel_fs (a_sh (pump_thread p a)) = cfg_accel_fs (a_sh a)"
    "cfg_gyro_fs (a_sh (pump_thread p a)) = cfg_gyro_fs (a_sh a)"
    by auto
qed

lemma apply_config_frame:
  "magic (fst (apply_config sp s)) = magic (fst s)" "cfg_odr (fst (apply_config sp s)) = cfg_odr (fst s)"
  "cfg_content (fst (apply_config sp s)) = cfg_content (fst s)"
  "cfg_accel_fs (fst (apply_config sp s)) = cfg_accel_fs (fst s)"
  "cfg_gyro_fs (fst (apply_config sp s)) = cfg_gyro_fs (fst s)"
  "cfg_seq (fst (apply_config sp s)) = cfg_seq (fst s)"
  by (simp_all add: apply_config_def Let_def split_beta)

lemma publish_frame:
  "magic (flpr_publish x n sh) = magic sh" "cfg_odr (flpr_publish x n sh) = cfg_odr sh"
  "cfg_content (flpr_publish x n sh) = cfg_content sh" "cfg_accel_fs (flpr_publish x n sh) = cfg_accel_fs sh"
  "cfg_gyro_fs (flpr_publish x n sh) = cfg_gyro_fs sh"
  by (simp_all add: flpr_publish_def Let_def)

lemma flpr_loop_frame:
  "magic (fst (flpr_loop sp s)) = magic (fst s)" "cfg_odr (fst (flpr_loop sp s)) = cfg_odr (fst s)"
  "cfg_content (fst (flpr_loop sp s)) = cfg_content (fst s)" "cfg_accel_fs (fst (flpr_loop sp s)) = cfg_accel_fs (fst s)"
  "cfg_gyro_fs (fst (flpr_loop sp s)) = cfg_gyro_fs (fst s)"
  by (simp_all add: flpr_loop_def Let_def split_beta apply_config_frame publish_frame split: option.split)

text \<open>Whatever leaves the sampling settings, the configuration in the block and the demand alone.\<close>

lemma arbitrated_keep:
  assumes "arbitrated a"
    and "\<And>i. i \<in> {SETTING_IMU_ODR_CODE, SETTING_IMU_CONTENT, SETTING_IMU_ACCEL_FS, SETTING_IMU_GYRO_FS} \<Longrightarrow>
      settings_get i (a_settings a') = settings_get i (a_settings a)"
    and "magic (a_sh a') = magic (a_sh a)" "cfg_odr (a_sh a') = cfg_odr (a_sh a)"
    "cfg_content (a_sh a') = cfg_content (a_sh a)" "cfg_accel_fs (a_sh a') = cfg_accel_fs (a_sh a)"
    "cfg_gyro_fs (a_sh a') = cfg_gyro_fs (a_sh a)"
    "stream_active a' = stream_active a" "active (a_log a') = active (a_log a)"
  shows "arbitrated a'"
  using assms by (simp add: arbitrated_def session_imu_demand_def imu_log_active_def)

section \<open>Every event but an erase\<close>

fun erases :: "robot_ev \<Rightarrow> bool" where
  "erases (EvWrite c offset buf) \<longleftrightarrow> c = LOGCTL \<and> buf \<noteq> [] \<and> hd buf = DEVICE_LOG_OP_ERASE"
| "erases _ \<longleftrightarrow> False"

abbreviation ERASE_CMD :: device_cmd where "ERASE_CMD \<equiv> DEVICE_CMD_LOG DEVICE_LOG_OP_ERASE"

definition in_step :: "('f, 'b) app_st \<Rightarrow> bool" where
  "in_step a \<longleftrightarrow> arbitrated a \<and> ERASE_CMD \<notin> set (cmd_msgq a)"

lemma submit_in_step: "in_step a \<Longrightarrow> c \<noteq> ERASE_CMD \<Longrightarrow> in_step (snd (device_cmd_submit c a))"
  by (auto simp: in_step_def device_cmd_submit_def intro: arbitrated_cong)

lemma run_update_in_step:
  "magic (a_sh a) = IMU_SHARED_MAGIC \<Longrightarrow> ERASE_CMD \<notin> set (cmd_msgq a) \<Longrightarrow> in_step (session_imu_run_update p a)"
  by (simp add: in_step_def run_update_arbitrates)

lemma in_step_magic: "in_step a \<Longrightarrow> magic (a_sh a) = IMU_SHARED_MAGIC"
  by (simp add: in_step_def arbitrated_def)

lemma in_step_arbitrated: "in_step a \<Longrightarrow> arbitrated a"
  by (simp add: in_step_def)

lemma in_step_queue: "in_step a \<Longrightarrow> ERASE_CMD \<notin> set (cmd_msgq a)"
  by (simp add: in_step_def)

lemma in_step_keep:
  assumes "in_step a" "a_settings a' = a_settings a" "a_sh a' = a_sh a" "stream_active a' = stream_active a"
    "active (a_log a') = active (a_log a)" "cmd_msgq a' = cmd_msgq a"
  shows "in_step a'"
  using assms by (auto simp: in_step_def intro: arbitrated_cong)

lemma in_step_block:
  assumes "in_step a" "\<And>i. settings_get i (a_settings a') = settings_get i (a_settings a)"
    and "magic (a_sh a') = magic (a_sh a)" "cfg_odr (a_sh a') = cfg_odr (a_sh a)"
    "cfg_content (a_sh a') = cfg_content (a_sh a)" "cfg_accel_fs (a_sh a') = cfg_accel_fs (a_sh a)"
    "cfg_gyro_fs (a_sh a') = cfg_gyro_fs (a_sh a)"
    "stream_active a' = stream_active a" "active (a_log a') = active (a_log a)" "cmd_msgq a' = cmd_msgq a"
  shows "in_step a'"
proof -
  have "arbitrated a'"
    by (rule arbitrated_keep [OF in_step_arbitrated [OF assms(1)]]) (simp_all only: assms)
  then show ?thesis using assms(1,10) by (simp add: in_step_def)
qed

lemma in_step_set:
  assumes "in_step a" "i \<notin> {SETTING_IMU_ODR_CODE, SETTING_IMU_CONTENT, SETTING_IMU_ACCEL_FS, SETTING_IMU_GYRO_FS}"
    and "a_settings a' = settings_set i v (a_settings a)" "a_sh a' = a_sh a" "stream_active a' = stream_active a"
    "active (a_log a') = active (a_log a)" "cmd_msgq a' = cmd_msgq a"
  shows "in_step a'"
proof -
  have "settings_get j (a_settings a') = settings_get j (a_settings a)"
    if "j \<in> {SETTING_IMU_ODR_CODE, SETTING_IMU_CONTENT, SETTING_IMU_ACCEL_FS, SETTING_IMU_GYRO_FS}" for j
    using that assms(2,3) registry.get_put_other [of i j v "a_settings a"] by auto
  then have "arbitrated a'"
    by (rule arbitrated_keep [OF in_step_arbitrated [OF assms(1)]]) (simp_all only: assms(4-6))
  then show ?thesis using assms(1,7) by (simp add: in_step_def)
qed

lemma gatt_write_in_step:
  assumes "in_step a" "\<not> erases (EvWrite c offset buf)"
  shows "in_step (gatt_write p c offset buf a)"
proof -
  note keep = in_step_keep [OF assms(1)]
  note sets = in_step_set [OF assms(1)]
  have submit: "in_step a1" if "device_cmd_submit cmd a = (r, a1)" "cmd \<noteq> ERASE_CMD" for cmd r a1
    using submit_in_step [OF assms(1) that(2)] that(1) by simp
  have "gatt_write p c offset buf a = a \<or> in_step (gatt_write p c offset buf a)"
  proof (cases c)
    case FREQ
    then show ?thesis
      by (auto simp: gatt_write_def on_freq_write_def Let_def split_beta intro: keep sets [of SETTING_MOTOR_FREQ_HZ])
  next
    case VOLT
    then show ?thesis
      by (auto simp: gatt_write_def on_volt_write_def Let_def split_beta intro: submit_in_step [OF assms(1)])
  next
    case LED
    then show ?thesis
      by (auto simp: gatt_write_def on_led_write_def Let_def intro: sets [of SETTING_LED_ENABLED])
  next
    case ROBOTID
    then show ?thesis
      by (auto simp: gatt_write_def on_robotid_write_def Let_def intro: sets [of SETTING_ROBOT_ID])
  next
    case LOGCTL
    then show ?thesis using assms(2)
      by (auto simp: gatt_write_def on_logctl_write_def Let_def split_beta intro: submit_in_step [OF assms(1)])
  next
    case IMUCFG
    then show ?thesis
      using in_step_magic [OF assms(1)] in_step_queue [OF assms(1)]
      by (auto simp: gatt_write_def on_imucfg_write_def Let_def intro!: run_update_in_step)
  qed (auto simp: gatt_write_def write_handlers Let_def session_time_sync_def intro: keep)
  then show ?thesis using assms(1) by auto
qed

lemma cmd_thread_in_step: "in_step a \<Longrightarrow> in_step (cmd_thread p a)"
  using cmd_thread_arbitrated [of a p]
  by (auto simp: in_step_def cmd_thread_def split: list.split)

lemma ccc_in_step: "in_step a \<Longrightarrow> in_step (stream_ccc_changed p v a)"
  by (simp add: stream_ccc_changed_def session_set_stream_active_def Let_def run_update_in_step in_step_magic in_step_queue)

lemma disconnect_in_step: "in_step a \<Longrightarrow> in_step (session_on_disconnect p a)"
proof -
  assume st: "in_step a"
  let ?b = "stream_enable p False (a\<lparr>stream_active := False\<rparr>)"
  let ?c = "?b\<lparr>a_dump := ble_transport_dump_abort (a_dump ?b)\<rparr>"
  have "magic (a_sh ?c) = IMU_SHARED_MAGIC" "ERASE_CMD \<notin> set (cmd_msgq ?c)"
    using in_step_magic [OF st] in_step_queue [OF st] by simp_all
  then show ?thesis by (simp add: session_on_disconnect_def Let_def run_update_in_step)
qed

lemma pump_in_step: "in_step a \<Longrightarrow> in_step (pump_thread p a)"
  by (erule in_step_block) (simp_all only: pump_sh pump_core pump_active)

lemma persist_keeps:
  "settings_get i (a_settings (persist_work p a)) = settings_get i (a_settings a)"
  "a_sh (persist_work p a) = a_sh a" "stream_active (persist_work p a) = stream_active a"
  "active (a_log (persist_work p a)) = active (a_log a)"
  "session_detached (a_log (persist_work p a)) = session_detached (a_log a)" "cmd_msgq (persist_work p a) = cmd_msgq a"
  by (simp_all add: persist_work_def persist_work_fn_def prepare_get Let_def split_beta)

lemma persist_in_step: "in_step a \<Longrightarrow> in_step (persist_work p a)"
  by (erule in_step_block) (simp_all only: persist_keeps)

lemma dump_thread_core:
  "a_settings (dump_thread p env a) = a_settings a" "a_sh (dump_thread p env a) = a_sh a"
  "stream_active (dump_thread p env a) = stream_active a" "a_log (dump_thread p env a) = a_log a"
  "cmd_msgq (dump_thread p env a) = cmd_msgq a"
  by (simp_all add: dump_thread_def Let_def split: option.split)

lemma core_step_in_step:
  assumes st: "in_step a" and "\<not> erases ev"
  shows "in_step (core_step p ev a)"
proof (cases ev)
  case (EvWrite c offset buf)
  then show ?thesis using gatt_write_in_step [OF st] assms(2) by simp
next
  case (EvConnected err)
  then show ?thesis by (auto simp: connected_def Let_def intro: in_step_keep [OF st])
next
  case EvDisconnected
  have "in_step (a\<lparr>cur_conn := False, conn_req := None\<rparr>)" by (rule in_step_keep [OF st]) simp_all
  then have "in_step (session_on_disconnect p (a\<lparr>cur_conn := False, conn_req := None\<rparr>))"
    by (rule disconnect_in_step)
  then show ?thesis unfolding EvDisconnected core_step.simps disconnected_def by (rule in_step_keep) simp_all
next
  case EvAdvRestart
  then show ?thesis using st by (auto simp: restart_advertise_def Let_def intro: in_step_keep [OF st])
next
  case EvWriter
  then show ?thesis by (auto simp: writer_thread_def split_beta writer_active intro: in_step_keep [OF st])
next
  case (EvDump env)
  then show ?thesis by (auto simp: dump_thread_core intro: in_step_keep [OF st])
qed (use st in \<open>auto simp: cmd_thread_in_step ccc_in_step pump_in_step persist_in_step split: option.split
      intro: in_step_keep [OF st]\<close>)

lemma tick_in_step: "in_step (snd s) \<Longrightarrow> in_step (snd (health_tick p s))"
proof -
  assume st: "in_step (snd s)"
  then have "in_step (snd (health_announce p s))"
    using announce_core [of p s] run_update_in_step [of "stream_set_preview p hz (snd s)" p for hz]
    by (auto simp: in_step_magic in_step_queue)
  moreover obtain m where "snd (health_tick p s) = (snd (health_announce p s))\<lparr>a_msgs := m\<rparr>"
    using tick_msgs [of p s] by blast
  ultimately show ?thesis by (auto intro: in_step_keep)
qed

lemma robot_step_in_step:
  assumes "in_step (core r)" "\<not> erases ev"
  shows "in_step (core (robot_step sp (p, ev) r))"
proof -
  have "in_step ((core r)\<lparr>a_sh := fst (flpr_loop sp (a_sh (core r), flpr r))\<rparr>)"
    using assms(1) by (rule in_step_block) (simp_all add: flpr_loop_frame)
  then show ?thesis
    using assms core_step_in_step [OF assms] tick_in_step [of "(health r, core r)" p] by (simp add: robot_step_cases)
qed

interpretation robot_in_step: step_invariant "robot_step sp" "\<lambda>r. in_step (core r)"
    "\<lambda>(p, ev). \<not> erases ev" for sp
  by unfold_locales (auto simp: robot_step_in_step)

lemma robot_run_in_step:
  "in_step (core r) \<Longrightarrow> list_all (\<lambda>(p, ev). \<not> erases ev) evs \<Longrightarrow> in_step (core (robot_run sp evs r))"
  unfolding robot_run_def by (rule robot_in_step.run_keeps)

text \<open>C13: Once the coprocessor's configuration was arbitrated, and as long as nobody erases the log, the sensor
  is asked to run exactly when a log session or a stream wants data, after any events in any order. When
  it is asked to run, the block holds the stored rates and ranges, and that is a configuration the
  sensor driver accepts.\<close>

theorem sensor_runs_iff_wanted:
  assumes "arbitrated (core r)" "ERASE_CMD \<notin> set (cmd_msgq (core r))" "app_inv (core r)"
    and "list_all (\<lambda>(p, ev). \<not> erases ev) evs"
  shows "let a' = core (robot_run sp evs r); sh = a_sh a' in
    (cfg_content sh \<noteq> 0 \<longleftrightarrow> stream_active a' \<or> imu_log_active a') \<and>
    (cfg_content sh \<noteq> 0 \<longrightarrow> cfg_valid (cfg_odr sh) (cfg_content sh) (cfg_accel_fs sh) (cfg_gyro_fs sh) \<and>
       ucast (cfg_odr sh) = settings_get SETTING_IMU_ODR_CODE (a_settings a'))"
proof -
  have "in_step (core (robot_run sp evs r))" using assms by (intro robot_run_in_step) (simp_all add: in_step_def)
  then have arb: "arbitrated (core (robot_run sp evs r))" by (rule in_step_arbitrated)
  have ok: "settings_ok (a_settings (core (robot_run sp evs r)))"
    using app_invD(1) [OF robot_run_inv [OF assms(3)]] .
  have "ucast (cfg_odr (a_sh (core (robot_run sp evs r)))) =
      settings_get SETTING_IMU_ODR_CODE (a_settings (core (robot_run sp evs r)))"
    using arb registry.imu_cfg_valid [OF ok]
    by (simp add: arbitrated_def word_unat_eq_iff word_le_nat_alt u16_small)
  then show ?thesis
    using arbitrated_cfg [OF arb ok] by (auto simp: Let_def session_imu_demand_def split: if_splits)
qed

lemma logging_app_inv: "app_inv logging_app"
proof -
  have "app_inv (blank_app\<lparr>a_log := l, stream_active := True, cur_conn := True\<rparr>)" for l
    by (simp add: app_inv_def adapt_ok_def stream_boot_def pwm_ok_def pwm_boot_def pot_boot_def)
      (simp add: blank_app_def app_boot_def led_ok_def led_boot_def)
  then show ?thesis unfolding logging_app_def by (rule run_update_inv)
qed

theorem sensor_runs_iff_wanted_witness:
  fixes r :: "(nat \<Rightarrow> u8, unit, u8 \<Rightarrow> u8) robot"
  defines "r \<equiv> booted_robot\<lparr>core := logging_app\<rparr>"
  shows "let a' = core (robot_run reg_file_bus [(quiet_platform, EvPump), (quiet_platform, EvDisconnected),
      (quiet_platform, EvWrite LOGCTL 0 [0]), (quiet_platform, EvCommand), (quiet_platform, EvFlpr)] r) in
    cfg_content (a_sh a') \<noteq> 0 \<longleftrightarrow> stream_active a' \<or> imu_log_active a'"
proof -
  have "arbitrated logging_app" unfolding logging_app_def by (rule run_update_arbitrates) (simp add: blank_shared_def)
  moreover have "cmd_msgq logging_app = []" by (simp add: logging_app_def)
  ultimately show ?thesis
    using sensor_runs_iff_wanted [of r "[(quiet_platform, EvPump), (quiet_platform, EvDisconnected),
      (quiet_platform, EvWrite LOGCTL 0 [0]), (quiet_platform, EvCommand), (quiet_platform, EvFlpr)]" reg_file_bus]
      logging_app_inv by (simp add: r_def Let_def)
qed

end
