(* ===== verification/Sensor_Reach.thy ===== *)
theory Sensor_Reach
  imports Robot_Sensor
begin

text \<open>
  From a change of demand on the application core to the registers of the sensor: the coprocessor
  notices a new configuration within a bounded number of passes, and what it then programs is what the
  application wants.
\<close>

section \<open>Noticing\<close>

text \<open>One pass after an optional interrupt.\<close>

definition flpr_pass :: "'b spi_bus \<Rightarrow> bool \<Rightarrow> imu_shared \<times> 'b flpr_st \<Rightarrow> imu_shared \<times> 'b flpr_st" where
  "flpr_pass sp irq s =
     flpr_loop sp (if irq then (fst s, (snd s)\<lparr>sensor := drdy_isr (sensor (snd s))\<rparr>) else s)"

lemma publish_cfg_frame:
  "cfg_seq (flpr_publish x n sh) = cfg_seq sh" "cfg_applied (flpr_publish x n sh) = cfg_applied sh"
  "cfg_status (flpr_publish x n sh) = cfg_status sh"
  by (simp_all add: flpr_publish_def)

lemma apply_config_applied: "cfg_applied (fst (apply_config sp s)) = cfg_seq (fst s)"
  by (simp add: apply_config_def Let_def split_beta)

lemma loop_polls:
  "cfg_seq (fst (flpr_loop sp s)) = cfg_seq (fst s) \<and>
   (cfg_applied (fst (flpr_loop sp s)) = cfg_seq (fst s) \<or>
    cfg_applied (fst (flpr_loop sp s)) = cfg_applied (fst s) \<and>
    since_cfg_poll (snd (flpr_loop sp s)) = since_cfg_poll (snd s) + 1 \<and> since_cfg_poll (snd s) + 1 < CFG_POLL_INTERVAL)"
  by (cases "CFG_POLL_INTERVAL \<le> since_cfg_poll (snd s) + 1")
    (simp_all add: flpr_loop_def Let_def split_beta publish_cfg_frame apply_config_applied apply_config_frame not_le
      split: option.split)

lemma pass_polls:
  "cfg_seq (fst (flpr_pass sp irq s)) = cfg_seq (fst s) \<and>
   (cfg_applied (fst (flpr_pass sp irq s)) = cfg_seq (fst s) \<or>
    cfg_applied (fst (flpr_pass sp irq s)) = cfg_applied (fst s) \<and>
    since_cfg_poll (snd (flpr_pass sp irq s)) = since_cfg_poll (snd s) + 1 \<and>
    since_cfg_poll (snd s) + 1 < CFG_POLL_INTERVAL)"
  using loop_polls [of sp "(fst s, (snd s)\<lparr>sensor := drdy_isr (sensor (snd s))\<rparr>)"] loop_polls [of sp s]
  by (simp add: flpr_pass_def)

lemma passes_seq: "cfg_seq (fst (fold (flpr_pass sp) irqs s)) = cfg_seq (fst s)"
  by (induction irqs arbitrary: s) (simp_all add: pass_polls)

lemma passes_keep:
  "cfg_applied (fst s) = cfg_seq (fst s) \<Longrightarrow> cfg_applied (fst (fold (flpr_pass sp) irqs s)) = cfg_seq (fst s)"
proof (induction irqs arbitrary: s)
  case (Cons irq irqs)
  have "cfg_applied (fst (flpr_pass sp irq s)) = cfg_seq (fst (flpr_pass sp irq s))"
    using pass_polls [of sp irq s] Cons.prems by metis
  from Cons.IH [OF this] show ?case by (simp add: pass_polls)
qed simp

lemma passes_poll:
  assumes "since_cfg_poll (snd s) < CFG_POLL_INTERVAL"
  shows "cfg_applied (fst (fold (flpr_pass sp) irqs s)) = cfg_seq (fst s) \<or>
     unat (since_cfg_poll (snd (fold (flpr_pass sp) irqs s))) = unat (since_cfg_poll (snd s)) + length irqs \<and>
     since_cfg_poll (snd (fold (flpr_pass sp) irqs s)) < CFG_POLL_INTERVAL"
  using assms
proof (induction irqs arbitrary: s)
  case (Cons irq irqs)
  let ?s = "flpr_pass sp irq s"
  note p = pass_polls [of sp irq s]
  show ?case
  proof (cases "cfg_applied (fst ?s) = cfg_seq (fst s)")
    case True
    then show ?thesis using passes_keep [of ?s sp irqs] p by simp
  next
    case False
    then have since: "since_cfg_poll (snd ?s) = since_cfg_poll (snd s) + 1" "since_cfg_poll (snd s) + 1 < CFG_POLL_INTERVAL"
      using p by auto
    have "unat (since_cfg_poll (snd s) + 1) = unat (since_cfg_poll (snd s)) + 1"
      using Cons.prems unat_add_nowrap [of "since_cfg_poll (snd s)" 1] by (simp add: word_less_nat_alt)
    then show ?thesis using Cons.IH [of ?s] since p by auto
  qed
qed simp

text \<open>C24: The coprocessor notices every change of configuration. However the data-ready interrupts fall, even
  when one precedes every pass so that the wait never times out, at most CFG_POLL_INTERVAL passes of
  the loop later the configuration published before them is the one acknowledged.\<close>

theorem config_picked_up:
  assumes "since_cfg_poll st < CFG_POLL_INTERVAL" "length irqs \<ge> 32"
  shows "cfg_applied (fst (fold (flpr_pass sp) irqs (sh, st))) = cfg_seq sh"
proof -
  have "unat (since_cfg_poll (snd (fold (flpr_pass sp) irqs (sh, st)))) < 32"
    if "since_cfg_poll (snd (fold (flpr_pass sp) irqs (sh, st))) < CFG_POLL_INTERVAL"
    using that by (simp add: word_less_nat_alt)
  then show ?thesis using passes_poll [of "(sh, st)" sp irqs] assms by auto
qed

theorem config_picked_up_witness:
  fixes st :: "(u8 \<Rightarrow> u8) flpr_st"
  defines "st \<equiv> \<lparr>sensor = sensor_boot (\<lambda>_. 0), sampled = 0, since_cfg_poll = 31\<rparr>"
  shows "cfg_applied (fst (fold (flpr_pass reg_file_bus) (replicate 32 True) (blank_shared\<lparr>cfg_seq := 9\<rparr>, st))) = 9"
  using config_picked_up [of st "replicate 32 True" reg_file_bus "blank_shared\<lparr>cfg_seq := 9\<rparr>"] by (simp add: st_def)

section \<open>Programming\<close>

lemma content_some:
  assumes "cfg_valid odr c afs gfs" "c \<noteq> 0"
  shows "accel_on c \<or> gyro_on c"
proof (rule ccontr)
  let ?m = "IMU_CONTENT_ACCEL OR IMU_CONTENT_GYRO"
  assume "\<not> (accel_on c \<or> gyro_on c)"
  then have "c AND ?m = 0" by (simp only: accel_on_def gyro_on_def bit.conj_disj_distrib) simp
  moreover have "c AND NOT ?m = 0" using assms(1) by (simp add: cfg_valid_def)
  moreover have "c = (c AND ?m) OR (c AND NOT ?m)" by (simp only: bit.conj_disj_distrib [symmetric]) simp
  ultimately show False using assms(2) by simp
qed

text \<open>A pass in which the coprocessor looks at the configuration.\<close>

definition polls :: "'b flpr_st \<Rightarrow> bool" where
  "polls st \<longleftrightarrow> \<not> drdy_sem (sensor st) \<or> since_cfg_poll st + 1 \<ge> CFG_POLL_INTERVAL"

lemma publish_fields:
  "runs_published reg sn (flpr_publish x n sh) = runs_published reg sn sh"
  by (simp add: runs_published_def publish_frame)

lemma apply_config_programs:
  assumes "spi_laws sp reg" "cfg_seq (fst s) \<noteq> cfg_applied (fst s)" "cfg_status (fst (apply_config sp s)) = 0"
  shows "runs_published reg (snd (apply_config sp s)) (fst (apply_config sp s))"
proof -
  obtain ret sn where c: "drv_asm330lhh_configure sp (cfg_odr (fst s)) (cfg_content (fst s)) (cfg_accel_fs (fst s))
      (cfg_gyro_fs (fst s)) (snd s) = (ret, sn)" by force
  have a: "apply_config sp s = ((fst s)\<lparr>cfg_status := ret, cfg_applied := cfg_seq (fst s)\<rparr>, sn)"
    using assms(2) c by (simp add: apply_config_def Let_def split_beta)
  then show ?thesis using configure_effect [OF assms(1) c] assms(3) by (simp add: runs_published_def)
qed

lemma loop_programs:
  assumes laws: "spi_laws sp reg" and "cfg_seq sh \<noteq> cfg_applied sh" "polls st"
    and run: "flpr_loop sp (sh, st) = (sh', st')" and "cfg_status sh' = 0"
  shows "runs_published reg (sensor st') sh'"
proof (cases "drdy_sem (sensor st)")
  case False
  then have "flpr_loop sp (sh, st) = (fst (apply_config sp (sh, sensor st)), st\<lparr>sensor := snd (apply_config sp (sh, sensor st))\<rparr>)"
    by (simp add: flpr_loop_def drv_asm330lhh_wait_data_def split_beta)
  then show ?thesis using apply_config_programs [OF laws, of "(sh, sensor st)"] assms(2,5) run by auto
next
  case True
  let ?sn = "(sensor st)\<lparr>drdy_sem := False\<rparr>"
  obtain sh1 sn1 where ap: "apply_config sp (sh, ?sn) = (sh1, sn1)" by force
  obtain rr d sn2 where rd: "drv_asm330lhh_read sp sn1 = (rr, d, sn2)" by (metis prod_cases3)
  have "CFG_POLL_INTERVAL \<le> since_cfg_poll st + 1" using assms(3) True by (simp add: polls_def)
  then have eq: "sensor st' = sn2" "sh' = sh1 \<or> (\<exists>x n. sh' = flpr_publish x n sh1)"
    using run True ap rd
    by (auto simp: flpr_loop_def drv_asm330lhh_wait_data_def Let_def split: option.splits)
  have "cfg_status sh1 = 0" using eq(2) assms(5) by (auto simp: publish_cfg_frame)
  then have "runs_published reg sn1 sh1"
    using apply_config_programs [OF laws, of "(sh, ?sn)"] assms(2) ap by simp
  then show ?thesis
    using eq sensor_read_law [OF laws rd]
    by (auto simp: runs_published_def publish_frame programmed_def)
qed


text \<open>An idle robot with its coprocessor booted, one subscription away from sampling.\<close>

definition idle_robot :: "(nat \<Rightarrow> u8, unit, u8 \<Rightarrow> u8) robot" where
  "idle_robot = booted_robot\<lparr>core := session_imu_run_update quiet_platform blank_app,
     flpr := \<lparr>sensor = sensor_boot (\<lambda>_. 0), sampled = 0, since_cfg_poll = 0\<rparr>\<rparr>"

lemma blank_app_inv: "app_inv blank_app"
  by (simp add: app_inv_def adapt_ok_def stream_boot_def pwm_ok_def pwm_boot_def pot_boot_def)
    (simp add: blank_app_def app_boot_def led_ok_def led_boot_def)


end
