(* ===== verification/Policy_Gaps.thy ===== *)
theory Policy_Gaps
  imports Robot_Sensor
begin

text \<open>
  Two places where the run-state policy of \<open>src/app/device_cmd.c\<close> does not do what \<open>session.c\<close> means it
  to: an erase of a running session, and a disconnect in the middle of a detached start.
\<close>

section \<open>Erasing a running session\<close>

lemma erase_frame:
  "a_sh (exec_log p DEVICE_LOG_OP_ERASE a) = a_sh a" "stream_active (exec_log p DEVICE_LOG_OP_ERASE a) = stream_active a"
  "conn_req (exec_log p DEVICE_LOG_OP_ERASE a) = conn_req a" "\<not> active (a_log (exec_log p DEVICE_LOG_OP_ERASE a))"
  using erase_inactive [of "pf_flash p" "pf_version p" "pf_sleep p" "(a_log a, a_msgs a)"]
  by (simp_all add: exec_log_def split_beta)

text \<open>C33: Erasing the log while a session runs stops the session but not the sensor. \<open>execute\<close> does not tell the
  arbiter, so the configuration that powers the sensor stays published although nobody wants data, and
  the wide connection interval stays requested; a STOP of the same session would have undone both.\<close>

theorem erase_leaves_sensor_on:
  assumes "arbitrated a" "settings_ok (a_settings a)" "active (a_log a)" "\<not> stream_active a" "cur_conn a"
  shows "let e = exec_log p DEVICE_LOG_OP_ERASE a; s = exec_log p DEVICE_LOG_OP_STOP a in
    \<not> session_imu_demand e \<and> cfg_content (a_sh e) \<noteq> 0 \<and> cfg_content (a_sh e) = cfg_content (a_sh a) \<and>
    conn_req e = conn_req a \<and>
    \<not> session_imu_demand s \<and> cfg_content (a_sh s) = 0 \<and> conn_req s = Some (6, 12, 0, 400)"
proof -
  have "cfg_content (a_sh a) \<noteq> 0"
    using arbitrated_cfg [OF assms(1,2)] assms(3) by (simp add: session_imu_demand_def imu_log_active_def)
  moreover have "\<not> session_imu_demand (exec_log p DEVICE_LOG_OP_ERASE a)"
    using assms(4) erase_frame [of p a] by (simp add: session_imu_demand_def imu_log_active_def)
  moreover have s: "exec_log p DEVICE_LOG_OP_STOP a = session_imu_run_update p (ble_conn_request_params False (log_stop p a))"
    by (simp add: exec_log_def session_on_log_stopped_def)
  have "arbitrated (exec_log p DEVICE_LOG_OP_STOP a)"
    by (rule exec_log_arbitrated [OF assms(1)]) simp
  moreover have "\<not> session_imu_demand (exec_log p DEVICE_LOG_OP_STOP a)"
    using assms(4) by (simp add: s session_imu_demand_def imu_log_active_def)
  moreover have "conn_req (exec_log p DEVICE_LOG_OP_STOP a) = Some (6, 12, 0, 400)"
    using assms(5) by (simp add: s) (simp add: ble_conn_request_params_def)
  ultimately show ?thesis by (simp add: Let_def erase_frame arbitrated_def)
qed

definition recording_app :: "(nat \<Rightarrow> u8, unit) app_st" where
  "recording_app = session_imu_run_update quiet_platform
     (blank_app\<lparr>a_log := (log_boot (\<lambda>_. 0xFF))\<lparr>active := True\<rparr>, cur_conn := True\<rparr>)"

theorem erase_leaves_sensor_on_witness:
  "\<not> session_imu_demand (exec_log quiet_platform DEVICE_LOG_OP_ERASE recording_app) \<and>
   cfg_content (a_sh (exec_log quiet_platform DEVICE_LOG_OP_ERASE recording_app)) \<noteq> 0"
proof -
  have "arbitrated recording_app"
    unfolding recording_app_def by (rule run_update_arbitrates) (simp add: blank_shared_def)
  moreover have "settings_ok (a_settings recording_app)" "active (a_log recording_app)"
    "\<not> stream_active recording_app" "cur_conn recording_app" by (simp_all add: recording_app_def)
  ultimately show ?thesis
    using erase_leaves_sensor_on [of recording_app quiet_platform] unfolding Let_def by blast
qed

section \<open>A disconnect in the middle of a detached start\<close>

text \<open>
  The executor of START_DETACHED has opened the session and is preempted by the disconnect callback
  before it marks the session detached. The session is closed as an ordinary one, the mark is set
  afterwards on a log without a session, nothing clears it, and the next plain session is detached: a
  disconnect no longer closes it.
\<close>

theorem detached_mark_outlives_session:
  assumes "log_start p a = (0, a1)" "\<not> session_detached (a_log a)"
    and "a2 = disconnected p1 a1"
    and "a3 = session_on_log_started p (a2\<lparr>a_log := imu_log_mark_detached (a_log a2)\<rparr>)"
    and "log_start p2 a3 = (0, a4)"
  shows "\<not> active (a_log a2)" "imu_log_detached (a_log a4)" "active (a_log (disconnected p3 a4))"
proof -
  have d1: "\<not> imu_log_detached (a_log a1)"
    using assms(1,2) by (auto simp: log_start_def imu_log_start_def Let_def split_beta imu_log_detached_def split: if_splits)
  then show "\<not> active (a_log a2)"
    by (simp add: assms(3) disconnected_def session_on_disconnect_def Let_def)
  have "session_detached (a_log a3)" by (simp add: assms(4) session_on_log_started_def imu_log_mark_detached_def)
  then show d4: "imu_log_detached (a_log a4)"
    using assms(5) by (auto simp: log_start_def imu_log_start_def Let_def split_beta imu_log_detached_def split: if_splits)
  then show "active (a_log (disconnected p3 a4))"
    by (simp add: disconnected_def session_on_disconnect_def Let_def imu_log_detached_def)
qed

end
