(* ===== verification/Settings_Refine.thy ===== *)
theory Settings_Refine
  imports Settings_Store
begin

text \<open>
  What the settings store promises, as a small abstract machine, and the proof that
  \<open>src/settings/settings_store.c\<close>, with its two generation-stamped flash slots, implements it.
\<close>

section \<open>The promise\<close>

text \<open>The values the program sees and the values a reboot would bring back.\<close>

record settings_spec =
  current :: "u8 \<Rightarrow> u16"
  durable :: "u8 \<Rightarrow> u16"

datatype settings_op = OpSet u8 u16 | OpPersist | OpReboot

fun spec_step :: "settings_op \<Rightarrow> settings_spec \<Rightarrow> settings_spec" where
  "spec_step (OpSet i v) s =
     (case meta_for i of
        None \<Rightarrow> s
      | Some m \<Rightarrow> s\<lparr>current := (current s)(i := clamp v (sm_min m) (sm_max m))\<rparr>)"
| "spec_step OpPersist s = s\<lparr>durable := current s\<rparr>"
| "spec_step OpReboot s = s\<lparr>current := durable s\<rparr>"

section \<open>The code\<close>

text \<open>The state is the RAM copy and the flash; a reboot starts from the initial values of the variables.\<close>

fun code_step ::
  "(u8 list \<Rightarrow> u32) \<Rightarrow> 'f flash_dev \<Rightarrow> settings_op \<Rightarrow> settings_st \<times> 'f \<Rightarrow> settings_st \<times> 'f" where
  "code_step crc32 fd (OpSet i v) s = (settings_set i v (fst s), snd s)"
| "code_step crc32 fd OpPersist s = persist_work_fn crc32 fd s"
| "code_step crc32 fd OpReboot s = (settings_store_init crc32 fd (snd s) settings_boot, snd s)"

definition settings_abs :: "(u8 list \<Rightarrow> u32) \<Rightarrow> 'f flash_dev \<Rightarrow> settings_st \<times> 'f \<Rightarrow> settings_spec" where
  "settings_abs crc32 fd s =
     \<lparr>current = (\<lambda>i. settings_get i (fst s)),
      durable = (\<lambda>i. settings_get i (settings_store_init crc32 fd (snd s) settings_boot))\<rparr>"

text \<open>No slot is newer than the RAM copy, and \<open>n\<close> persists are still possible before the generation
  counter reaches its last value.\<close>

definition store_inv :: "(u8 list \<Rightarrow> u32) \<Rightarrow> 'f flash_dev \<Rightarrow> nat \<Rightarrow> settings_st \<times> 'f \<Rightarrow> bool" where
  "store_inv crc32 fd n s \<longleftrightarrow> settings_ok (fst s) \<and> st_magic (rec (fst s)) = STORE_MAGIC \<and>
     newest crc32 fd (snd s) (generation (rec (fst s))) \<and> unat (generation (rec (fst s))) + n < 2 ^ 32 - 1"

section \<open>The steps\<close>

lemma set_frame:
  "st_magic (rec (settings_set i v st)) = st_magic (rec st)" "generation (rec (settings_set i v st)) = generation (rec st)"
  by (simp_all add: settings_set_def Let_def split: option.split)

lemma set_current:
  assumes "settings_ok st"
  shows "settings_get j (settings_set i v st) =
    (case meta_for i of None \<Rightarrow> settings_get j st
     | Some m \<Rightarrow> if j = i then clamp v (sm_min m) (sm_max m) else settings_get j st)"
proof (cases "meta_for i")
  case None
  then show ?thesis by (simp add: settings_set_def)
next
  case (Some m)
  then show ?thesis using registry.get_put [OF assms Some] registry.get_put_other [of i j] by simp
qed

text \<open>A boot takes the newest slot that checks out, or starts from the defaults.\<close>

lemma init_newest:
  assumes "fd_ready fd" "newest crc32 fd f g"
  shows "st_magic (rec (settings_store_init crc32 fd f settings_boot)) = STORE_MAGIC \<and>
    newest crc32 fd f (generation (rec (settings_store_init crc32 fd f settings_boot))) \<and>
    generation (rec (settings_store_init crc32 fd f settings_boot)) \<le> g"
proof -
  have magic: "st_magic r = STORE_MAGIC" if "read_slot crc32 fd f i = Some r" for i r
    using that by (auto simp: read_slot_def Let_def split: prod.splits if_splits)
  show ?thesis
  proof (cases "read_slot crc32 fd f 0")
    case 0: None
    show ?thesis
    proof (cases "read_slot crc32 fd f 1")
      case None
      then show ?thesis using assms 0 by (simp add: settings_store_init_def newest_def load_defaults_def)
    next
      case (Some b)
      then show ?thesis using assms 0 magic [OF Some] by (simp add: settings_store_init_def newest_def)
    qed
  next
    case a: (Some a)
    show ?thesis
    proof (cases "read_slot crc32 fd f 1")
      case None
      then show ?thesis using assms a magic [OF a] by (simp add: settings_store_init_def newest_def)
    next
      case b: (Some b)
      show ?thesis using assms a b magic [OF a] magic [OF b]
        by (cases "generation b \<le> generation a") (simp_all add: settings_store_init_def newest_def)
    qed
  qed
qed

lemma step_refines:
  assumes laws: "flash_laws fd img" "flash_readable fd 0x164000 0x165000"
      "flash_writable fd 0x164000 0x165000" "fd_ready fd"
    and inv: "store_inv crc32 fd (Suc n) s"
  shows "store_inv crc32 fd n (code_step crc32 fd opr s) \<and>
    settings_abs crc32 fd (code_step crc32 fd opr s) = spec_step opr (settings_abs crc32 fd s)"
proof (cases opr)
  case (OpSet i v)
  then show ?thesis
    using inv set_current [of "fst s"]
    by (auto simp: store_inv_def settings_abs_def set_frame settings_set_ok fun_eq_iff split: option.split)
next
  case OpPersist
  obtain st f where s: "s = (st, f)" by force
  obtain st' f' where run: "persist_work_fn crc32 fd (st, f) = (st', f')" by force
  then have st': "st' = persist_prepare crc32 st" by (simp add: persist_work_fn_def Let_def)
  have sto: "storable st" "newest crc32 fd f (generation (rec st))"
    using inv by (simp_all add: storable_def store_inv_def s word_less_nat_alt)
  note p = settings_persist_reboot [OF laws sto run]
  note pr = prepared [OF sto(1), of crc32]
  have "unat (generation (rec st')) = unat (generation (rec st)) + 1"
    using inv unat_add_nowrap [of "generation (rec st)" 1] by (simp add: st' pr(5) store_inv_def s)
  then show ?thesis
    using p pr inv by (simp add: OpPersist s run store_inv_def settings_abs_def fun_eq_iff st' prepare_get)
next
  case OpReboot
  note i = init_newest [OF laws(4), of crc32 "snd s" "generation (rec (fst s))"]
  show ?thesis
    using inv i by (simp add: OpReboot store_inv_def settings_abs_def settings_init_ok word_le_nat_alt)
qed

text \<open>C7: The settings store implements its promise. From any state in which no flash slot is newer than the
  RAM copy, and for any sequence of changes, completed persists and reboots, what the program reads and
  what a reboot would bring back are what the abstract machine has: a change is visible at once, clamped
  to its range, it survives a reboot exactly when a persist came after it, and a reboot falls back to
  the last persist. The bound is the 32-bit generation counter.\<close>

theorem settings_refine_spec:
  assumes laws: "flash_laws fd img" "flash_readable fd 0x164000 0x165000"
      "flash_writable fd 0x164000 0x165000" "fd_ready fd"
    and inv: "store_inv crc32 fd (length ops) s"
  shows "settings_abs crc32 fd (fold (code_step crc32 fd) ops s) = fold spec_step ops (settings_abs crc32 fd s)"
  using inv
proof (induction ops arbitrary: s)
  case (Cons opr ops)
  then show ?case using step_refines [OF laws, of crc32 "length ops" s opr] by simp
qed simp

theorem settings_refine_spec_witness:
  "settings_get SETTING_ROBOT_ID (fst (fold (code_step (\<lambda>_. 0) ram_flash)
     [OpSet SETTING_ROBOT_ID 3, OpPersist, OpSet SETTING_ROBOT_ID 900, OpReboot] (fresh, \<lambda>_. 0))) = 3"
proof -
  let ?ops = "[OpSet SETTING_ROBOT_ID 3, OpPersist, OpSet SETTING_ROBOT_ID 900, OpReboot]"
  have "settings_ok fresh" by (simp add: fresh_def settings_init_ok)
  then have "store_inv (\<lambda>_. 0) ram_flash (length ?ops) (fresh, \<lambda>_. 0)"
    by (simp add: store_inv_def newest_def blank_slots) (simp add: fresh_eq)
  from settings_refine_spec [OF ram_flash_laws ram_flash_readable ram_flash_writable ram_flash_ready this]
  have "current (settings_abs (\<lambda>_. 0) ram_flash (fold (code_step (\<lambda>_. 0) ram_flash) ?ops (fresh, \<lambda>_. 0))) SETTING_ROBOT_ID =
      current (fold spec_step ?ops (settings_abs (\<lambda>_. 0) ram_flash (fresh, \<lambda>_. 0))) SETTING_ROBOT_ID"
    by (rule arg_cong)
  then show ?thesis by (simp add: settings_abs_def meta_for_def settings_table_def clamp_def)
qed

end
