(* ===== verification/Live_Stream.thy ===== *)
theory Live_Stream
  imports Host_Protocol
begin

text \<open>
  A pass of the TX thread of \<open>src/ble/ble_transport.c\<close> as a whole, message lines first and then stream
  packets, and what the host makes of it. The pump, which may stage more samples at any time, is seen
  between two passes.
\<close>

section \<open>The pass\<close>

text \<open>What the thread meets at its \<open>i\<close>-th send: the credits when its wait ends, the answers of the stack to
  each try, the time when it looks at the FIFO and the time after the send.\<close>

record tx_env =
  tx_waited :: "nat \<Rightarrow> nat"
  tx_resp :: "nat \<Rightarrow> nat \<Rightarrow> int"
  tx_now :: "nat \<Rightarrow> int"
  tx_after :: "nat \<Rightarrow> int"

definition tx_sends :: "tx_env \<Rightarrow> nat \<Rightarrow> bool" where
  "tx_sends env i = fst (tx_notify (tx_resp env i) (tx_waited env i))"

text \<open>The lines and the packets come back with the flag whether the stack took them. The message loop ends
  because nothing is queued meanwhile; the packet loop has fuel.\<close>

function tx_messages :: "tx_env \<Rightarrow> nat \<Rightarrow> msg_st \<Rightarrow> (bool \<times> string) list \<times> msg_st" where
  "tx_messages env i m =
     (case tx_message m of
        None \<Rightarrow> ([], m)
      | Some (line, m1) \<Rightarrow> let (ls, m2) = tx_messages env (Suc i) m1 in ((tx_sends env i, line) # ls, m2))"
  by pat_completeness auto
termination
proof (relation "measure (\<lambda>(env, i, m). unat (msgq_head m - msgq_tail m))", goal_cases)
  case (2 env i m sent line m1)
  then have "msgq_tail m \<noteq> msgq_head m" "m1 = m\<lparr>msgq_tail := msgq_tail m + 1\<rparr>"
    by (auto simp: tx_message_def split: if_splits)
  moreover have "unat (d - 1) < unat d" if "d \<noteq> 0" for d :: u32
    using that by (metis unat_gt_0 unat_minus_one diff_less zero_less_one)
  ultimately show ?case by (simp add: diff_diff_eq [symmetric])
qed simp

declare tx_messages.simps [simp del]

fun tx_packets :: "nat \<Rightarrow> tx_env \<Rightarrow> nat \<Rightarrow> stream_st \<Rightarrow> ((bool \<times> u8 list) list \<times> stream_st) option" where
  "tx_packets 0 env i st = None"
| "tx_packets (Suc k) env i st =
     (case tx_build (tx_now env i) st of
        None \<Rightarrow> Some ([], st)
      | Some (n, pkt) \<Rightarrow>
          let sent = tx_sends env i
          in map_option (\<lambda>(ps, s). ((sent, pkt) # ps, s))
               (tx_packets k env (Suc i) (tx_done (tx_after env i) sent n st)))"

text \<open>A full FIFO is 256 samples and every packet takes at least one.\<close>

definition tx_pass ::
  "tx_env \<Rightarrow> msg_st \<times> stream_st \<Rightarrow> ((bool \<times> string) list \<times> (bool \<times> u8 list) list \<times> msg_st \<times> stream_st) option" where
  "tx_pass env s =
     (let (ls, m) = tx_messages env 0 (fst s)
      in map_option (\<lambda>(ps, st). (ls, ps, m, st)) (tx_packets (SFIFO_N + 1) env (length ls) (snd s)))"

lemma tx_message_line:
  assumes "msgq_lines m = line # ls"
  shows "tx_message m = Some (line, m\<lparr>msgq_tail := msgq_tail m + 1\<rparr>)"
    and "msgq_lines (m\<lparr>msgq_tail := msgq_tail m + 1\<rparr>) = ls"
proof -
  have fill: "1 \<le> unat (msgq_head m - msgq_tail m)"
    using arg_cong [OF assms, of length] by (simp add: msgq_lines_def msgs.length_contents)
  show "msgq_lines (m\<lparr>msgq_tail := msgq_tail m + 1\<rparr>) = ls"
    using msgs.contents_pop [OF fill, of "msgq m"] assms by (simp add: msgq_lines_def)
  have "msgq m ! msgq_idx (msgq_tail m) = line"
    using msgs.contents_peek [OF fill, of "msgq m"] assms by (simp add: msgq_lines_def)
  moreover have "msgq_tail m \<noteq> msgq_head m" using fill by auto
  ultimately show "tx_message m = Some (line, m\<lparr>msgq_tail := msgq_tail m + 1\<rparr>)"
    by (simp add: tx_message_def)
qed

lemma messages_sent_in_order:
  "map snd (fst (tx_messages env i m)) = msgq_lines m \<and> msgq_lines (snd (tx_messages env i m)) = []"
proof (induction "msgq_lines m" arbitrary: i m)
  case Nil
  then have "unat (msgq_head m - msgq_tail m) = 0"
    using msgs.length_contents [of "msgq_head m" "msgq_tail m" "msgq m"] by (simp add: msgq_lines_def)
  then have "tx_message m = None" by (simp add: tx_message_def unat_eq_0)
  with Nil show ?case by (simp add: tx_messages.simps [of env i m])
next
  case (Cons line ls)
  note l = tx_message_line [OF Cons.hyps(2) [symmetric]]
  show ?case
    using Cons.hyps(1) [OF l(2) [symmetric], of "Suc i"] Cons.hyps(2)
    by (auto simp: tx_messages.simps [of env i m] l Let_def case_prod_unfold)
qed

section \<open>What arrives\<close>

text \<open>The samples the host finds in a packet.\<close>

definition host_stream :: "u8 list \<Rightarrow> (int list \<times> int) list" where
  "host_stream pkt = (case decode_stream_packet pkt of None \<Rightarrow> [] | Some d \<Rightarrow> unpack_records (sp_samples d))"

lemma host_stream_packet:
  assumes "unat n = length xs"
  shows "host_stream (stream_packet n xs st) = map host_sample xs"
proof -
  have "length (concat (map enc_sample xs)) = 16 * length xs" by (simp add: length_concat_const)
  moreover have "drop 8 (stream_packet n xs st) = concat (map enc_sample xs)"
    by (simp add: stream_packet_def le32_def)
  moreover have "nat (py_u8 (stream_packet n xs st) 0) = length xs"
    using assms by (simp add: py_u8_def stream_packet_def nat_uint_eq)
  moreover have "\<not> length (stream_packet n xs st) < 8" by (simp add: stream_packet_def le32_def)
  ultimately show ?thesis by (simp add: host_stream_def decode_stream_packet_def unpack_enc mult.commute)
qed

lemma build_None: "stream_max st = STREAM_MAX_SAMPLES \<Longrightarrow> tx_build now st = None \<Longrightarrow> length (stream_queue st) < 14"
  by (auto simp: tx_build_def Let_def length_stream_queue word_less_nat_alt split: if_splits)

definition lost :: "(bool \<times> u8 list) list \<Rightarrow> (int list \<times> int) list" where
  "lost ps = concat (map (\<lambda>(sent, pkt). if sent then [] else host_stream pkt) ps)"

lemma packets_reach_host:
  assumes "fifo_ok st" "stream_max st = STREAM_MAX_SAMPLES" "length (stream_queue st) < k"
  shows "\<exists>ps st'. tx_packets k env i st = Some (ps, st') \<and>
    concat (map (\<lambda>(sent, pkt). host_stream pkt) ps) @ map host_sample (stream_queue st') = map host_sample (stream_queue st) \<and>
    length (stream_queue st') < 14 \<and> list_all (\<lambda>(sent, pkt). length pkt \<le> 232) ps \<and>
    stream_dropped st' = stream_dropped st + of_nat (length (lost ps)) \<and> fifo_ok st'"
  using assms
proof (induction k arbitrary: i st)
  case (Suc k)
  show ?case
  proof (cases "tx_build (tx_now env i) st")
    case None
    then show ?thesis using Suc.prems build_None [OF Suc.prems(2) None] by (simp add: lost_def)
  next
    case (Some np)
    obtain n pkt where np: "np = (n, pkt)" by force
    note b = tx_build_takes [OF Suc.prems(2) Some [unfolded np]]
    let ?xs = "take (unat n) (stream_queue st)"
    let ?st = "tx_done (tx_after env i) (tx_sends env i) n st"
    have "unat (1 :: u8) \<le> unat n" using b(1) by (simp only: atLeastAtMost_iff word_le_nat_alt)
    then have nle: "unat n \<le> length (stream_queue st)" "0 < unat n" using b(2) by auto
    note d = tx_done_drops [OF Suc.prems(1) nle(1), of "tx_after env i" "tx_sends env i"]
    have host: "host_stream pkt = map host_sample ?xs" using nle by (simp add: b(3) host_stream_packet)
    have max: "stream_max ?st = STREAM_MAX_SAMPLES" using Suc.prems(2) by (simp add: tx_done_def)
    have short: "length (stream_queue ?st) < k" using Suc.prems(3) nle by (simp add: d(1))
    obtain ps st' where ih: "tx_packets k env (Suc i) ?st = Some (ps, st')"
      "concat (map (\<lambda>(sent, pkt). host_stream pkt) ps) @ map host_sample (stream_queue st') = map host_sample (stream_queue ?st)"
      "length (stream_queue st') < 14" "list_all (\<lambda>(sent, pkt). length pkt \<le> 232) ps"
      "stream_dropped st' = stream_dropped ?st + of_nat (length (lost ps))" "fifo_ok st'"
      using Suc.IH [OF d(2) max short] by blast
    have "map host_sample ?xs @ map host_sample (stream_queue ?st) = map host_sample (stream_queue st)"
      by (simp only: d(1) map_append [symmetric] append_take_drop_id)
    moreover have "length pkt \<le> 232"
      using b(2) nle by (simp add: b(3) stream_packet_def le32_def length_concat_const)
    moreover have "stream_dropped ?st = stream_dropped st + of_nat (length (if tx_sends env i then [] else host_stream pkt))"
      using nle by (simp add: tx_done_def host word_unat_eq_iff min_absorb2)
    ultimately show ?thesis
      using Some np ih host
      by (intro exI [of _ "(tx_sends env i, pkt) # ps"] exI [of _ st']) (simp add: Let_def lost_def add.assoc)
  qed
qed simp



end
