(* ===== verification/Host_Requests.thy ===== *)
theory Host_Requests
  imports Host_Protocol
begin

text \<open>
  From a request of the host to its effect on the robot: the methods of the GUI
  (\<open>scripts/caterpillar_gui.py\<close>) encode a request with \<open>scripts/protocol.py\<close> and write it to a
  characteristic, the firmware finds the handler by the UUID (\<open>src/ble/ble_uuids.h\<close> and the service
  table of \<open>src/ble/ble_interface.c\<close>). The two sides name the UUIDs and the limits independently.
\<close>

section \<open>The characteristics\<close>

instantiation chrc :: enum
begin

definition "enum_chrc = [FREQ, VOLT, VDCMEAS, RAIL, DRV, STATUS, TPUT, IMUCFG, STREAM, LOGCTL, DUMP, MSG, LED, TIME,
  DIR, T2LOG, ROBOTID]"

definition "enum_all_chrc P \<longleftrightarrow> list_all P (enum_class.enum :: chrc list)"

definition "enum_ex_chrc P \<longleftrightarrow> list_ex P (enum_class.enum :: chrc list)"

instance
proof
  show univ: "UNIV = set (enum_class.enum :: chrc list)"
    by (auto simp: enum_chrc_def intro: chrc.exhaust)
  show "distinct (enum_class.enum :: chrc list)" by (simp add: enum_chrc_def)
  show "enum_class.enum_all P \<longleftrightarrow> Ball UNIV P" for P :: "chrc \<Rightarrow> bool"
    by (simp add: enum_all_chrc_def univ list_all_iff)
  show "enum_class.enum_ex P \<longleftrightarrow> Bex UNIV P" for P :: "chrc \<Rightarrow> bool"
    by (simp add: enum_ex_chrc_def univ list_ex_iff)
qed

end

fun chrc_uuid :: "chrc \<Rightarrow> u16" where
  "chrc_uuid FREQ = 0xFFE1"
| "chrc_uuid VOLT = 0xFFE2"
| "chrc_uuid VDCMEAS = 0xFFE3"
| "chrc_uuid RAIL = 0xFFE4"
| "chrc_uuid DRV = 0xFFE5"
| "chrc_uuid STATUS = 0xFFE6"
| "chrc_uuid TPUT = 0xFFE7"
| "chrc_uuid IMUCFG = 0xFFE8"
| "chrc_uuid STREAM = 0xFFE9"
| "chrc_uuid LOGCTL = 0xFFEA"
| "chrc_uuid DUMP = 0xFFEB"
| "chrc_uuid MSG = 0xFFEC"
| "chrc_uuid LED = 0xFFED"
| "chrc_uuid TIME = 0xFFEE"
| "chrc_uuid DIR = 0xFFEF"
| "chrc_uuid T2LOG = 0xFFF0"
| "chrc_uuid ROBOTID = 0xFFF1"

definition chrc_of_uuid :: "u16 \<Rightarrow> chrc option" where
  "chrc_of_uuid u = List.find (\<lambda>c. chrc_uuid c = u) enum_class.enum"

lemma chrc_of_uuid_uuid [simp]: "chrc_of_uuid (chrc_uuid c) = Some c"
  by (cases c) (simp_all add: chrc_of_uuid_def enum_chrc_def)

section \<open>What the host writes\<close>

text \<open>The 16-bit parts of the UUIDs in \<open>scripts/protocol.py\<close>; a write is a UUID and the bytes.\<close>

type_synonym host_write = "u16 \<times> u8 list"

abbreviation UUID_FREQ :: u16 where "UUID_FREQ \<equiv> 0xFFE1"
abbreviation UUID_VOLT :: u16 where "UUID_VOLT \<equiv> 0xFFE2"
abbreviation UUID_RAIL :: u16 where "UUID_RAIL \<equiv> 0xFFE4"
abbreviation UUID_DRV :: u16 where "UUID_DRV \<equiv> 0xFFE5"
abbreviation UUID_IMU_CFG :: u16 where "UUID_IMU_CFG \<equiv> 0xFFE8"
abbreviation UUID_LOG_CTL :: u16 where "UUID_LOG_CTL \<equiv> 0xFFEA"
abbreviation UUID_DUMP :: u16 where "UUID_DUMP \<equiv> 0xFFEB"
abbreviation UUID_LED :: u16 where "UUID_LED \<equiv> 0xFFED"
abbreviation UUID_TIME :: u16 where "UUID_TIME \<equiv> 0xFFEE"
abbreviation UUID_ROBOT_ID :: u16 where "UUID_ROBOT_ID \<equiv> 0xFFF1"

datatype host_request =
    SetFreq int
  | SetVolt int
  | SetRail bool
  | SetDrv bool
  | SetLed bool
  | SetRobotId int
  | SetTime int
  | SetImuCfg int int int int int
  | LogCmd int int
  | Dump int int int

text \<open>\<open>None\<close> when the encoder raises; nothing is written then.\<close>

fun host_write :: "host_request \<Rightarrow> host_write option" where
  "host_write (SetFreq hz) = map_option (Pair UUID_FREQ) (encode_freq hz)"
| "host_write (SetVolt mv) = map_option (Pair UUID_VOLT) (encode_volt_mv mv)"
| "host_write (SetRail on) = map_option (Pair UUID_RAIL) (encode_onoff on)"
| "host_write (SetDrv on) = map_option (Pair UUID_DRV) (encode_onoff on)"
| "host_write (SetLed on) = map_option (Pair UUID_LED) (encode_onoff on)"
| "host_write (SetRobotId i) = map_option (Pair UUID_ROBOT_ID) (py_bytes [i])"
| "host_write (SetTime epoch) = map_option (Pair UUID_TIME) (encode_time epoch)"
| "host_write (SetImuCfg odr content afs gfs hz) = map_option (Pair UUID_IMU_CFG) (encode_imu_cfg odr content afs gfs hz)"
| "host_write (LogCmd cmd policy) = map_option (Pair UUID_LOG_CTL) (encode_log_cmd cmd policy)"
| "host_write (Dump session offset len) = map_option (Pair UUID_DUMP) (encode_dump_req session offset len)"

text \<open>A write as the firmware gets it: nothing comes back for a UUID without a write handler.\<close>

definition robot_write ::
  "('f, 'b) platform \<Rightarrow> host_write \<Rightarrow> ('f, 'b) app_st \<Rightarrow> ((att_err + nat) \<times> ('f, 'b) app_st) option" where
  "robot_write p w a =
     Option.bind (chrc_of_uuid (fst w)) (\<lambda>c. map_option (\<lambda>h. h p 0 (snd w) a) (svc_write c))"

section \<open>What the host may ask for, and what it means\<close>

text \<open>The limits of \<open>scripts/protocol_limits.py\<close> and the numbers the wire can carry.\<close>

fun in_limits :: "host_request \<Rightarrow> bool" where
  "in_limits (SetFreq hz) \<longleftrightarrow> 4 \<le> hz \<and> hz \<le> 1000"
| "in_limits (SetVolt mv) \<longleftrightarrow> 750 \<le> mv \<and> mv \<le> 4200"
| "in_limits (SetRobotId i) \<longleftrightarrow> 0 \<le> i \<and> i \<le> 20"
| "in_limits (SetTime epoch) \<longleftrightarrow> 0 < epoch \<and> epoch < 2 ^ 32"
| "in_limits (SetImuCfg odr content afs gfs hz) \<longleftrightarrow> 1 \<le> odr \<and> odr \<le> 10 \<and> 1 \<le> content \<and> content \<le> 3 \<and>
     0 \<le> afs \<and> afs \<le> 3 \<and> 0 \<le> gfs \<and> gfs \<le> 3 \<and> 0 \<le> hz \<and> hz < 2 ^ 16"
| "in_limits (LogCmd cmd policy) \<longleftrightarrow> 0 \<le> cmd \<and> cmd \<le> 3 \<and> 0 \<le> policy \<and> policy < 256"
| "in_limits (Dump session offset len) \<longleftrightarrow> list_all (\<lambda>v. 0 \<le> v \<and> v < 2 ^ 32) [session, offset, len]"
| "in_limits _ \<longleftrightarrow> True"

text \<open>What the robot must be able to do at that moment.\<close>

fun able :: "('f, 'b) platform \<Rightarrow> ('f, 'b) app_st \<Rightarrow> host_request \<Rightarrow> bool" where
  "able p a (SetFreq hz) \<longleftrightarrow> 0 \<le> fst (drv_pwm_set_frequency (pf_pwm p) (of_int hz) (a_pwm a))"
| "able p a (SetVolt mv) \<longleftrightarrow> length (cmd_msgq a) < 8"
| "able p a (LogCmd cmd policy) \<longleftrightarrow> length (cmd_msgq a) < 8 \<and> (imu_log_active a \<longrightarrow> cmd \<noteq> 1 \<and> cmd \<noteq> 3)"
| "able p a (SetImuCfg odr content afs gfs hz) \<longleftrightarrow> magic (a_sh a) = IMU_SHARED_MAGIC"
| "able p a _ \<longleftrightarrow> True"

fun effect :: "('f, 'b) platform \<Rightarrow> ('f, 'b) app_st \<Rightarrow> host_request \<Rightarrow> ('f, 'b) app_st \<Rightarrow> bool" where
  "effect p a (SetFreq hz) a' \<longleftrightarrow> uint (settings_get SETTING_MOTOR_FREQ_HZ (a_settings a')) = hz \<and>
     uint (period_ns (a_pwm a')) = 1000000000 div hz"
| "effect p a (SetVolt mv) a' \<longleftrightarrow> a' = a\<lparr>cmd_msgq := cmd_msgq a @ [DEVICE_CMD_SET_VOLT_MV (of_int mv)]\<rparr>"
| "effect p a (SetRail on) a' \<longleftrightarrow> a' = a\<lparr>a_rail := \<lparr>rail_pin = on, rail_on = on\<rparr>\<rparr>"
| "effect p a (SetDrv on) a' \<longleftrightarrow> a' = a\<lparr>a_bridge := \<lparr>sleep_pin = on, drv_awake = on\<rparr>\<rparr>"
| "effect p a (SetLed on) a' \<longleftrightarrow> led_enabled (a_led a') = on \<and> settings_get SETTING_LED_ENABLED (a_settings a') = of_bool on"
| "effect p a (SetRobotId i) a' \<longleftrightarrow> uint (settings_get SETTING_ROBOT_ID (a_settings a')) = i"
| "effect p a (SetTime epoch) a' \<longleftrightarrow> a' = a\<lparr>wall_epoch_at_boot := of_int epoch - uptime_s p\<rparr>"
| "effect p a (SetImuCfg odr content afs gfs hz) a' \<longleftrightarrow>
     map (\<lambda>i. uint (settings_get i (a_settings a'))) [SETTING_IMU_ODR_CODE, SETTING_IMU_CONTENT, SETTING_IMU_ACCEL_FS,
       SETTING_IMU_GYRO_FS, SETTING_PREVIEW_HZ] = [odr, content, afs, gfs, min hz 6660] \<and>
     arbitrated a' \<and> cfg_seq (a_sh a') = cfg_seq (a_sh a) + 1"
| "effect p a (LogCmd cmd policy) a' \<longleftrightarrow> a' = a\<lparr>cmd_msgq := cmd_msgq a @ [DEVICE_CMD_LOG (of_int cmd)]\<rparr>"
| "effect p a (Dump session offset len) a' \<longleftrightarrow>
     a' = a\<lparr>a_dump := ble_transport_dump_request (of_int session) (of_int offset) (of_int len) (a_dump a)\<rparr>"

section \<open>Numbers on the wire\<close>

lemma uint_of_int:
  "0 \<le> v \<Longrightarrow> v < 256 \<Longrightarrow> uint (of_int v :: u8) = v"
  "0 \<le> v \<Longrightarrow> v < 65536 \<Longrightarrow> uint (of_int v :: u16) = v"
  "0 \<le> v \<Longrightarrow> v < 4294967296 \<Longrightarrow> uint (of_int v :: u32) = v"
  by (simp_all add: unsigned_of_int take_bit_int_eq_self)

lemmas encoders = encode_freq_def encode_volt_mv_def encode_onoff_def encode_imu_cfg_def encode_log_cmd_def
  encode_dump_req_def encode_time_def pack_H_def pack_I_def py_bytes_def py_append_def

lemma uuid_found:
  "chrc_of_uuid UUID_FREQ = Some FREQ" "chrc_of_uuid UUID_VOLT = Some VOLT" "chrc_of_uuid UUID_RAIL = Some RAIL"
  "chrc_of_uuid UUID_DRV = Some DRV" "chrc_of_uuid UUID_IMU_CFG = Some IMUCFG" "chrc_of_uuid UUID_LOG_CTL = Some LOGCTL"
  "chrc_of_uuid UUID_DUMP = Some DUMP" "chrc_of_uuid UUID_LED = Some LED" "chrc_of_uuid UUID_TIME = Some TIME"
  "chrc_of_uuid UUID_ROBOT_ID = Some ROBOTID"
  by (simp_all add: chrc_of_uuid_def enum_chrc_def)

lemma robot_write_found: "chrc_of_uuid u = Some c \<Longrightarrow> svc_write c = Some h \<Longrightarrow> robot_write p (u, b) a = Some (h p 0 b a)"
  by (simp add: robot_write_def)

text \<open>What a request that is written must lead to.\<close>

definition understood ::
  "('f, 'b) platform \<Rightarrow> ('f, 'b) app_st \<Rightarrow> host_request \<Rightarrow> u8 list \<Rightarrow> (att_err + nat) \<times> ('f, 'b) app_st \<Rightarrow> bool" where
  "understood p a r b res \<longleftrightarrow>
     (case fst res of
        Inl e \<Rightarrow> \<not> (in_limits r \<and> able p a r)
      | Inr n \<Rightarrow> n = length b \<and> in_limits r \<and> able p a r \<and> effect p a r (snd res))"

lemma freq_understood:
  assumes ok: "settings_ok (a_settings a)" and hz: "0 \<le> hz" "hz < 2 ^ 16"
  shows "understood p a (SetFreq hz) (le16 (of_int hz)) (on_freq_write p 0 (le16 (of_int hz)) a)"
proof -
  let ?w = "of_int hz :: u16"
  have u: "uint ?w = hz" using hz by (simp add: uint_of_int)
  then have range: "(?w < 4 \<or> 1000 < ?w) \<longleftrightarrow> \<not> (4 \<le> hz \<and> hz \<le> 1000)" by (auto simp: word_less_def)
  obtain ret pwm where s: "drv_pwm_set_frequency (pf_pwm p) ?w (a_pwm a) = (ret, pwm)" by force
  have freq: "uint (settings_get SETTING_MOTOR_FREQ_HZ (settings_set SETTING_MOTOR_FREQ_HZ ?w (a_settings a))) = hz"
    if "4 \<le> hz" "hz \<le> 1000"
    using that u ok by (simp add: registry.get_put meta_for_def settings_table_def word_le_def)
  have "uint (ucast ?w :: u32) = hz" using u by (simp add: uint_up_ucast is_up)
  then have "uint (1000000000 div ucast ?w :: u32) = 1000000000 div hz" by (simp add: uint_div)
  then have "uint (period_ns pwm) = 1000000000 div hz" if "4 \<le> hz" "hz \<le> 1000"
    using s that range by (auto simp: drv_pwm_set_frequency_def pwm_apply_value Let_def split_beta split: if_splits)
  then show ?thesis
    using range freq by (auto simp: understood_def on_freq_write_def s Let_def)
qed

lemma volt_understood:
  assumes "0 \<le> mv" "mv < 2 ^ 16"
  shows "understood p a (SetVolt mv) (le16 (of_int mv)) (on_volt_write p 0 (le16 (of_int mv)) a)"
proof -
  have u: "uint (of_int mv :: u16) = mv" using assms by (simp add: uint_of_int)
  then have "(of_int mv < (750 :: u16) \<or> 4200 < (of_int mv :: u16)) \<longleftrightarrow> \<not> (750 \<le> mv \<and> mv \<le> 4200)"
    by (auto simp: word_less_def)
  then show ?thesis using u by (auto simp: understood_def on_volt_write_def device_cmd_submit_def Let_def)
qed

lemma onoff_understood:
  assumes "settings_ok (a_settings a)"
  shows "understood p a (SetRail on) [of_bool on] (on_rail_write p 0 [of_bool on] a)"
    "understood p a (SetDrv on) [of_bool on] (on_drv_write p 0 [of_bool on] a)"
    "understood p a (SetLed on) [of_bool on] (on_led_write p 0 [of_bool on] a)"
proof -
  show "understood p a (SetRail on) [of_bool on] (on_rail_write p 0 [of_bool on] a)"
    by (cases on) (simp_all add: understood_def on_rail_write_def drv_stbb1_apur_set_def)
  show "understood p a (SetDrv on) [of_bool on] (on_drv_write p 0 [of_bool on] a)"
    by (cases on) (simp_all add: understood_def on_drv_write_def drv_drv8212_set_def)
  have "settings_get SETTING_LED_ENABLED (settings_set SETTING_LED_ENABLED (of_bool on) (a_settings a)) = of_bool on"
    using assms by (cases on) (simp_all add: registry.get_put meta_for_def settings_table_def)
  then show "understood p a (SetLed on) [of_bool on] (on_led_write p 0 [of_bool on] a)"
    by (cases on) (simp_all add: understood_def on_led_write_def drv_led_set_enabled_def led_show_def Let_def)
qed

lemma robot_id_understood:
  assumes ok: "settings_ok (a_settings a)" and i: "0 \<le> i" "i < 256"
  shows "understood p a (SetRobotId i) [of_int i] (on_robotid_write p 0 [of_int i] a)"
proof -
  let ?w = "ucast (of_int i :: u8) :: u16"
  have u: "uint ?w = i" using i by (simp add: uint_of_int uint_up_ucast is_up)
  then have "(settings_max SETTING_ROBOT_ID < ?w) \<longleftrightarrow> \<not> i \<le> 20"
    by (auto simp: word_less_def settings_max_def meta_for_def settings_table_def)
  moreover have "uint (settings_get SETTING_ROBOT_ID (settings_set SETTING_ROBOT_ID ?w (a_settings a))) = i" if "i \<le> 20"
    using that u i ok by (simp add: registry.get_put meta_for_def settings_table_def word_le_def)
  ultimately show ?thesis using i by (auto simp: understood_def on_robotid_write_def Let_def)
qed

lemma time_understood:
  assumes "0 \<le> epoch" "epoch < 2 ^ 32"
  shows "understood p a (SetTime epoch) (le32 (of_int epoch)) (on_time_write p 0 (le32 (of_int epoch)) a)"
proof -
  have "uint (of_int epoch :: u32) = epoch" using assms by (simp add: uint_of_int)
  then have "(of_int epoch :: u32) = 0 \<longleftrightarrow> epoch = 0" by (metis uint_0_iff)
  then show ?thesis
    using assms by (auto simp: understood_def on_time_write_def session_time_sync_def Let_def)
qed

lemma log_understood: "understood p a (LogCmd (uint w) (uint v)) [w, v] (on_logctl_write p 0 [w, v] a)"
proof -
  have "3 < w \<longleftrightarrow> \<not> uint w \<le> 3" "w = 1 \<longleftrightarrow> uint w = 1" "w = 3 \<longleftrightarrow> uint w = 3" "uint v < 256"
    using uint_lt2p [of v] by (auto simp: word_less_def word_uint_eq_iff)
  moreover have "length (cmd_msgq a) < 8 \<longleftrightarrow> \<not> 8 \<le> length (cmd_msgq a)" by auto
  ultimately show ?thesis
    by (simp add: understood_def on_logctl_write_def device_cmd_submit_def)
qed

lemma dump_understood:
  fixes session offset len :: int
  assumes "list_all (\<lambda>v. 0 \<le> v \<and> v < 2 ^ 32) [session, offset, len]"
  defines "b \<equiv> le32 (of_int session) @ le32 (of_int offset) @ le32 (of_int len)"
  shows "understood p a (Dump session offset len) b (on_dump_write p 0 b a)"
  using assms by (simp add: understood_def on_dump_write_def)

text \<open>The check of the handler is the limits of the host.\<close>

lemma content_bits:
  fixes w :: u8
  shows "w AND NOT 3 = 0 \<longleftrightarrow> uint w \<le> 3"
proof
  assume "w AND NOT 3 = 0"
  then have "w \<le> 3" by (simp add: word_le_nat_alt u8_mask)
  then show "uint w \<le> 3" by (simp add: word_le_def)
next
  assume "uint w \<le> 3"
  then have "uint w = 0 \<or> uint w = 1 \<or> uint w = 2 \<or> uint w = 3" using uint_ge_0 [of w] by arith
  then have "w = 0 \<or> w = 1 \<or> w = 2 \<or> w = 3" by (simp add: word_uint_eq_iff)
  then show "w AND NOT 3 = 0" by (elim disjE) simp_all
qed

lemma imucfg_accepted:
  "\<not> imucfg_rejected odr content afs gfs \<longleftrightarrow>
     1 \<le> uint odr \<and> uint odr \<le> 10 \<and> 1 \<le> uint content \<and> uint content \<le> 3 \<and> uint afs \<le> 3 \<and> uint gfs \<le> 3"
proof -
  have "content = 0 \<longleftrightarrow> \<not> 1 \<le> uint content" by (simp add: word_uint_eq_iff) (use uint_ge_0 [of content] in arith)
  then show ?thesis
    using content_bits [of content] by (auto simp: imucfg_rejected_def word_less_def)
qed

lemma imucfg_understood:
  fixes odr content afs gfs :: u8 and hz :: u16
  assumes ok: "settings_ok (a_settings a)"
  defines "b \<equiv> [odr, content, afs, gfs] @ le16 hz"
  shows "understood p a (SetImuCfg (uint odr) (uint content) (uint afs) (uint gfs) (uint hz)) b (on_imucfg_write p 0 b a)"
proof -
  let ?r = "SetImuCfg (uint odr) (uint content) (uint afs) (uint gfs) (uint hz)"
  have b: "length b = 6" "b ! 0 = odr" "b ! 1 = content" "b ! 2 = afs" "b ! 3 = gfs" "take 4 b = [odr, content, afs, gfs]"
    "imucfg_preview b = hz"
    by (simp_all add: b_def imucfg_preview_def)
  have lim: "in_limits ?r \<longleftrightarrow> \<not> imucfg_rejected odr content afs gfs"
    using uint_lt2p [of hz] by (auto simp: imucfg_accepted)
  obtain res a' where run: "on_imucfg_write p 0 b a = (res, a')" by force
  show ?thesis
  proof (cases "in_limits ?r \<and> able p a ?r")
    case False
    then have "\<exists>e. res = Inl e" using run b lim by (auto simp: on_imucfg_write_def Let_def split: if_splits)
    then show ?thesis using False run by (auto simp: understood_def)
  next
    case True
    note w = imucfg_write_applied [OF ok _ _ _ run]
    have "res = Inr 6 \<and> arbitrated a' \<and> cfg_seq (a_sh a') = cfg_seq (a_sh a) + 1 \<and>
      map (\<lambda>i. settings_get i (a_settings a')) [SETTING_IMU_ODR_CODE, SETTING_IMU_CONTENT, SETTING_IMU_ACCEL_FS,
        SETTING_IMU_GYRO_FS, SETTING_PREVIEW_HZ] = map ucast [odr, content, afs, gfs] @ [min hz 6660]"
      using w True lim b by simp
    then show ?thesis using True run b
      by (simp add: understood_def uint_up_ucast is_up min_def word_le_def)
  qed
qed



end
