(* ===== verification/Sample_Path.thy ===== *)
theory Sample_Path
  imports Robot_Sensor "HOL-Library.Sublist"
begin

text \<open>
  The way of a sample through the robot: the coprocessor puts it into the shared ring, the pump stages
  it, the writer persists it, the dump thread sends it and the host unpacks it. The theories of the
  parts say what each of them does; here they run together, under any events of the other threads and
  of the host that do not end the session.
\<close>

section \<open>What is under way\<close>

text \<open>A session ends by a stop or erase command when its turn comes, and by a disconnect unless it is
  detached. No other event closes it.\<close>

fun ends_session :: "device_cmd \<Rightarrow> bool" where
  "ends_session (DEVICE_CMD_LOG op) \<longleftrightarrow> op = DEVICE_LOG_OP_STOP \<or> op = DEVICE_LOG_OP_ERASE"
| "ends_session (DEVICE_CMD_SET_VOLT_MV mv) \<longleftrightarrow> False"

definition recording_ev :: "robot_ev \<Rightarrow> ('f, 'b) app_st \<Rightarrow> bool" where
  "recording_ev ev a \<longleftrightarrow>
     (ev = EvCommand \<longrightarrow> cmd_msgq a = [] \<or> \<not> ends_session (hd (cmd_msgq a))) \<and>
     (ev = EvDisconnected \<longrightarrow> imu_log_detached (a_log a))"

fun recording_run ::
  "'c spi_bus \<Rightarrow> (('f, 'b) platform \<times> robot_ev) list \<Rightarrow> ('f, 'b, 'c) robot \<Rightarrow> bool" where
  "recording_run sp [] r \<longleftrightarrow> True"
| "recording_run sp (pe # evs) r \<longleftrightarrow> recording_ev (snd pe) (core r) \<and> recording_run sp evs (robot_step sp pe r)"

definition sample_queue :: "('f, 'b, 'c) robot \<Rightarrow> imu_sample list" where
  "sample_queue r = shared_queue (a_sh (core r))"

text \<open>What an event adds to the shared ring, and a run of events.\<close>

definition publishes ::
  "'c spi_bus \<Rightarrow> ('f, 'b) platform \<times> robot_ev \<Rightarrow> ('f, 'b, 'c) robot \<Rightarrow> imu_sample list" where
  "publishes sp pe r =
     (if snd pe = EvFlpr then drop (length (sample_queue r)) (sample_queue (robot_step sp pe r)) else [])"

fun published ::
  "'c spi_bus \<Rightarrow> (('f, 'b) platform \<times> robot_ev) list \<Rightarrow> ('f, 'b, 'c) robot \<Rightarrow> imu_sample list" where
  "published sp [] r = []"
| "published sp (pe # evs) r = publishes sp pe r @ published sp evs (robot_step sp pe r)"

text \<open>Staged for the flash, or still in the shared ring.\<close>

definition pending :: "('f, 'b) app_st \<Rightarrow> imu_sample list" where
  "pending a = staged (a_log a) @ shared_queue (a_sh a)"

definition ring_ok :: "imu_shared \<Rightarrow> bool" where
  "ring_ok sh \<longleftrightarrow> length (ring sh) = IMU_RING_N \<and> unat (sh_head sh - sh_tail sh) \<le> IMU_RING_N"

text \<open>
  From one state to another while \<open>pub\<close> was published: \<open>rec\<close> was recorded; what was recorded and what
  is pending is what was pending and published, in order, without the samples the drop counter of
  the log counts.
\<close>

definition flows ::
  "('f \<Rightarrow> nat \<Rightarrow> u8) \<Rightarrow> imu_sample list \<Rightarrow> ('f, 'b) app_st \<Rightarrow> imu_sample list \<Rightarrow> imu_sample list \<Rightarrow>
   ('f, 'b) app_st \<Rightarrow> bool" where
  "flows img hist a pub recd a' \<longleftrightarrow>
     log_inv img (a_log a') (hist @ recd) \<and> ring_ok (a_sh a') \<and> same_session (a_log a) (a_log a') \<and>
     subseq (recd @ pending a') (pending a @ pub) \<and>
     (\<exists>k. k + length (recd @ pending a') = length (pending a @ pub) \<and>
        log_dropped (a_log a') = log_dropped (a_log a) + of_nat k) \<and>
     unat (stage_head (a_log a')) + length (shared_queue (a_sh a')) \<le>
       unat (stage_head (a_log a)) + length (shared_queue (a_sh a)) + length pub"

lemma same_session_refl [simp]: "same_session st st"
  by (simp add: same_session_def)

lemma same_session_trans: "same_session st st1 \<Longrightarrow> same_session st1 st2 \<Longrightarrow> same_session st st2"
  by (simp add: same_session_def)

lemma flows_trans:
  assumes "flows img hist a pub recd a1" "flows img (hist @ recd) a1 pub1 rec1 a2"
  shows "flows img hist a (pub @ pub1) (recd @ rec1) a2"
proof -
  obtain k k1 where k: "k + length (recd @ pending a1) = length (pending a @ pub)"
      "log_dropped (a_log a1) = log_dropped (a_log a) + of_nat k"
    and k1: "k1 + length (rec1 @ pending a2) = length (pending a1 @ pub1)"
      "log_dropped (a_log a2) = log_dropped (a_log a1) + of_nat k1"
    using assms by (auto simp: flows_def)
  have "subseq (recd @ rec1 @ pending a2) (recd @ pending a1 @ pub1)"
    using assms(2) by (simp add: flows_def subseq_append')
  moreover have "subseq ((recd @ pending a1) @ pub1) ((pending a @ pub) @ pub1)"
    using assms(1) unfolding subseq_append by (simp add: flows_def)
  ultimately have "subseq ((recd @ rec1) @ pending a2) (pending a @ pub @ pub1)"
    by (simp add: subseq_order.trans)
  moreover have "(k + k1) + length ((recd @ rec1) @ pending a2) = length (pending a @ pub @ pub1)"
    using k(1) k1(1) by simp
  moreover have "log_dropped (a_log a2) = log_dropped (a_log a) + of_nat (k + k1)"
    using k(2) k1(2) by (simp add: add.assoc)
  moreover have "same_session (a_log a) (a_log a2)"
    using assms by (auto simp: flows_def intro: same_session_trans)
  moreover have "unat (stage_head (a_log a2)) + length (shared_queue (a_sh a2)) \<le>
      unat (stage_head (a_log a)) + length (shared_queue (a_sh a)) + length (pub @ pub1)"
    using assms by (simp add: flows_def)
  ultimately show ?thesis
    using assms(2) unfolding flows_def by (intro conjI exI [of _ "k + k1"]) simp_all
qed

text \<open>An event that leaves the records, the staging ring and the shared ring alone.\<close>

lemma flows_still:
  assumes "log_inv img (a_log a') hist" "ring_ok (a_sh a)" "same_session (a_log a) (a_log a')"
    and "ring (a_sh a') = ring (a_sh a)" "sh_head (a_sh a') = sh_head (a_sh a)" "sh_tail (a_sh a') = sh_tail (a_sh a)"
    and "staged (a_log a') = staged (a_log a)" "log_dropped (a_log a') = log_dropped (a_log a)"
      "stage_head (a_log a') = stage_head (a_log a)"
  shows "flows img hist a [] [] a'"
  using assms by (simp add: flows_def ring_ok_def pending_def shared_queue_def)

section \<open>The pump and the writer\<close>

lemma append_takes:
  assumes inv: "log_inv img st hist" and act: "active st" and room: "unat (stage_head st) + length xs + STAGE_N < 2 ^ 32"
  shows "let st' = imu_log_append xs st in
    log_inv img st' hist \<and> same_session st st' \<and>
    (\<exists>taken k. staged st' = staged st @ taken \<and> subseq taken xs \<and> k + length taken = length xs \<and>
      log_dropped st' = log_dropped st + of_nat k) \<and>
    unat (stage_head st') \<le> unat (stage_head st) + length xs"
proof -
  let ?st = "fold append_one xs st" and ?room = "STAGE_N - length (staged st)"
  note f = append_fold_staged [OF log_invD(2) [OF inv] room]
  obtain b c d where eq: "?st = st\<lparr>stage := b, stage_head := c, log_dropped := d\<rparr>"
    using append_fold_frame by blast
  have sess: "same_session st ?st" unfolding eq by (simp add: same_session_def)
  have tail: "stage_tail ?st = stage_tail st" unfolding eq by simp
  have "subseq (take ?room xs) xs" by (simp add: prefix_imp_subseq take_is_prefix)
  moreover have "(length xs - ?room) + length (take ?room xs) = length xs" by simp
  ultimately have taken: "\<exists>taken k. staged ?st = staged st @ taken \<and> subseq taken xs \<and> k + length taken = length xs \<and>
      log_dropped ?st = log_dropped st + of_nat k"
    using f by blast
  have "unat (stage_head s) = unat (stage_tail s) + length (staged s)" if "stage_ok s" for s :: "'a log_st"
    using stage_okD(3) [OF that] that
    by (simp add: staged_def staging.length_contents stage_ok_def word_le_nat_alt)
  then have "unat (stage_head ?st) \<le> unat (stage_head st) + length xs"
    using f log_invD(2) [OF inv] tail by simp
  then show ?thesis
    using append_inv [OF inv room] act taken sess by (simp add: imu_log_append_def Let_def)
qed

lemma chunks_taken:
  assumes "log_inv img st hist" "active st" "unat (stage_head st) + length (concat cs) + STAGE_N < 2 ^ 32"
  shows "let st' = fold imu_log_append cs st in
    log_inv img st' hist \<and> same_session st st' \<and>
    (\<exists>taken k. staged st' = staged st @ taken \<and> subseq taken (concat cs) \<and> k + length taken = length (concat cs) \<and>
      log_dropped st' = log_dropped st + of_nat k) \<and>
    unat (stage_head st') \<le> unat (stage_head st) + length (concat cs)"
  using assms
proof (induction cs arbitrary: st)
  case Nil
  then show ?case by (auto simp: Let_def)
next
  case (Cons c cs)
  let ?st = "imu_log_append c st"
  note one = append_takes [OF Cons.prems(1,2), of c, unfolded Let_def]
  have one': "log_inv img ?st hist" "same_session st ?st" "unat (stage_head ?st) \<le> unat (stage_head st) + length c"
    using one Cons.prems(3) by auto
  have act: "active ?st" using one'(2) Cons.prems(2) by (simp add: same_session_def)
  note rest = Cons.IH [OF one'(1) act, unfolded Let_def]
  have rest': "log_inv img (fold imu_log_append cs ?st) hist" "same_session ?st (fold imu_log_append cs ?st)"
    "unat (stage_head (fold imu_log_append cs ?st)) \<le> unat (stage_head ?st) + length (concat cs)"
    using rest one'(3) Cons.prems(3) by auto
  obtain t k where t: "staged ?st = staged st @ t" "subseq t c" "k + length t = length c" "log_dropped ?st = log_dropped st + of_nat k"
    using one Cons.prems(3) by auto
  obtain u l where u: "staged (fold imu_log_append cs ?st) = staged ?st @ u" "subseq u (concat cs)"
    "l + length u = length (concat cs)" "log_dropped (fold imu_log_append cs ?st) = log_dropped ?st + of_nat l"
    using rest one'(3) Cons.prems(3) by auto
  have "staged (fold imu_log_append cs ?st) = staged st @ (t @ u)" "subseq (t @ u) (c @ concat cs)"
    "(k + l) + length (t @ u) = length (c @ concat cs)"
    "log_dropped (fold imu_log_append cs ?st) = log_dropped st + of_nat (k + l)"
    using t u by (simp_all add: list_emb_append_mono add.assoc)
  then have "\<exists>taken k. staged (fold imu_log_append cs ?st) = staged st @ taken \<and> subseq taken (c @ concat cs) \<and>
      k + length taken = length (c @ concat cs) \<and> log_dropped (fold imu_log_append cs ?st) = log_dropped st + of_nat k"
    by blast
  then show ?case
    using rest' one' same_session_trans [OF one'(2) rest'(2)] by (simp add: Let_def)
qed

lemma fold_deliver_log: "fst (fold (deliver now) cs s) = fold imu_log_append cs (fst s)"
  by (induction cs arbitrary: s) (simp_all add: deliver_def)

lemma pump_thread_path:
  obtains cs where "a_log (pump_thread p a) = fold imu_log_append cs (a_log a)"
    "concat cs @ shared_queue (a_sh (pump_thread p a)) = shared_queue (a_sh a)"
    "a_sh (pump_thread p a) = a_sh a \<or> a_sh (pump_thread p a) = (a_sh a)\<lparr>sh_tail := sh_head (a_sh a)\<rparr>"
proof (cases "magic (a_sh a) = IMU_SHARED_MAGIC \<and> imu_ok (a_sh a) \<noteq> 0")
  case True
  let ?d = "deliver (pf_now p)" and ?sh = "a_sh a" and ?s = "(a_log a, a_stream a)"
  obtain cs where run: "pump_drain ?d (sh_head ?sh) (sh_tail ?sh) (?sh, drained_total a, ?s) =
      (?sh\<lparr>sh_tail := sh_head ?sh\<rparr>, drained_total a + (sh_head ?sh - sh_tail ?sh), fold ?d cs ?s)"
    "concat cs = shared_queue ?sh"
    using pump_drain_delivers [OF refl refl, where sh = ?sh and deliver = ?d and drained = "drained_total a" and s = ?s]
    by (elim exE conjE)
  have "shared_queue (?sh\<lparr>sh_tail := sh_head ?sh\<rparr>) = []" by (simp add: shared_queue_def shared.contents_empty)
  then show ?thesis
    using run fold_deliver_log [of "pf_now p" cs ?s] True
    by (intro that [of cs]) (simp_all add: pump_thread_def pump_pass_def split_beta)
next
  case False
  then show ?thesis by (intro that [of "[]"]) (auto simp: pump_thread_def pump_pass_def)
qed

lemma pump_flows:
  assumes inv: "log_inv img (a_log a) hist" and act: "active (a_log a)" and ok: "ring_ok (a_sh a)"
    and room: "unat (stage_head (a_log a)) + length (shared_queue (a_sh a)) + STAGE_N < 2 ^ 32"
  shows "flows img hist a [] [] (pump_thread p a)"
proof -
  obtain cs where cs: "a_log (pump_thread p a) = fold imu_log_append cs (a_log a)"
    "concat cs @ shared_queue (a_sh (pump_thread p a)) = shared_queue (a_sh a)"
    "a_sh (pump_thread p a) = a_sh a \<or> a_sh (pump_thread p a) = (a_sh a)\<lparr>sh_tail := sh_head (a_sh a)\<rparr>"
    by (rule pump_thread_path)
  have "ring_ok (a_sh (pump_thread p a))" using cs(3) ok by (auto simp: ring_ok_def)
  moreover have len: "length (concat cs) + length (shared_queue (a_sh (pump_thread p a))) = length (shared_queue (a_sh a))"
    using arg_cong [OF cs(2), of length] by simp
  moreover obtain t k where "staged (a_log (pump_thread p a)) = staged (a_log a) @ t" "subseq t (concat cs)"
      "k + length t = length (concat cs)" "log_dropped (a_log (pump_thread p a)) = log_dropped (a_log a) + of_nat k"
      "log_inv img (a_log (pump_thread p a)) hist" "same_session (a_log a) (a_log (pump_thread p a))"
      "unat (stage_head (a_log (pump_thread p a))) \<le> unat (stage_head (a_log a)) + length (concat cs)"
    using chunks_taken [OF inv act, of cs] room len by (auto simp: cs(1) Let_def)
  moreover have "subseq (t @ shared_queue (a_sh (pump_thread p a))) (shared_queue (a_sh a))"
    if "subseq t (concat cs)" for t
    using that unfolding cs(2) [symmetric] by simp
  ultimately show ?thesis
    by (auto simp: flows_def pending_def subseq_append' intro!: exI [of _ k])
qed

lemma writer_step_frame:
  "log_dropped (fst (writer_step fd up s)) = log_dropped (fst s)" "stage_head (fst (writer_step fd up s)) = stage_head (fst s)"
proof -
  obtain st ms where s: "s = (st, ms)" by force
  obtain f l m where "dir_maintenance fd up (drain_write fd st, ms) = ((drain_write fd st)\<lparr>flash := f, last_dir_refresh := l\<rparr>, m)"
    using dir_maintenance_frame [of fd up "drain_write fd st" ms undefined] by blast
  then show "log_dropped (fst (writer_step fd up s)) = log_dropped (fst s)"
    "stage_head (fst (writer_step fd up s)) = stage_head (fst s)"
    by (simp_all add: s writer_step_def writer_drain_batch_split) (simp_all add: drain_write_def)
qed

lemma writer_flows:
  assumes dev: "dir_dev (pf_flash p) img" and inv: "log_inv img (a_log a) hist" and act: "active (a_log a)"
    and ok: "ring_ok (a_sh a)" and room: "unat (total_abs (a_log a)) + length (staged (a_log a)) + 256 < 2 ^ 28"
  shows "\<exists>recd. flows img hist a [] recd (writer_thread p a)"
proof -
  obtain l m where run: "writer_step (pf_flash p) (pf_now p) (a_log a, a_msgs a) = (l, m)" by force
  let ?n = "unat (drain_count (a_log a))"
  have "log_inv img l (hist @ take ?n (staged (a_log a)))" "staged l = drop ?n (staged (a_log a))" "same_session (a_log a) l"
    using drain_step [OF dev inv act room run] by simp_all
  moreover have "log_dropped l = log_dropped (a_log a)" "stage_head l = stage_head (a_log a)"
    using writer_step_frame [of "pf_flash p" "pf_now p" "(a_log a, a_msgs a)"] by (simp_all add: run)
  ultimately obtain t where "staged (a_log a) = t @ staged l" "log_inv img l (hist @ t)" "same_session (a_log a) l"
    "log_dropped l = log_dropped (a_log a)" "stage_head l = stage_head (a_log a)"
    by (metis append_take_drop_id)
  then show ?thesis
    using ok by (intro exI [of _ t]) (simp add: flows_def pending_def writer_thread_def run)
qed

section \<open>The coprocessor\<close>

lemma apply_config_ring [simp]:
  "ring (fst (apply_config sp s)) = ring (fst s)" "sh_head (fst (apply_config sp s)) = sh_head (fst s)"
  "sh_tail (fst (apply_config sp s)) = sh_tail (fst s)"
  by (simp_all add: apply_config_def Let_def split_beta)

lemma publish_queue:
  assumes "ring_ok sh"
  shows "ring_ok (flpr_publish x n sh) \<and>
    (\<exists>pub. shared_queue (flpr_publish x n sh) = shared_queue sh @ pub \<and> length pub \<le> 1)"
proof (cases "sh_head sh - sh_tail sh \<ge> of_nat IMU_RING_N")
  case True
  then show ?thesis using assms by (auto simp: flpr_publish_def ring_ok_def shared_queue_def)
next
  case False
  then have less: "unat (sh_head sh - sh_tail sh) < IMU_RING_N" by (simp add: word_le_nat_alt)
  have len: "length (ring sh) = IMU_RING_N" using assms by (simp add: ring_ok_def)
  have "shared_queue (flpr_publish x n sh) = shared_queue sh @ [x\<lparr>s_seq16 := ucast n\<rparr>]"
    using False shared.contents_push [OF TrueI less len] by (simp add: flpr_publish_def shared_queue_def)
  moreover have "ring_ok (flpr_publish x n sh)"
    using False less len shared.fill_push [OF less] by (simp add: flpr_publish_def ring_ok_def)
  ultimately show ?thesis by simp
qed

lemma ring_cong:
  assumes "ring sh' = ring sh" "sh_head sh' = sh_head sh" "sh_tail sh' = sh_tail sh"
  shows "ring_ok sh' = ring_ok sh" "shared_queue sh' = shared_queue sh"
  using assms by (simp_all add: ring_ok_def shared_queue_def)

lemma flpr_loop_queue:
  assumes "ring_ok sh"
  shows "ring_ok (fst (flpr_loop sp (sh, st))) \<and>
    (\<exists>pub. shared_queue (fst (flpr_loop sp (sh, st))) = shared_queue sh @ pub \<and> length pub \<le> 1)"
proof -
  have same: "ring_ok (fst (apply_config sp (sh, sn)))" "shared_queue (fst (apply_config sp (sh, sn))) = shared_queue sh" for sn
    using ring_cong [of "fst (apply_config sp (sh, sn))" sh] assms by simp_all
  show ?thesis
    using assms same publish_queue [OF assms] publish_queue [OF same(1)]
    by (auto simp: flpr_loop_def Let_def split_beta split: option.split)
qed

lemma flpr_flows:
  assumes inv: "log_inv img (a_log (core r)) hist" and ok: "ring_ok (a_sh (core r))"
  shows "flows img hist (core r) (publishes sp (p, EvFlpr) r) [] (core (robot_step sp (p, EvFlpr) r))"
proof -
  let ?sh = "fst (flpr_loop sp (a_sh (core r), flpr r))"
  obtain pub where pub: "ring_ok ?sh" "shared_queue ?sh = shared_queue (a_sh (core r)) @ pub"
    using flpr_loop_queue [OF ok, of sp "flpr r"] by blast
  have step: "core (robot_step sp (p, EvFlpr) r) = (core r)\<lparr>a_sh := ?sh\<rparr>" by (simp add: robot_step_cases)
  have "publishes sp (p, EvFlpr) r = pub" using pub(2) by (simp add: publishes_def sample_queue_def step)
  then show ?thesis using inv pub unfolding step by (simp add: flows_def pending_def)
qed

section \<open>Everything else\<close>

text \<open>The settings page lies behind the log: persisting a setting moves nothing of it.\<close>

lemma log_inv_behind:
  assumes "log_inv img st hist" "same_outside img LOG_HI n (flash st) f"
  shows "log_inv img (st\<lparr>flash := f\<rparr>) hist"
proof -
  have win: "flash_window img f a m = flash_window img (flash st) a m" if "a + m \<le> LOG_HI" for a m
    using assms(2) that by (auto simp: same_outside_def intro!: flash_window_eqI)
  have "dir_map img f i = dir_map img (flash st) i" for i
    using win entry_addr_range(2) [of i] by (cases "i < 16") (auto simp: dir_map_outside intro!: dir_map_cong)
  then have dir: "dir_map img f = dir_map img (flash st)" by blast
  have "rec_cell img f i = rec_cell img (flash st) i" if "i < CAP" for i
    using that unfolding rec_cell_def by (intro win) simp
  then have "holds_last CAP (rec_cell img f) (map enc_sample hist)"
    using holds_last_append [of CAP "rec_cell img (flash st)" "map enc_sample hist" "[]" "rec_cell img f"] assms(1)
    by (simp add: log_inv_def log_rel_def)
  moreover have "dir_ok img (st\<lparr>flash := f\<rparr>) = dir_ok img st" by (simp add: dir_inv_defs dir)
  ultimately show ?thesis using assms(1) by (simp add: log_inv_def log_rel_def stage_ok_def)
qed

lemma persist_flows:
  assumes laws: "flash_laws (pf_flash p) img" and inv: "log_inv img (a_log a) hist" and ok: "ring_ok (a_sh a)"
    and set: "settings_ok (a_settings a)"
  shows "flows img hist a [] [] (persist_work p a)"
proof -
  let ?st = "persist_prepare (pf_crc32 p) (a_settings a)"
  let ?f = "snd (persist_write (pf_flash p) ?st (flash (a_log a)))"
  have "length (enc_rec (rec ?st)) = REC_BYTES"
    using set by (simp add: settings_ok_def persist_prepare_def Let_def)
  then have "same_outside img LOG_HI 0x165000 (flash (a_log a)) ?f"
    using slot_range [OF mod2_cases [of "generation (rec ?st)"]] unfolding persist_write_def
    by (intro write_same_outside [OF laws]) simp_all
  then have "log_inv img ((a_log a)\<lparr>flash := ?f\<rparr>) hist" by (rule log_inv_behind [OF inv])
  then show ?thesis
    using ok by (intro flows_still) (simp_all add: persist_work_def persist_work_fn_def same_session_def staged_def Let_def)
qed

text \<open>What the other threads, the callbacks and the host do.\<close>

lemma run_update_ring [simp]:
  "ring (a_sh (session_imu_run_update p a)) = ring (a_sh a)" "sh_head (a_sh (session_imu_run_update p a)) = sh_head (a_sh a)"
  "sh_tail (a_sh (session_imu_run_update p a)) = sh_tail (a_sh a)"
  by (simp_all add: session_imu_run_update_def update_decim_def publish_cfg_def Let_def)

lemma gatt_write_still:
  "a_log (gatt_write p c offset buf a) = a_log a" "ring (a_sh (gatt_write p c offset buf a)) = ring (a_sh a)"
  "sh_head (a_sh (gatt_write p c offset buf a)) = sh_head (a_sh a)"
  "sh_tail (a_sh (gatt_write p c offset buf a)) = sh_tail (a_sh a)"
  by (cases c; simp add: gatt_write_def write_handlers Let_def split_beta session_time_sync_def)+

lemma cmd_thread_still:
  assumes "recording_ev EvCommand a" "active (a_log a)"
  shows "a_log (cmd_thread p a) = a_log a \<and> a_sh (cmd_thread p a) = a_sh a"
proof (cases "cmd_msgq a")
  case (Cons c rest)
  have "exec_log p op (a\<lparr>cmd_msgq := rest\<rparr>) = a\<lparr>cmd_msgq := rest\<rparr>" if "c = DEVICE_CMD_LOG op" for op
    using assms Cons that by (simp add: exec_log_def log_start_def imu_log_start_def recording_ev_def)
  then show ?thesis by (cases c) (simp_all add: cmd_thread_def Cons)
qed (simp add: cmd_thread_def)

lemma disconnected_still:
  assumes "imu_log_detached (a_log a)"
  shows "a_log (disconnected p a) = a_log a \<and> ring (a_sh (disconnected p a)) = ring (a_sh a) \<and>
    sh_head (a_sh (disconnected p a)) = sh_head (a_sh a) \<and> sh_tail (a_sh (disconnected p a)) = sh_tail (a_sh a)"
  using assms by (simp add: disconnected_def session_on_disconnect_def Let_def)

lemma core_step_still:
  assumes "recording_ev ev a" "active (a_log a)" "ev \<notin> {EvPump, EvWriter, EvPersist}"
  shows "a_log (core_step p ev a) = a_log a \<and> ring (a_sh (core_step p ev a)) = ring (a_sh a) \<and>
    sh_head (a_sh (core_step p ev a)) = sh_head (a_sh a) \<and> sh_tail (a_sh (core_step p ev a)) = sh_tail (a_sh a)"
proof (cases ev)
  case (EvWrite c offset buf)
  then show ?thesis by (simp add: gatt_write_still)
qed (use assms in \<open>simp_all add: stream_ccc_changed_def session_set_stream_active_def Let_def connected_def
    restart_advertise_def dump_thread_core cmd_thread_still disconnected_still recording_ev_def
    split: option.split\<close>)

text \<open>
  So the host alone decides whether a session lasts: it does while no stop or erase is queued or
  requested, and nobody disconnects from a session that is not detached.
\<close>

fun asks_end :: "robot_ev \<Rightarrow> bool" where
  "asks_end (EvWrite c offset buf) \<longleftrightarrow> c = LOGCTL \<and> buf \<noteq> [] \<and> ends_session (DEVICE_CMD_LOG (hd buf))"
| "asks_end _ \<longleftrightarrow> False"

definition lasting :: "bool \<Rightarrow> ('f, 'b) app_st \<Rightarrow> bool" where
  "lasting d a \<longleftrightarrow> active (a_log a) \<and> session_detached (a_log a) = d \<and> list_all (\<lambda>c. \<not> ends_session c) (cmd_msgq a)"

lemma lasting_recording:
  assumes "lasting d a" "ev = EvDisconnected \<longrightarrow> d"
  shows "recording_ev ev a"
  using assms by (cases "cmd_msgq a") (auto simp: lasting_def recording_ev_def imu_log_detached_def)

lemma gatt_write_lasting:
  assumes "lasting d a" "\<not> asks_end (EvWrite c offset buf)"
  shows "lasting d (gatt_write p c offset buf a)"
proof -
  have "list_all (\<lambda>c. \<not> ends_session c) (cmd_msgq (gatt_write p c offset buf a))"
    using assms
    by (cases c) (auto simp: gatt_write_def write_handlers lasting_def Let_def split_beta session_time_sync_def
        device_cmd_submit_def)
  then show ?thesis using assms(1) by (simp add: lasting_def gatt_write_still)
qed

lemma cmd_thread_queue: "cmd_msgq (cmd_thread p a) = tl (cmd_msgq a)"
  by (cases "cmd_msgq a") (simp_all add: cmd_thread_def)

lemma core_step_lasting:
  assumes "lasting d a" "\<not> asks_end ev" "ev = EvDisconnected \<longrightarrow> d"
  shows "lasting d (core_step p ev a)"
proof (cases ev)
  case (EvWrite c offset buf)
  then show ?thesis using gatt_write_lasting [OF assms(1)] assms(2) by simp
next
  case EvCommand
  then show ?thesis
    using cmd_thread_still [of a p] lasting_recording [OF assms(1), of EvCommand] assms(1)
    by (cases "cmd_msgq a") (simp_all add: lasting_def cmd_thread_queue)
next
  case EvDisconnected
  then show ?thesis using disconnected_still [of a p] assms
    by (simp add: lasting_def imu_log_detached_def disconnected_def session_on_disconnect_def Let_def)
qed (use assms(1) in \<open>simp_all add: lasting_def stream_ccc_changed_def session_set_stream_active_def Let_def connected_def
    restart_advertise_def dump_thread_core pump_active pump_core persist_keeps writer_thread_def split_beta writer_active
    split: option.split\<close>)

lemma tick_still:
  "a_log (snd (health_tick p s)) = a_log (snd s) \<and> ring (a_sh (snd (health_tick p s))) = ring (a_sh (snd s)) \<and>
   sh_head (a_sh (snd (health_tick p s))) = sh_head (a_sh (snd s)) \<and> sh_tail (a_sh (snd (health_tick p s))) = sh_tail (a_sh (snd s))"
proof -
  obtain m where "snd (health_tick p s) = (snd (health_announce p s))\<lparr>a_msgs := m\<rparr>"
    using tick_msgs [of p s] by blast
  then show ?thesis using announce_core [of p s] by auto
qed

section \<open>A run\<close>

lemma robot_step_lasting:
  assumes "lasting d (core r)" "\<not> asks_end ev" "ev = EvDisconnected \<longrightarrow> d"
  shows "lasting d (core (robot_step sp (p, ev) r))"
proof -
  have "cmd_msgq (snd (health_tick p s)) = cmd_msgq (snd s)"
    "session_detached (a_log (snd (health_tick p s))) = session_detached (a_log (snd s))" for s
    using tick_msgs [of p s] announce_core [of p s] by auto
  then have "lasting d (snd (health_tick p (health r, core r)))"
    using assms(1) tick_still [of p "(health r, core r)"] by (simp add: lasting_def)
  moreover have "lasting d (core_step p ev (core r))" using assms by (rule core_step_lasting)
  ultimately show ?thesis using assms(1) by (simp add: robot_step_cases) (simp add: lasting_def)
qed

interpretation lasting: step_invariant "robot_step sp" "\<lambda>r. lasting d (core r)"
    "\<lambda>(p, ev). \<not> asks_end ev \<and> (ev = EvDisconnected \<longrightarrow> d)" for sp d
  by unfold_locales (auto simp: robot_step_lasting)

lemma lasting_run:
  assumes "lasting d (core r)" "list_all (\<lambda>(p, ev). \<not> asks_end ev \<and> (ev = EvDisconnected \<longrightarrow> d)) evs"
  shows "recording_run sp evs r \<and> lasting d (core (robot_run sp evs r))"
  using assms
proof (induction evs arbitrary: r)
  case (Cons pe evs)
  then have "recording_ev (snd pe) (core r)" by (auto intro: lasting_recording)
  moreover have "lasting d (core (robot_step sp pe r))" using Cons.prems by (intro lasting.keeps) simp_all
  ultimately show ?case using Cons.IH [of "robot_step sp pe r"] Cons.prems(2) by (simp add: robot_run_def)
qed (simp add: robot_run_def)

text \<open>Room: with \<open>n\<close> events to come the counters of the log do not wrap.\<close>

definition room_for :: "nat \<Rightarrow> imu_sample list \<Rightarrow> ('f, 'b) app_st \<Rightarrow> bool" where
  "room_for n hist a \<longleftrightarrow> unat (stage_head (a_log a)) + length (shared_queue (a_sh a)) + n + STAGE_N < 2 ^ 32 \<and>
     length hist + length (pending a) + n + 256 < 2 ^ 28"

lemma flows_room:
  assumes "flows img hist a pub recd a'" "room_for n hist a" "m + length pub \<le> n"
  shows "room_for m (hist @ recd) a'"
proof -
  have "length (recd @ pending a') \<le> length (pending a @ pub)"
    using assms(1) by (auto simp: flows_def dest: list_emb_length)
  then show ?thesis using assms by (simp add: room_for_def flows_def)
qed

lemma publishes_one:
  assumes "ring_ok (a_sh (core r))"
  shows "length (publishes sp pe r) \<le> 1"
  using flpr_loop_queue [OF assms, of sp "flpr r"]
  by (cases pe) (auto simp: publishes_def sample_queue_def robot_step_cases)

lemma step_flows:
  assumes dev: "dir_dev (pf_flash p) img" and inv: "log_inv img (a_log (core r)) hist" and act: "active (a_log (core r))"
    and ok: "ring_ok (a_sh (core r))" and set: "settings_ok (a_settings (core r))" and ev: "recording_ev ev (core r)"
    and room: "room_for n hist (core r)"
  shows "\<exists>recd. flows img hist (core r) (publishes sp (p, ev) r) recd (core (robot_step sp (p, ev) r))"
proof -
  let ?a = "core r"
  have still: "flows img hist ?a [] [] a'" if "a_log a' = a_log ?a" "ring (a_sh a') = ring (a_sh ?a)"
    "sh_head (a_sh a') = sh_head (a_sh ?a)" "sh_tail (a_sh a') = sh_tail (a_sh ?a)" for a'
    using that inv ok by (intro flows_still) simp_all
  consider (flpr) "ev = EvFlpr" | (pump) "ev = EvPump" | (writer) "ev = EvWriter" | (persist) "ev = EvPersist"
    | (tick) "ev = EvHealth" | (drdy) "ev = EvDrdy" | (other) "ev \<notin> {EvFlpr, EvPump, EvWriter, EvPersist, EvHealth, EvDrdy}"
    by blast
  then show ?thesis
  proof cases
    case flpr
    then show ?thesis using flpr_flows [OF inv ok] by blast
  next
    case pump
    then show ?thesis
      using pump_flows [OF inv act ok, of p] room by (auto simp: robot_step_cases publishes_def room_for_def)
  next
    case writer
    have "unat (total_abs (a_log ?a)) + length (staged (a_log ?a)) + 256 < 2 ^ 28"
      using room log_invD(5) [OF inv] by (simp add: room_for_def pending_def)
    then show ?thesis
      using writer_flows [OF dev inv act ok] writer by (simp add: robot_step_cases publishes_def)
  next
    case persist
    then show ?thesis
      using persist_flows [OF dir_devD(1) [OF dev] inv ok set] still by (auto simp: robot_step_cases publishes_def)
  next
    case tick
    then show ?thesis using tick_still [of p "(health r, ?a)"] still by (auto simp: robot_step_cases publishes_def)
  next
    case drdy
    then show ?thesis using still [of ?a] by (auto simp: robot_step_cases publishes_def)
  next
    case other
    then show ?thesis using core_step_still [OF ev act, of p] still by (auto simp: robot_step_cases publishes_def)
  qed
qed

lemma run_flows:
  assumes "list_all (\<lambda>(p, ev). dir_dev (pf_flash p) img) evs" "recording_run sp evs r" "app_inv (core r)"
    and "log_inv img (a_log (core r)) hist" "active (a_log (core r))" "ring_ok (a_sh (core r))"
    and "room_for (length evs) hist (core r)"
  shows "length (published sp evs r) \<le> length evs \<and>
    (\<exists>recd. flows img hist (core r) (published sp evs r) recd (core (robot_run sp evs r)))"
  using assms
proof (induction evs arbitrary: r hist)
  case Nil
  then show ?case using flows_still [of img "core r" hist "core r"] by (auto simp: robot_run_def)
next
  case (Cons pe evs)
  obtain p ev where pe: "pe = (p, ev)" by force
  let ?r = "robot_step sp pe r" and ?pub = "publishes sp pe r"
  obtain recd where f: "flows img hist (core r) ?pub recd (core ?r)"
    using step_flows [OF _ Cons.prems(4-6) app_invD(1) [OF Cons.prems(3)] _ Cons.prems(7), of p ev] Cons.prems(1,2) pe by auto
  have "room_for (length evs) (hist @ recd) (core ?r)"
    using publishes_one [OF Cons.prems(6), of sp pe] by (intro flows_room [OF f Cons.prems(7)]) simp
  moreover have "log_inv img (a_log (core ?r)) (hist @ recd)" "active (a_log (core ?r))" "ring_ok (a_sh (core ?r))"
    using f Cons.prems(5) by (simp_all add: flows_def same_session_def)
  moreover have "app_inv (core ?r)" using Cons.prems(3) by (rule robot_step_inv)
  ultimately obtain rec1 where "flows img (hist @ recd) (core ?r) (published sp evs ?r) rec1 (core (robot_run sp evs ?r))"
    "length (published sp evs ?r) \<le> length evs"
    using Cons.IH [of ?r "hist @ recd"] Cons.prems(1,2) by auto
  then show ?case using flows_trans [OF f] publishes_one [OF Cons.prems(6), of sp pe] by (auto simp: robot_run_def)
qed

text \<open>The samples of a session that has just been closed.\<close>

lemma finished_samples:
  assumes dev: "dir_dev fd img" and inv: "log_inv img st hist" and act: "active st"
  shows "session_samples fd (stop_finish fd st) hist (cur_seq st) =
    drop (max (unat (cur_start st)) (length hist - CAP)) hist"
proof -
  obtain e where e: "dir_map img (flash st) (cur_slot st) = Some e" "de_seq e = cur_seq st" "de_start_rec e = cur_start st"
    "unat (cur_start st) + unat (cur_count st) = length hist"
    using log_invD(3,5) [OF inv] act by (auto simp: dir_ok_def session_ok_def)
  let ?e = "e\<lparr>de_rec_count := cur_count st, de_open := 0\<rparr>" and ?st = "stop_finish fd st"
  have d: "dir_map img (flash ?st) (cur_slot st) = Some ?e" "\<not> active ?st"
    using finish_dir [OF dev log_invD(4) [OF inv] act e(1)] by auto
  have "find_session fd ?st (de_seq ?e) = Some ?e"
    using find_session_dir [OF dev _ d(1)] log_invD(3) [OF finish_inv [OF dev inv]] d(2) by (simp add: dir_ok_def running_def)
  then show ?thesis using e by (simp add: session_samples_def)
qed

section \<open>From the sensor to the host\<close>

text \<open>C4: No sample is reordered, invented or duplicated on its way from the coprocessor to the flash, and
  none is lost uncounted. While a session runs, under any events that do not end it (everything but the
  turn of a stop or erase command, and a disconnect unless the session is detached), the records written since, followed by what is staged and what is in the shared ring, are
  what was staged and in the ring at the start and what the coprocessor published since, in order,
  apart from the samples the drop counter of the log counts.\<close>

theorem samples_flow_in_order:
  assumes "list_all (\<lambda>(p, ev). dir_dev (pf_flash p) img) evs" "recording_run sp evs r" "app_inv (core r)"
    and "log_inv img (a_log (core r)) hist" "active (a_log (core r))" "ring_ok (a_sh (core r))"
    and "room_for (length evs) hist (core r)"
  shows "let a = core r; a' = core (robot_run sp evs r) in
    \<exists>recd k. log_inv img (a_log a') (hist @ recd) \<and> same_session (a_log a) (a_log a') \<and>
      subseq (recd @ pending a') (pending a @ published sp evs r) \<and>
      k + length (recd @ pending a') = length (pending a @ published sp evs r) \<and>
      log_dropped (a_log a') = log_dropped (a_log a) + of_nat k"
  using run_flows [OF assms] by (auto simp: flows_def Let_def)

text \<open>A session from its start until everything is written: closed then, a dump of it over a link that
  serves it gives the host what was in the shared ring at the start and what was published since.\<close>

lemma recorded_session:
  assumes dev: "dir_dev fd img" and evs: "list_all (\<lambda>(p, ev). pf_flash p = fd) evs" "recording_run sp evs r"
    and inv: "log_inv img (a_log (core r)) hist" "app_inv (core r)" "ring_ok (a_sh (core r))"
    and open1: "active (a_log (core r))" "staged (a_log (core r)) = []" "log_dropped (a_log (core r)) = 0"
      "unat (cur_start (a_log (core r))) = length hist"
    and room: "room_for (length evs) hist (core r)"
    and xs: "xs = sample_queue r @ published sp evs r"
    and caught: "l = a_log (core (robot_run sp evs r))" "pending (core (robot_run sp evs r)) = []" "log_dropped l = 0"
    and link: "link_ok env" "16 * length xs \<le> unat len"
  shows "active l \<and>
    (\<exists>ps. dump_serve fd (\<lambda>_. stop_finish fd l) env (cur_seq (a_log (core r)), 0, len) = Some (ps, DDone) \<and>
      unpack_records (concat (map host_bytes ps)) = map host_sample (drop (length xs - CAP) xs))"
proof -
  let ?a = "core r" and ?a' = "core (robot_run sp evs r)"
  have "list_all (\<lambda>(p, ev). dir_dev (pf_flash p) img) evs"
    using evs(1) dev by (auto simp: list_all_iff)
  then obtain recd where f: "flows img hist ?a (published sp evs r) recd ?a'"
    and few: "length (published sp evs r) \<le> length evs"
    using run_flows [OF _ evs(2) inv(2,1) open1(1) inv(3) room] by blast
  have way: "pending ?a @ published sp evs r = xs" by (simp add: pending_def open1(2) xs sample_queue_def)
  have inv': "log_inv img l (hist @ recd)" and sess: "same_session (a_log ?a) l" and sub: "subseq recd xs"
    using f by (simp_all only: flows_def caught(1,2) way append_Nil2)
  obtain k where k: "k + length recd = length xs" "of_nat k = (0 :: u32)"
    using f unfolding flows_def way caught(2) caught(1) [symmetric] append_Nil2 caught(3) open1(3) add_0 by metis
  have small: "length hist + length xs < 2 ^ 28"
    using room few by (simp add: room_for_def pending_def open1(2) xs sample_queue_def)
  then have "k < 2 ^ 32" using k(1) by simp
  then have "k = 0" using k(2) unat_of_nat_u32 [of k] by simp
  then have recd: "recd = xs" using sub k(1) by (intro subseq_same_length) simp_all
  have "session_samples fd (stop_finish fd l) (hist @ xs) (cur_seq (a_log ?a)) = drop (length xs - CAP) xs"
    using finished_samples [OF dev inv'] sess open1 by (simp add: same_session_def recd max_def)
  moreover have "log_inv img (stop_finish fd l) (hist @ xs)" using finish_inv [OF dev inv'] by (simp add: recd)
  ultimately show ?thesis
    using dump_gives_samples [OF dev _ _ link(1), where st = "stop_finish fd l" and hist = "hist @ xs" and sq = "cur_seq (a_log ?a)" and len = len]
      small link(2) sess open1(1) by (simp add: same_session_def)
qed

section \<open>A short session\<close>

text \<open>A robot that has just opened its first session. The sensor has a sample, the coprocessor takes it,
  the pump and the writer follow.\<close>

definition waiting_app :: "(nat \<Rightarrow> u8, unit) app_st" where
  "waiting_app = blank_app\<lparr>a_log := fst (short_started settings_boot 5)\<rparr>"

definition waiting_robot :: "(nat \<Rightarrow> u8, unit, u8 \<Rightarrow> u8) robot" where
  "waiting_robot = booted_robot\<lparr>core := waiting_app\<rparr>"

definition early_platform :: "(nat \<Rightarrow> u8, unit) platform" where
  "early_platform = quiet_platform\<lparr>pf_now := 0\<rparr>"

abbreviation short_events :: "((nat \<Rightarrow> u8, unit) platform \<times> robot_ev) list" where
  "short_events \<equiv> map (Pair early_platform) [EvDrdy, EvFlpr, EvPump, EvWriter]"

abbreviation first_sample :: imu_sample where
  "first_sample \<equiv> zero_sample\<lparr>s_seq16 := 1\<rparr>"

text \<open>The shared block with that sample published into an empty ring.\<close>

definition fed :: "imu_shared \<Rightarrow> imu_shared" where
  "fed sh = sh\<lparr>ring := (ring sh)[0 := first_sample], sh_head := 1\<rparr>"

definition fresh_ring :: "imu_shared \<Rightarrow> bool" where
  "fresh_ring sh \<longleftrightarrow> length (ring sh) = IMU_RING_N \<and> sh_head sh = 0 \<and> sh_tail sh = 0 \<and>
     magic sh = IMU_SHARED_MAGIC \<and> imu_ok sh \<noteq> 0"

lemma blank_fresh: "fresh_ring blank_shared"
  by (simp add: fresh_ring_def blank_shared_def)

lemma fed_queue:
  assumes "fresh_ring sh"
  shows "shared_queue sh = []" "shared_queue (fed sh) = [first_sample]" "shared_queue ((fed sh)\<lparr>sh_tail := 1\<rparr>) = []"
  using assms by (simp_all add: shared_queue_def ring_contents_def fresh_ring_def fed_def shared_idx_mod)

lemma first_publish:
  assumes "fresh_ring sh"
  shows "fst (flpr_loop reg_file_bus (sh, (flpr booted_robot)\<lparr>sensor := drdy_isr (sensor (flpr booted_robot))\<rparr>)) = fed sh"
proof -
  have "raw_sample (map (\<lambda>i. 0) [0..<14]) = zero_sample"
    by (simp add: raw_sample_def sign_extend_pair_def)
  moreover have "\<not> CFG_POLL_INTERVAL \<le> 1"
    by (simp add: word_le_nat_alt)
  ultimately show ?thesis
    using assms
    by (simp add: flpr_loop_def booted_robot_def drdy_isr_def drv_asm330lhh_wait_data_def sensor_boot_def
        drv_asm330lhh_read_def reg_read_def reg_file_bus_def flpr_publish_def fresh_ring_def fed_def
        shared_idx_mod Let_def)
qed

lemma fed_pump:
  assumes "fresh_ring sh" "a_sh a = fed sh"
  shows "a_log (pump_thread p a) = imu_log_append [first_sample] (a_log a)"
    "a_sh (pump_thread p a) = (fed sh)\<lparr>sh_tail := 1\<rparr>"
proof -
  have f: "magic (fed sh) = IMU_SHARED_MAGIC" "imu_ok (fed sh) \<noteq> 0" "sh_head (fed sh) = 1" "sh_tail (fed sh) = 0"
    "pump_chunk (fed sh) 0 1 = [first_sample]"
    using assms(1) by (simp_all add: fed_def fresh_ring_def pump_chunk_def shared_idx_mod)
  have "min (1 :: u32) 64 = 1" by simp
  then show "a_log (pump_thread p a) = imu_log_append [first_sample] (a_log a)"
    "a_sh (pump_thread p a) = (fed sh)\<lparr>sh_tail := 1\<rparr>"
    by (simp_all add: pump_thread_def assms(2) pump_pass_def f pump_drain.simps deliver_def Let_def)
qed

text \<open>The writer empties a log that holds just this sample.\<close>

lemma fed_writer:
  fixes cfg wall
  defines "l \<equiv> fst (writer_step ram_flash 0 (imu_log_append [first_sample] (fst (short_started cfg wall)), msg_boot))"
  shows "staged l = []" "log_dropped l = 0"
proof -
  obtain st where s: "short_started cfg wall = (st, msg_boot)" by (auto simp: short_started_def split_beta)
  have st: "log_inv (\<lambda>m. m) st []" "active st" "unat (stage_head st) = 0" "staged st = []"
    using short_start [of cfg wall] by (simp_all add: s staged_def ring_contents_def)
  have "log_dropped st = 0"
    using start_dir [OF ram_flash_dir_dev, of "log_boot (\<lambda>_. 0)" cfg wall] s
    by (auto simp: short_started_def log_boot_def)
  moreover have "log_dropped (imu_log_append [first_sample] st) = log_dropped st"
    using append_fold_staged [OF log_invD(2) [OF st(1)], of "[first_sample]"] st by (simp add: imu_log_append_def)
  ultimately show "log_dropped l = 0" by (simp add: l_def s writer_step_frame)
  have "l = fst (log_run ram_flash [LAppend [first_sample], LDrain 0] (short_started cfg wall))"
    by (simp add: l_def s)
  then show "staged l = []" using short_session [of first_sample cfg wall] by simp
qed

lemma waiting_facts:
  "app_inv (core waiting_robot)" "ring_ok (a_sh (core waiting_robot))" "sample_queue waiting_robot = []"
  "a_log (core waiting_robot) = snd (imu_log_start ram_flash settings_boot 5 (log_boot (\<lambda>_. 0)))"
  "room_for (Suc (length short_events)) [] (core waiting_robot)" "active (a_log (core waiting_robot))"
  "log_inv (\<lambda>m. m) (a_log (core waiting_robot)) []"
proof -
  note st = short_start [of settings_boot 5]
  have staged: "staged (fst (short_started settings_boot 5)) = []"
    using st by (simp add: staged_def ring_contents_def)
  show "app_inv (core waiting_robot)"
    by (simp add: waiting_robot_def waiting_app_def app_inv_def adapt_ok_def stream_boot_def pwm_ok_def pwm_boot_def pot_boot_def)
      (simp add: blank_app_def app_boot_def led_ok_def led_boot_def)
  show "ring_ok (a_sh (core waiting_robot))"
    by (simp add: waiting_robot_def waiting_app_def ring_ok_def blank_shared_def)
  show "sample_queue waiting_robot = []"
    by (simp add: sample_queue_def waiting_robot_def waiting_app_def fed_queue(1) [OF blank_fresh])
  show "a_log (core waiting_robot) = snd (imu_log_start ram_flash settings_boot 5 (log_boot (\<lambda>_. 0)))"
    by (simp add: waiting_robot_def waiting_app_def short_started_def)
  show "room_for (Suc (length short_events)) [] (core waiting_robot)"
    using st staged by (simp add: room_for_def waiting_robot_def waiting_app_def pending_def fed_queue(1) [OF blank_fresh])
  show "active (a_log (core waiting_robot))" "log_inv (\<lambda>m. m) (a_log (core waiting_robot)) []"
    using st by (simp_all add: waiting_robot_def waiting_app_def)
qed

lemma early_flash: "pf_flash early_platform = ram_flash" "pf_now early_platform = 0"
  by (simp_all add: early_platform_def quiet_platform_def)

lemma waiting_run:
  defines "r' \<equiv> robot_run reg_file_bus short_events waiting_robot"
  shows "pending (core r') = []" "log_dropped (a_log (core r')) = 0"
    "published reg_file_bus short_events waiting_robot = [first_sample]"
proof -
  let ?pub = "robot_step reg_file_bus (early_platform, EvFlpr) (robot_step reg_file_bus (early_platform, EvDrdy) waiting_robot)"
  let ?a = "waiting_app\<lparr>a_sh := fed blank_shared\<rparr>" and ?log = "fst (short_started settings_boot 5)"
  have pub: "core ?pub = ?a"
    using first_publish [OF blank_fresh] by (simp add: robot_step_cases waiting_robot_def waiting_app_def)
  note pump = fed_pump [OF blank_fresh, of ?a early_platform]
  have "a_msgs (pump_thread early_platform ?a) = msg_boot" by (simp add: pump_thread_def split_beta waiting_app_def)
  then have run: "a_log (core r') = fst (writer_step ram_flash 0 (imu_log_append [first_sample] ?log, msg_boot))"
    "a_sh (core r') = (fed blank_shared)\<lparr>sh_tail := 1\<rparr>"
    using pump
    by (simp_all add: r'_def robot_run_def robot_step_cases [of _ _ EvPump] robot_step_cases [of _ _ EvWriter] pub
        writer_thread_def split_beta early_flash) (simp_all add: waiting_app_def)
  show "pending (core r') = []" "log_dropped (a_log (core r')) = 0"
    using fed_writer by (simp_all add: pending_def run fed_queue [OF blank_fresh])
  show "published reg_file_bus short_events waiting_robot = [first_sample]"
    using fed_queue [OF blank_fresh]
    by (simp add: publishes_def sample_queue_def pub)
      (simp add: robot_step_cases waiting_robot_def waiting_app_def)
qed

text \<open>The same robot before a second start command, which its turn refuses.\<close>

definition eager_robot :: "(nat \<Rightarrow> u8, unit, u8 \<Rightarrow> u8) robot" where
  "eager_robot = booted_robot\<lparr>core := waiting_app\<lparr>cmd_msgq := [DEVICE_CMD_LOG DEVICE_LOG_OP_START]\<rparr>\<rparr>"

abbreviation eager_events :: "((nat \<Rightarrow> u8, unit) platform \<times> robot_ev) list" where
  "eager_events \<equiv> (early_platform, EvCommand) # short_events"

lemma eager_step: "robot_step reg_file_bus (early_platform, EvCommand) eager_robot = waiting_robot"
proof -
  have a: "active (a_log waiting_app)" "cmd_msgq waiting_app = []"
    using short_start [of settings_boot 5] by (simp_all add: waiting_app_def)
  have "waiting_app\<lparr>cmd_msgq := []\<rparr> = waiting_app" using a(2) by (metis app_st.surjective app_st.update_convs(15))
  then show ?thesis
    using a(1) by (simp add: robot_step_cases eager_robot_def waiting_robot_def cmd_thread_def exec_log_def log_start_def
        imu_log_start_def)
qed

lemma eager_run:
  "robot_run reg_file_bus eager_events eager_robot = robot_run reg_file_bus short_events waiting_robot"
  "published reg_file_bus eager_events eager_robot = [first_sample]"
  "recording_run reg_file_bus eager_events eager_robot"
proof -
  show "robot_run reg_file_bus eager_events eager_robot = robot_run reg_file_bus short_events waiting_robot"
    by (simp add: robot_run_def eager_step)
  have "publishes reg_file_bus (early_platform, EvCommand) eager_robot = []" by (simp add: publishes_def)
  then show "published reg_file_bus eager_events eager_robot = [first_sample]"
    using waiting_run(3) by (simp only: published.simps(2) [of _ "(early_platform, EvCommand)"] eager_step append_Nil)
  have "recording_run reg_file_bus short_events waiting_robot" by (simp add: recording_ev_def)
  then show "recording_run reg_file_bus eager_events eager_robot"
    by (simp only: recording_run.simps(2) [of _ "(early_platform, EvCommand)"] eager_step) (simp add: recording_ev_def eager_robot_def)
qed

lemma eager_facts:
  "app_inv (core eager_robot)" "ring_ok (a_sh (core eager_robot))" "sample_queue eager_robot = []"
  "a_log (core eager_robot) = snd (imu_log_start ram_flash settings_boot 5 (log_boot (\<lambda>_. 0)))"
  "room_for (length eager_events) [] (core eager_robot)" "active (a_log (core eager_robot))"
  "log_inv (\<lambda>m. m) (a_log (core eager_robot)) []" "pending (core eager_robot) = []"
proof -
  have c: "core eager_robot = (core waiting_robot)\<lparr>cmd_msgq := [DEVICE_CMD_LOG DEVICE_LOG_OP_START]\<rparr>"
    by (simp add: eager_robot_def waiting_robot_def)
  show "app_inv (core eager_robot)" using waiting_facts(1) by (simp add: c app_inv_def)
  show "pending (core eager_robot) = []"
    using short_start [of settings_boot 5]
    by (simp add: c pending_def waiting_robot_def waiting_app_def fed_queue(1) [OF blank_fresh] staged_def ring_contents_def)
  then show "room_for (length eager_events) [] (core eager_robot)"
    using waiting_facts(5) by (simp add: c room_for_def)
qed (use waiting_facts in \<open>simp_all add: eager_robot_def waiting_robot_def sample_queue_def\<close>)

theorem samples_flow_in_order_witness:
  "\<exists>recd. log_inv (\<lambda>m. m) (a_log (core (robot_run reg_file_bus eager_events eager_robot))) recd \<and>
     subseq recd [first_sample]"
proof -
  have ev: "list_all (\<lambda>(p, ev). dir_dev (pf_flash p) (\<lambda>m. m)) eager_events"
    using ram_flash_dir_dev by (simp add: early_platform_def quiet_platform_def)
  show ?thesis
    using samples_flow_in_order [OF ev eager_run(3) eager_facts(1,7,6,2,5)]
    unfolding Let_def eager_run(1,2) waiting_run(1) eager_facts(8) by auto
qed

end
