(* ===== verification/Session_Life.thy ===== *)
theory Session_Life
  imports Sample_Path Sensor_Reach
begin

text \<open>
  A log session from the start command to the download, as the host drives it: the commands come from
  the queue of the command thread, between them the robot does anything that does not end the session.
\<close>

section \<open>Start and stop\<close>

lemma start_command:
  assumes dev: "dir_dev (pf_flash p) img" and inv: "log_inv img (a_log a) hist" and idle: "\<not> active (a_log a)"
    and seq: "unat (seq_next (a_log a)) + 1 < 2 ^ 32"
    and cmd: "cmd_msgq a = DEVICE_CMD_LOG op # q" "op = DEVICE_LOG_OP_START \<or> op = DEVICE_LOG_OP_START_DETACHED"
  shows "log_inv img (a_log (cmd_thread p a)) hist" "active (a_log (cmd_thread p a))" "staged (a_log (cmd_thread p a)) = []"
    "log_dropped (a_log (cmd_thread p a)) = 0" "cur_seq (a_log (cmd_thread p a)) = seq_next (a_log a)"
    "unat (cur_start (a_log (cmd_thread p a))) = length hist" "stage_head (a_log (cmd_thread p a)) = stage_head (a_log a)"
    "ring_ok (a_sh (cmd_thread p a)) = ring_ok (a_sh a)" "shared_queue (a_sh (cmd_thread p a)) = shared_queue (a_sh a)"
proof -
  let ?w = "session_wall_now p a"
  obtain l where st: "imu_log_start (pf_flash p) (a_settings a) ?w (a_log a) = (0, l)"
    "active l" "staged l = []" "log_dropped l = 0" "cur_seq l = seq_next (a_log a)" "cur_start l = total_abs (a_log a)"
    "stage_head l = stage_head (a_log a)"
    using start_dir [OF dev idle, of "a_settings a" ?w] by (auto simp: staged_def staging.contents_empty)
  have li: "log_inv img l hist" using start_inv [OF dev inv seq, of "a_settings a" ?w] by (simp add: st(1))
  then have det: "log_inv img (imu_log_mark_detached l) hist"
    by (simp add: imu_log_mark_detached_def log_inv_def log_rel_def stage_ok_def dir_ok_stage)
  have "session_wall_now p (a\<lparr>cmd_msgq := q\<rparr>) = ?w" by (simp add: session_wall_now_def)
  then obtain a1 where run: "cmd_thread p a = session_on_log_started p a1" "a_sh a1 = a_sh a"
    "a_log a1 = l \<or> a_log a1 = imu_log_mark_detached l"
    using cmd st(1) by (auto simp: cmd_thread_def exec_log_def log_start_def)
  note fields = st(2-7) log_invD(5) [OF inv] li det
  show "log_inv img (a_log (cmd_thread p a)) hist" "active (a_log (cmd_thread p a))" "staged (a_log (cmd_thread p a)) = []"
    "log_dropped (a_log (cmd_thread p a)) = 0" "cur_seq (a_log (cmd_thread p a)) = seq_next (a_log a)"
    "unat (cur_start (a_log (cmd_thread p a))) = length hist" "stage_head (a_log (cmd_thread p a)) = stage_head (a_log a)"
    using run(3) fields by (auto simp: run(1) session_on_log_started_def imu_log_mark_detached_def staged_def)
  show "ring_ok (a_sh (cmd_thread p a)) = ring_ok (a_sh a)" "shared_queue (a_sh (cmd_thread p a)) = shared_queue (a_sh a)"
    by (simp_all add: run(1,2) session_on_log_started_def ring_ok_def shared_queue_def)
qed

text \<open>With nothing staged a stop does not wait.\<close>

lemma stop_command:
  assumes "cmd_msgq a = DEVICE_CMD_LOG DEVICE_LOG_OP_STOP # q" "active (a_log a)" "staged (a_log a) = []"
  shows "a_log (cmd_thread p a) = stop_finish (pf_flash p) (a_log a)"
proof -
  have "length (staged (a_log a)) = unat (stage_head (a_log a) - stage_tail (a_log a))"
    by (simp add: staged_def staging.length_contents)
  then have "stage_head (a_log a) = stage_tail (a_log a)" using assms(3) by (simp add: unat_eq_0)
  then have "writer_flush 200 (pf_sleep p) (a_log a, m) = (a_log a, m)" for m
    by (simp add: eval_nat_numeral)
  then show ?thesis
    using assms(1,2) by (simp add: cmd_thread_def exec_log_def session_on_log_stopped_def log_stop_def imu_log_stop_def)
qed

section \<open>From the sensor to the host\<close>


section \<open>A short life\<close>

text \<open>A robot with an empty log; the host pressed start twice and then stop, and a sample is on its way.\<close>

definition ready_app :: "(nat \<Rightarrow> u8, unit) app_st" where
  "ready_app = blank_app\<lparr>a_log := log_boot (\<lambda>_. 0), cmd_msgq := [DEVICE_CMD_LOG DEVICE_LOG_OP_START,
     DEVICE_CMD_LOG DEVICE_LOG_OP_START, DEVICE_CMD_LOG DEVICE_LOG_OP_STOP]\<rparr>"

definition ready_robot :: "(nat \<Rightarrow> u8, unit, u8 \<Rightarrow> u8) robot" where
  "ready_robot = booted_robot\<lparr>core := ready_app\<rparr>"

definition begun_app :: "(nat \<Rightarrow> u8, unit) app_st" where
  "begun_app = cmd_thread early_platform ready_app"

abbreviation life_events :: "((nat \<Rightarrow> u8, unit) platform \<times> robot_ev) list" where
  "life_events \<equiv> (early_platform, EvCommand) # short_events"

definition begun_robot :: "(nat \<Rightarrow> u8, unit, u8 \<Rightarrow> u8) robot" where
  "begun_robot = ready_robot\<lparr>core := begun_app\<rparr>"

lemma begun:
  "a_log begun_app = fst (short_started (a_settings blank_app) 0)" "a_msgs begun_app = msg_boot"
  "cmd_msgq begun_app = [DEVICE_CMD_LOG DEVICE_LOG_OP_START, DEVICE_CMD_LOG DEVICE_LOG_OP_STOP]"
  "fresh_ring (a_sh begun_app)" "begun_robot = robot_step reg_file_bus (early_platform, EvCommand) ready_robot"
  "core begun_robot = begun_app" "flpr begun_robot = flpr booted_robot"
proof -
  obtain l where l: "imu_log_start ram_flash (a_settings blank_app) 0 (log_boot (\<lambda>_. 0)) = (0, l)"
    using start_dir [OF ram_flash_dir_dev, of "log_boot (\<lambda>_. 0)" "a_settings blank_app" 0] by (auto simp: log_boot_def)
  have "session_wall_now early_platform (blank_app\<lparr>a_log := lg, cmd_msgq := q\<rparr>) = 0" for lg q
    by (simp add: session_wall_now_def)
  then have b: "begun_app = session_on_log_started early_platform (ready_app\<lparr>cmd_msgq := tl (cmd_msgq ready_app), a_log := l\<rparr>)"
    using l by (simp add: begun_app_def ready_app_def cmd_thread_def exec_log_def log_start_def early_flash)
  show "a_log begun_app = fst (short_started (a_settings blank_app) 0)"
    by (simp add: b session_on_log_started_def short_started_def l)
  show "a_msgs begun_app = msg_boot"
    "cmd_msgq begun_app = [DEVICE_CMD_LOG DEVICE_LOG_OP_START, DEVICE_CMD_LOG DEVICE_LOG_OP_STOP]"
    by (simp_all add: b session_on_log_started_def) (simp_all add: ready_app_def)
  have "imu_ok (a_sh (session_imu_run_update early_platform a)) = imu_ok (a_sh a)" for a :: "(nat \<Rightarrow> u8, unit) app_st"
    by (simp add: session_imu_run_update_def update_decim_def publish_cfg_def Let_def)
  then show "fresh_ring (a_sh begun_app)"
    using blank_fresh by (simp add: b session_on_log_started_def fresh_ring_def ready_app_def)
  show "begun_robot = robot_step reg_file_bus (early_platform, EvCommand) ready_robot"
    "core begun_robot = begun_app" "flpr begun_robot = flpr booted_robot"
    by (simp_all add: robot_step_cases begun_robot_def begun_app_def ready_robot_def)
qed

lemma life:
  defines "r' \<equiv> robot_run reg_file_bus life_events begun_robot"
  shows "recording_run reg_file_bus life_events begun_robot"
    "published reg_file_bus life_events begun_robot = [first_sample]"
    "pending (core r') = []" "log_dropped (a_log (core r')) = 0"
    "cmd_msgq (core r') = [DEVICE_CMD_LOG DEVICE_LOG_OP_STOP]"
proof -
  let ?a = "begun_app\<lparr>cmd_msgq := [DEVICE_CMD_LOG DEVICE_LOG_OP_STOP]\<rparr>"
  let ?r = "robot_step reg_file_bus (early_platform, EvCommand) begun_robot"
  let ?pub = "robot_step reg_file_bus (early_platform, EvFlpr) (robot_step reg_file_bus (early_platform, EvDrdy) ?r)"
  have act: "active (a_log begun_app)" using short_start [of "a_settings blank_app" 0] by (simp add: begun(1))
  then have r: "?r = begun_robot\<lparr>core := ?a\<rparr>"
    by (simp add: robot_step_cases begun(6) cmd_thread_def begun(3) exec_log_def log_start_def imu_log_start_def)
  have pub: "core ?pub = ?a\<lparr>a_sh := fed (a_sh begun_app)\<rparr>"
    using first_publish [OF begun(4)] unfolding r by (simp add: robot_step_cases begun(7))
  let ?b = "pump_thread early_platform (?a\<lparr>a_sh := fed (a_sh begun_app)\<rparr>)"
  note pump = fed_pump [OF begun(4), of "?a\<lparr>a_sh := fed (a_sh begun_app)\<rparr>" early_platform]
  have b: "a_msgs ?b = msg_boot" "cmd_msgq ?b = [DEVICE_CMD_LOG DEVICE_LOG_OP_STOP]"
    by (simp_all add: pump_thread_def split_beta begun(2))
  have run: "core r' = writer_thread early_platform ?b"
    by (simp add: r'_def robot_run_def robot_step_cases [of _ _ EvPump] robot_step_cases [of _ _ EvWriter] pub)
  have log: "a_log (core r') = fst (writer_step ram_flash 0 (imu_log_append [first_sample]
      (fst (short_started (a_settings blank_app) 0)), msg_boot))" "a_sh (core r') = (fed (a_sh begun_app))\<lparr>sh_tail := 1\<rparr>"
    using pump b(1) by (simp_all add: run writer_thread_def split_beta early_flash begun(1))
  show "pending (core r') = []" "log_dropped (a_log (core r')) = 0"
    using fed_writer by (simp_all add: pending_def log fed_queue [OF begun(4)])
  show "cmd_msgq (core r') = [DEVICE_CMD_LOG DEVICE_LOG_OP_STOP]"
    using b(2) by (simp add: run writer_thread_def split_beta)
  have q: "sample_queue ?pub = [first_sample]" using fed_queue [OF begun(4)] by (simp add: sample_queue_def pub)
  have q0: "sample_queue (robot_step reg_file_bus (early_platform, EvDrdy) ?r) = []"
    unfolding r using fed_queue [OF begun(4)] by (simp add: sample_queue_def robot_step_cases [of _ _ EvDrdy])
  show "published reg_file_bus life_events begun_robot = [first_sample]"
    using q q0 by (simp add: publishes_def)
  have "recording_ev EvCommand (core begun_robot)" by (simp add: begun(3,6) recording_ev_def)
  then show "recording_run reg_file_bus life_events begun_robot" by simp (simp add: recording_ev_def)
qed


end
