(* ===== verification/Array_Bounds.thy ===== *)
theory Array_Bounds
  imports Sample_Path
begin

text \<open>
  The static arrays of the application core and the shared ring: each keeps the size it was declared
  with, and every cursor into one stays inside, in every run of the robot. A list of the model stands
  for an array of the code, so this is what makes each \<open>xs ! i\<close> and \<open>xs[i := v]\<close> of the
  definitions an access the code may make.
\<close>

section \<open>Sizes\<close>

text \<open>The staging ring and the slot of the running session. No bound on the counters: they may wrap.\<close>

definition log_sizes :: "'f log_st \<Rightarrow> bool" where
  "log_sizes st \<longleftrightarrow> length (stage st) = STAGE_N \<and> unat (stage_head st - stage_tail st) \<le> STAGE_N \<and>
     cur_slot st < IMU_LOG_MAX_SESSIONS"

text \<open>The message queue, every line with room for its terminating zero, and the text ring.\<close>

definition msg_sizes :: "msg_st \<Rightarrow> bool" where
  "msg_sizes m \<longleftrightarrow> msg_inv m \<and> list_all (\<lambda>l. length l < MSG_LEN) (msgq m)"

definition arrays_ok :: "('f, 'b) app_st \<Rightarrow> bool" where
  "arrays_ok a \<longleftrightarrow> ring_ok (a_sh a) \<and> log_sizes (a_log a) \<and> msg_sizes (a_msgs a) \<and> fifo_ok (a_stream a) \<and>
     length (adv_name a) < 12 \<and> length (adv_mfg a) = 7"

text \<open>What runs while a stop sleeps are the other threads, which keep the sizes as well.\<close>

definition sleeps_ok :: "('f, 'b) platform \<Rightarrow> bool" where
  "sleeps_ok p \<longleftrightarrow> (\<forall>i l m. log_sizes l \<longrightarrow> msg_sizes m \<longrightarrow>
     log_sizes (fst (pf_sleep p i (l, m))) \<and> msg_sizes (snd (pf_sleep p i (l, m))))"

section \<open>The log and the messages\<close>

lemma ble_msg_sizes: "msg_sizes m \<Longrightarrow> msg_sizes (ble_msg up line m)"
  using ble_msg_inv [of m up line]
  by (auto simp: msg_sizes_def ble_msg_def Let_def t2_store_frame list_all_iff dest!: set_update_subset_insert [THEN subsetD])

lemma log_sizes_cong:
  assumes "log_sizes st" "stage st' = stage st" "stage_head st' = stage_head st" "stage_tail st' = stage_tail st"
    and "cur_slot st' = cur_slot st"
  shows "log_sizes st'"
  using assms by (simp add: log_sizes_def)

lemma append_one_sizes:
  assumes "log_sizes st"
  shows "log_sizes (append_one x st)"
proof (cases "stage_head st - stage_tail st \<ge> of_nat STAGE_N")
  case False
  then have "unat (stage_head st - stage_tail st) < STAGE_N" by (simp add: word_le_nat_alt)
  then have "unat (stage_head st + 1 - stage_tail st) \<le> STAGE_N"
    using staging.fill_push [of "stage_head st" "stage_tail st"] by simp
  then show ?thesis using assms by (simp add: append_one_def log_sizes_def)
qed (use assms in \<open>simp add: append_one_def log_sizes_def\<close>)

lemma append_sizes: "log_sizes st \<Longrightarrow> log_sizes (imu_log_append xs st)"
proof -
  have "log_sizes st \<Longrightarrow> log_sizes (fold append_one xs st)" by (induction xs arbitrary: st) (simp_all add: append_one_sizes)
  then show "log_sizes st \<Longrightarrow> log_sizes (imu_log_append xs st)" by (simp add: imu_log_append_def)
qed

lemma consume_sizes:
  "log_sizes (fst s) \<and> msg_sizes (snd s) \<Longrightarrow>
   log_sizes (fst (consume_slot fd up fl i s)) \<and> msg_sizes (snd (consume_slot fd up fl i s))"
  by (auto simp: consume_slot_def split_beta ble_msg_sizes log_sizes_def split: option.split)

lemma refresh_sizes: "log_sizes st \<Longrightarrow> log_sizes (dir_refresh_current fd c st)"
  by (auto simp: dir_refresh_current_def log_sizes_def split: option.split)

lemma invalidate_sizes:
  assumes "log_sizes (fst s) \<and> msg_sizes (snd s)"
  shows "log_sizes (fst (invalidate_consumed fd up s)) \<and> msg_sizes (snd (invalidate_consumed fd up s))"
proof -
  have "log_sizes (fst s) \<and> msg_sizes (snd s) \<Longrightarrow>
    log_sizes (fst (fold (consume_slot fd up fl) is s)) \<and> msg_sizes (snd (fold (consume_slot fd up fl) is s))" for fl "is" s
    by (induction "is" arbitrary: s) (simp_all add: consume_sizes)
  then show ?thesis using assms by (simp add: invalidate_consumed_def)
qed

lemma writer_step_sizes:
  assumes "log_sizes (fst s)" "msg_sizes (snd s)"
  shows "log_sizes (fst (writer_step fd up s)) \<and> msg_sizes (snd (writer_step fd up s))"
proof -
  obtain st ms where s: "s = (st, ms)" by force
  have n: "unat (drain_count st) \<le> unat (stage_head st - stage_tail st)"
    using drain_count_bounds(1) [of st] .
  have "unat (stage_head st - (stage_tail st + drain_count st)) = unat (stage_head st - stage_tail st) - unat (drain_count st)"
    using n by (metis diff_diff_add unat_sub word_le_nat_alt)
  then have "unat (stage_head st - (stage_tail st + drain_count st)) \<le> STAGE_N"
    using assms(1) by (simp add: s log_sizes_def del: layout_values) linarith
  then have "log_sizes (drain_write fd st)" using assms(1) by (simp add: s log_sizes_def drain_write_def)
  then show ?thesis
    using assms invalidate_sizes [of "(dir_refresh_current fd False (drain_write fd st), ms)" fd up]
      refresh_sizes [of "drain_write fd st" fd False]
    by (simp add: s writer_step_def writer_drain_batch_split dir_maintenance_def)
qed

lemma flush_sizes:
  assumes "sleeps_ok p" "log_sizes (fst s)" "msg_sizes (snd s)"
  shows "log_sizes (fst (writer_flush n (pf_sleep p) s)) \<and> msg_sizes (snd (writer_flush n (pf_sleep p) s))"
  using assms(2,3)
proof (induction n arbitrary: s)
  case (Suc n)
  have "log_sizes (fst (pf_sleep p i s)) \<and> msg_sizes (snd (pf_sleep p i s))" for i
    using assms(1) Suc.prems by (cases s) (simp add: sleeps_ok_def)
  then show ?case using Suc by simp
qed simp

lemma stop_sizes:
  assumes "sleeps_ok p" "log_sizes (fst s)" "msg_sizes (snd s)"
  shows "log_sizes (fst (imu_log_stop fd (pf_sleep p) s)) \<and> msg_sizes (snd (imu_log_stop fd (pf_sleep p) s))"
proof -
  have "log_sizes l \<Longrightarrow> log_sizes (stop_finish fd l)" for l
    by (auto simp: stop_finish_def log_sizes_def intro!: refresh_sizes [unfolded log_sizes_def])
  then show ?thesis using flush_sizes [OF assms, of 200] assms by (simp add: imu_log_stop_def split_beta)
qed

lemma start_sizes: "log_sizes st \<Longrightarrow> log_sizes (snd (imu_log_start fd cfg wall st))"
  by (simp add: imu_log_start_def log_sizes_def Let_def split_beta word_mod_less_divisor)

section \<open>The stream\<close>

lemma fifo_cong:
  assumes "fifo_ok st" "sfifo st' = sfifo st" "sfifo_head st' = sfifo_head st"
    and "sfifo_tail st' = sfifo_tail st \<or> sfifo_tail st' = sfifo_head st"
  shows "fifo_ok st'"
  using assms by (auto simp: fifo_ok_def)

lemma decim_fifo: "fifo_ok st \<Longrightarrow> fifo_ok (ble_transport_stream_update_decim odr act now st)"
  by (erule fifo_cong) (simp_all add: ble_transport_stream_update_decim_def Let_def)

lemma enable_fifo: "fifo_ok st \<Longrightarrow> fifo_ok (ble_transport_stream_enable on odr act now st)"
  by (erule fifo_cong) (simp_all add: ble_transport_stream_enable_def ble_transport_stream_update_decim_def Let_def)

lemma packet_fifo:
  assumes "fifo_ok st" "tx_build now st = Some (n, pkt)"
  shows "fifo_ok (tx_done now' sent n st)"
proof (rule tx_done_drops(2) [OF assms(1)])
  have "n = ucast (min (sfifo_head st - sfifo_tail st) (ucast (stream_max st)))"
    using assms(2) by (simp add: tx_build_def Let_def split: if_splits)
  then have "unat n \<le> unat (min (sfifo_head st - sfifo_tail st) (ucast (stream_max st)))"
    by (simp add: unsigned_ucast_eq)
  then show "unat n \<le> length (stream_queue st)"
    by (auto simp: length_stream_queue min_def word_le_nat_alt split: if_splits)
qed

lemma sink_fifo: "fifo_ok st \<Longrightarrow> fifo_ok (stream_sink now xs st)"
  using sink_fold_queue [of st] by (simp add: stream_sink_def fifo_ok_def tick_frame)

section \<open>Each event keeps the sizes\<close>

lemma run_update_stream: "fifo_ok (a_stream a) \<Longrightarrow> fifo_ok (a_stream (session_imu_run_update p a))"
  by (simp add: session_imu_run_update_def update_decim_def decim_fifo Let_def)

lemma run_update_rest:
  "ring_ok (a_sh (session_imu_run_update p a)) = ring_ok (a_sh a)"
  "adv_name (session_imu_run_update p a) = adv_name a" "adv_mfg (session_imu_run_update p a) = adv_mfg a"
  by (simp_all add: ring_ok_def) (simp_all add: session_imu_run_update_def update_decim_def Let_def)

lemma run_update_arrays: "arrays_ok a \<Longrightarrow> arrays_ok (session_imu_run_update p a)"
  by (simp add: arrays_ok_def run_update_stream run_update_rest)

text \<open>A step outside the arrays.\<close>

lemma arrays_cong:
  assumes "arrays_ok a" "a_sh a' = a_sh a" "a_log a' = a_log a" "a_msgs a' = a_msgs a" "a_stream a' = a_stream a"
    and "adv_name a' = adv_name a" "adv_mfg a' = adv_mfg a"
  shows "arrays_ok a'"
  using assms by (simp add: arrays_ok_def)

lemma post_arrays: "arrays_ok a \<Longrightarrow> arrays_ok (post p line a)"
  by (simp add: arrays_ok_def post_def ble_msg_sizes)

lemma conn_params_arrays: "arrays_ok a \<Longrightarrow> arrays_ok (ble_conn_request_params s a)"
  by (erule arrays_cong) (simp_all add: ble_conn_request_params_def)

lemma build_ad_arrays: "arrays_ok a \<Longrightarrow> arrays_ok (build_ad p a)"
  by (simp add: arrays_ok_def) (simp add: build_ad_def adv_name_of_def Let_def)

lemma enable_arrays: "arrays_ok a \<Longrightarrow> arrays_ok (stream_enable p on a)"
  by (simp add: arrays_ok_def stream_enable_def enable_fifo)

lemma log_stop_arrays: "sleeps_ok p \<Longrightarrow> arrays_ok a \<Longrightarrow> arrays_ok (log_stop p a)"
  using stop_sizes [of p "(a_log a, a_msgs a)" "pf_flash p"] by (simp add: log_stop_def arrays_ok_def split_beta)

lemma exec_log_arrays:
  assumes "sleeps_ok p" "arrays_ok a"
  shows "arrays_ok (exec_log p op a)"
proof -
  obtain ret a1 where st: "log_start p a = (ret, a1)" by force
  have 1: "arrays_ok a1"
    using assms(2) start_sizes [of "a_log a"] st by (auto simp: log_start_def arrays_ok_def split_beta)
  then have 2: "arrays_ok (a1\<lparr>a_log := imu_log_mark_detached (a_log a1)\<rparr>)"
    by (simp add: arrays_ok_def imu_log_mark_detached_def log_sizes_def)
  obtain l m where er: "imu_log_erase (pf_flash p) (pf_version p) (pf_sleep p) (a_log a, a_msgs a) = (l, m)" by force
  then have 3: "arrays_ok (a\<lparr>a_log := l, a_msgs := m\<rparr>)"
    using assms(2) stop_sizes [OF assms(1), of "(a_log a, a_msgs a)" "pf_flash p"]
    by (auto simp: imu_log_erase_def arrays_ok_def log_sizes_def split_beta)
  show ?thesis
    using assms 1 2 3
    by (simp add: exec_log_def st er session_on_log_started_def session_on_log_stopped_def run_update_arrays
        conn_params_arrays log_stop_arrays)
qed

lemma exec_volt_arrays: "arrays_ok a \<Longrightarrow> arrays_ok (exec_volt p mv a)"
proof -
  assume ok: "arrays_ok a"
  have "arrays_ok (a\<lparr>a_pot := pot\<rparr>)" "arrays_ok (a\<lparr>a_pot := pot, a_settings := st\<rparr>)" for pot st
    using ok by (rule arrays_cong; simp)+
  then show ?thesis by (simp add: exec_volt_def split_beta Let_def post_arrays)
qed

lemma cmd_thread_arrays:
  assumes "sleeps_ok p" "arrays_ok a"
  shows "arrays_ok (cmd_thread p a)"
proof (cases "cmd_msgq a")
  case (Cons c cs)
  have "arrays_ok (a\<lparr>cmd_msgq := cs\<rparr>)" using assms(2) by (rule arrays_cong) simp_all
  then show ?thesis using assms(1) Cons by (cases c) (simp_all add: cmd_thread_def exec_volt_arrays exec_log_arrays)
qed (use assms in \<open>simp add: cmd_thread_def\<close>)

lemma gatt_write_arrays:
  assumes "arrays_ok a"
  shows "arrays_ok (gatt_write p c offset buf a)"
proof -
  have keep: "arrays_ok a'" if "a_sh a' = a_sh a" "a_log a' = a_log a" "a_msgs a' = a_msgs a" "a_stream a' = a_stream a"
    "adv_name a' = adv_name a" "adv_mfg a' = adv_mfg a" for a'
    using arrays_cong [OF assms that] .
  have submit: "arrays_ok (snd (device_cmd_submit cmd a))" for cmd
    by (rule keep) (simp_all add: device_cmd_submit_def)
  have prev: "arrays_ok (a\<lparr>a_stream := ble_stream_set_preview hz odr act now (a_stream a), a_settings := st\<rparr>)" for hz odr act now st
    using assms fifo_cong [of "a_stream a" "(a_stream a)\<lparr>stream_preview_hz := hz\<rparr>"]
    by (simp add: arrays_ok_def ble_stream_set_preview_def decim_fifo)
  show ?thesis
    by (cases c) (auto simp: gatt_write_def write_handlers Let_def split_beta session_time_sync_def submit
        intro!: keep run_update_arrays prev)
qed

lemma disconnect_arrays:
  assumes "sleeps_ok p" "arrays_ok a"
  shows "arrays_ok (disconnected p a)"
proof -
  define a2 where "a2 = (stream_enable p False (a\<lparr>cur_conn := False, conn_req := None, stream_active := False\<rparr>))
    \<lparr>a_dump := ble_transport_dump_abort (a_dump a)\<rparr>"
  have "arrays_ok (a\<lparr>cur_conn := False, conn_req := None, stream_active := False\<rparr>)"
    using assms(2) by (rule arrays_cong) simp_all
  then have "arrays_ok a2" unfolding a2_def by (rule arrays_cong [OF enable_arrays]) simp_all
  then have "arrays_ok (session_imu_run_update p (if \<not> imu_log_detached (a_log a2) then log_stop p a2 else a2))"
    using assms(1) by (simp add: run_update_arrays log_stop_arrays)
  then show ?thesis
    by (rule arrays_cong) (simp_all add: disconnected_def session_on_disconnect_def a2_def Let_def)
qed

lemma pump_arrays:
  assumes "arrays_ok a"
  shows "arrays_ok (pump_thread p a)"
proof -
  obtain sh dr cs l st where sh: "sh = a_sh a \<or> sh = (a_sh a)\<lparr>sh_tail := sh_head (a_sh a)\<rparr>"
    and fold: "(l, st) = fold (deliver (pf_now p)) cs (a_log a, a_stream a)"
    and eq: "pump_thread p a = a\<lparr>a_sh := sh, drained_total := dr, a_log := l, a_stream := st\<rparr>"
    by (rule pump_frame)
  have "log_sizes (fst s) \<and> fifo_ok (snd s) \<Longrightarrow>
    log_sizes (fst (fold (deliver now) cs s)) \<and> fifo_ok (snd (fold (deliver now) cs s))" for now cs s
    by (induction cs arbitrary: s) (simp_all add: deliver_def append_sizes sink_fifo)
  from this [of "(a_log a, a_stream a)" "pf_now p" cs] have "log_sizes l \<and> fifo_ok st"
    using assms unfolding fold [symmetric] by (simp add: arrays_ok_def)
  then show ?thesis using assms sh by (auto simp: eq arrays_ok_def ring_ok_def)
qed

lemma tx_message_sizes:
  assumes "msg_sizes m" "tx_message m = Some (l, m')"
  shows "msg_sizes m'"
proof -
  have "msgq_tail m \<noteq> msgq_head m" and m': "m' = m\<lparr>msgq_tail := msgq_tail m + 1\<rparr>"
    using assms(2) by (auto simp: tx_message_def split: if_splits)
  then have "unat (msgq_head m - (msgq_tail m + 1)) = unat (msgq_head m - msgq_tail m) - 1"
    by (metis diff_diff_add right_minus_eq unat_minus_one)
  moreover have "unat (msgq_head m - msgq_tail m) \<le> MSGQ_N" using assms(1) by (simp add: msg_sizes_def msg_inv_def)
  ultimately have "unat (msgq_head m - (msgq_tail m + 1)) \<le> MSGQ_N" by linarith
  then show ?thesis using assms(1) by (simp add: m' msg_sizes_def msg_inv_def)
qed

lemma core_step_arrays:
  assumes "sleeps_ok p" "arrays_ok a"
  shows "arrays_ok (core_step p ev a)"
proof -
  have keep: "arrays_ok a'" if "a_sh a' = a_sh a" "a_log a' = a_log a" "a_msgs a' = a_msgs a" "a_stream a' = a_stream a"
    "adv_name a' = adv_name a" "adv_mfg a' = adv_mfg a" for a'
    using arrays_cong [OF assms(2) that] .
  note ok = assms(2) [unfolded arrays_ok_def]
  show ?thesis
  proof (cases ev)
    case (EvCcc ccc)
    have "arrays_ok ((stream_enable p on a)\<lparr>stream_active := x\<rparr>)" for on x
      by (rule arrays_cong [OF enable_arrays [OF assms(2)]]) simp_all
    then show ?thesis using EvCcc
      by (simp add: stream_ccc_changed_def session_set_stream_active_def Let_def run_update_arrays)
  next
    case (EvConnected err)
    have "arrays_ok (ble_conn_request_params False (a\<lparr>advertising := False, cur_conn := True\<rparr>))"
      by (intro conn_params_arrays keep) simp_all
    moreover have "arrays_ok (a\<lparr>advertising := False, adv_restart := True\<rparr>)" by (intro keep) simp_all
    ultimately show ?thesis using EvConnected by (simp add: connected_def Let_def)
  next
    case EvAdvRestart
    have "arrays_ok (a\<lparr>adv_restart := False\<rparr>)" by (intro keep) simp_all
    then have "arrays_ok (build_ad p (a\<lparr>adv_restart := False\<rparr>))" by (rule build_ad_arrays)
    moreover from this have "arrays_ok ((build_ad p (a\<lparr>adv_restart := False\<rparr>))\<lparr>advertising := True\<rparr>)"
      by (rule arrays_cong) simp_all
    ultimately show ?thesis using EvAdvRestart assms(2) by (simp add: restart_advertise_def Let_def)
  next
    case EvWriter
    then show ?thesis using writer_step_sizes [of "(a_log a, a_msgs a)" "pf_flash p" "pf_now p"] ok
      by (simp add: writer_thread_def arrays_ok_def split_beta)
  next
    case EvPersist
    then show ?thesis using ok by (simp add: persist_work_def arrays_ok_def log_sizes_def split_beta)
  next
    case EvTxMessage
    then show ?thesis using ok tx_message_sizes by (auto simp: arrays_ok_def split: option.split)
  next
    case (EvTxPacket sent)
    then show ?thesis using ok packet_fifo by (auto simp: arrays_ok_def split: option.split)
  next
    case (EvDump env)
    have "arrays_ok (a\<lparr>a_dump := d\<rparr>)" for d by (intro keep) simp_all
    then show ?thesis using EvDump assms(2) by (simp add: dump_thread_def Let_def post_arrays split: option.split)
  qed (use assms in \<open>auto simp: gatt_write_arrays cmd_thread_arrays disconnect_arrays pump_arrays intro!: keep\<close>)
qed

section \<open>Boot\<close>

lemma init_slot_sizes: "log_sizes st \<Longrightarrow> log_sizes (init_slot fd i st)"
  by (auto simp: init_slot_def log_sizes_def Let_def split_beta split: option.split)

lemma log_init_sizes: "log_sizes st \<Longrightarrow> log_sizes (snd (imu_log_init fd v st))"
proof -
  have "log_sizes s \<Longrightarrow> log_sizes (fold (init_slot fd) is s)" for "is" s
    by (induction "is" arbitrary: s) (simp_all add: init_slot_sizes)
  then show "log_sizes st \<Longrightarrow> log_sizes (snd (imu_log_init fd v st))"
    by (simp add: imu_log_init_def) (simp add: log_sizes_def)
qed

lemma boot_arrays:
  assumes "ring_ok sh"
  shows "arrays_ok (app_init be p (app_boot f b sh rail bridge))"
proof -
  let ?a = "app_boot f b sh rail bridge"
  define a5 where "a5 = (let a1 = (if fst (be_reset be) = 0 then ?a\<lparr>app_reset_cause := snd (be_reset be)\<rparr> else ?a);
      a2 = a1\<lparr>a_settings := settings_store_init (pf_crc32 p) (pf_flash p) (flash (a_log a1)) (a_settings a1)\<rparr>;
      a3 = a2\<lparr>a_led := snd (drv_led_init (fst (be_led be)) (snd (be_led be)) (a_led a2))\<rparr>;
      a4 = boot_motor be p (boot_digipot be p a3)
    in a4\<lparr>a_log := snd (imu_log_init (pf_flash p) (pf_version p) (a_log a4))\<rparr>)"
  define a6 where "a6 = snd (ble_interface_init (be_ble be) p a5)"
  have "log_sizes (log_boot f)" "msg_sizes msg_boot" "fifo_ok stream_boot"
    by (simp_all add: log_sizes_def log_boot_def msg_sizes_def msg_inv_def msg_boot_def fifo_ok_def stream_boot_def
        list_all_iff set_replicate_conv_if)
  then have "arrays_ok a5"
    using assms
    by (simp add: a5_def arrays_ok_def log_init_sizes Let_def boot_motor_def boot_digipot_def split_beta)
      (simp add: app_boot_def log_init_sizes)
  then have "arrays_ok (build_ad p a5)" "arrays_ok a5" by (simp_all add: build_ad_arrays)
  moreover from this(1) have "arrays_ok ((build_ad p a5)\<lparr>advertising := True\<rparr>)" by (rule arrays_cong) simp_all
  ultimately have "arrays_ok a6" by (simp add: a6_def ble_interface_init_def Let_def)
  then have "arrays_ok (post p m a6)" for m by (rule post_arrays)
  then have "arrays_ok (boot_led (post p m a6))" for m
    by (rule arrays_cong) (simp_all add: boot_led_def Let_def)
  moreover have "app_init be p ?a = boot_led (post p (boot_msg (pf_version p) (app_reset_cause a6)) a6)"
    by (simp add: app_init_def a6_def a5_def Let_def split_beta)
  ultimately show ?thesis by simp
qed

section \<open>Every run\<close>

lemma tick_arrays: "arrays_ok (snd s) \<Longrightarrow> arrays_ok (snd (health_tick p s))"
proof -
  assume ok: "arrays_ok (snd s)"
  have "arrays_ok (stream_set_preview p hz (snd s))" for hz
    using ok fifo_cong [of "a_stream (snd s)" "(a_stream (snd s))\<lparr>stream_preview_hz := hz\<rparr>"]
    by (simp add: arrays_ok_def stream_set_preview_def ble_stream_set_preview_def decim_fifo)
  then have ann: "arrays_ok (snd (health_announce p s))"
    using announce_core [of p s] ok by (auto simp: run_update_arrays)
  have loss: "arrays_ok (snd (health_losses p t))" if "arrays_ok (snd t)" for t
    using that by (simp add: health_losses_def Let_def split_beta post_arrays)
  show ?thesis
    using loss [OF ann] by (simp add: health_tick_def Let_def split_beta post_arrays split: option.split)
qed

lemma robot_step_arrays:
  assumes "sleeps_ok p" "arrays_ok (core r)"
  shows "arrays_ok (core (robot_step sp (p, ev) r))"
proof -
  have "ring_ok (fst (flpr_loop sp (a_sh (core r), flpr r)))"
    using flpr_loop_queue assms(2) unfolding arrays_ok_def by blast
  then show ?thesis
    using assms tick_arrays [of "(health r, core r)" p] core_step_arrays [OF assms]
    by (simp add: robot_step_cases) (simp add: arrays_ok_def)
qed

interpretation array_sizes: step_invariant "robot_step sp" "\<lambda>r. arrays_ok (core r)" "\<lambda>(p, ev). sleeps_ok p" for sp
  by unfold_locales (auto simp: robot_step_arrays)



end
