(* ===== verification/Power_Up.thy ===== *)
theory Power_Up
  imports Sensor_Reach
begin

text \<open>
  From power-up to idle: \<open>main\<close> of both cores as a whole and the launch of the coprocessor
  (\<open>src/main.c\<close>, \<open>app_run\<close> of \<open>src/app/app.c\<close>, \<open>src/imu/flpr_launch.c\<close>, \<open>main\<close> of
  \<open>flpr/src/main.c\<close>), what they are as runs of the robot, and where they lead together.
\<close>

section \<open>Launching the coprocessor\<close>

text \<open>\<open>flpr_launch\<close> is a sequence of accesses to memory and to the registers of two peripherals; \<open>bin\<close> is
  the binary the build embeds. The access functions are Nordic's.\<close>

abbreviation FLPR_EXEC_ADDR :: u32 where "FLPR_EXEC_ADDR \<equiv> 0x20028000"

datatype launch_access = CopyTo u32 "u8 list" | VprSecure bool | VprInitPc u32 | VprCpuRun bool

definition flpr_launch :: "u8 list \<Rightarrow> launch_access list" where
  "flpr_launch bin =
     [CopyTo FLPR_EXEC_ADDR bin, VprSecure True, VprInitPc FLPR_EXEC_ADDR, VprCpuRun True]"

text \<open>The core is released last, onto the first byte of a complete image.\<close>

lemma launch_order:
  assumes "flpr_launch bin = before @ VprCpuRun True # after"
  shows "after = [] \<and> CopyTo FLPR_EXEC_ADDR bin \<in> set before \<and> VprInitPc FLPR_EXEC_ADDR \<in> set before \<and>
    VprSecure True \<in> set before"
  using assms by (auto simp: flpr_launch_def Cons_eq_append_conv)

section \<open>The main programs\<close>

text \<open>The coprocessor: boot, then one pass of the loop per entry of the list, which says whether a data-ready
  interrupt came before it. A sensor that did not come up parks the core.\<close>

definition flpr_main :: "u32 \<Rightarrow> 'b spi_bus \<Rightarrow> bool list \<Rightarrow> imu_shared \<times> 'b sensor_st \<Rightarrow> imu_shared \<times> 'b flpr_st" where
  "flpr_main ver sp irqs s =
     (let (ret, sh, sn) = flpr_boot ver sp s;
          st = \<lparr>sensor = sn, sampled = 0, since_cfg_poll = 0\<rparr>
      in if ret < 0 then (sh, st) else fold (flpr_pass sp) irqs (sh, st))"

text \<open>The application: the passes of the endless loop of \<open>app_run\<close>, one per second, each with the platform
  as it is then.\<close>

definition app_run :: "('f, 'b) platform list \<Rightarrow> ('f, 'b) app_st \<Rightarrow> health_st \<times> ('f, 'b) app_st" where
  "app_run ps a = fold health_tick ps (health_boot, a)"

definition app_main ::
  "boot_env \<Rightarrow> ('f, 'b) platform \<Rightarrow> ('f, 'b) platform list \<Rightarrow> ('f, 'b) app_st \<Rightarrow> health_st \<times> ('f, 'b) app_st" where
  "app_main be p ps a = app_run ps (app_init be p a)"

text \<open>Either is a run of the robot in which nothing else happens.\<close>

lemma app_run_robot:
  "(\<lambda>r'. (health r', core r', flpr r')) (robot_run sp (map (\<lambda>p. (p, EvHealth)) ps) r) =
   (fst (fold health_tick ps (health r, core r)), snd (fold health_tick ps (health r, core r)), flpr r)"
proof (induction ps arbitrary: r)
  case (Cons p ps)
  show ?case
    using Cons.IH [of "robot_step sp (p, EvHealth) r"] by (simp add: robot_run_def robot_step_cases)
qed (simp add: robot_run_def)

definition irq_events :: "('f, 'b) platform \<Rightarrow> bool list \<Rightarrow> (('f, 'b) platform \<times> robot_ev) list" where
  "irq_events p irqs = concat (map (\<lambda>irq. map (Pair p) (if irq then [EvDrdy, EvFlpr] else [EvFlpr])) irqs)"

lemma flpr_passes_robot:
  "(\<lambda>r'. (a_sh (core r'), flpr r')) (robot_run sp (irq_events p irqs) r) =
   fold (flpr_pass sp) irqs (a_sh (core r), flpr r)"
proof (induction irqs arbitrary: r)
  case (Cons irq irqs)
  let ?r = "robot_run sp (irq_events p [irq]) r"
  have "(a_sh (core ?r), flpr ?r) = flpr_pass sp irq (a_sh (core r), flpr r)"
    by (simp add: irq_events_def robot_run_def robot_step_cases flpr_pass_def)
  then show ?case
    using Cons.IH [of ?r] by (simp add: irq_events_def robot_run_def)
qed (simp add: irq_events_def robot_run_def)

section \<open>Idle\<close>

lemma app_init_still:
  "a_sh (app_init be p a) = a_sh a" "stream_active (app_init be p a) = stream_active a"
  by (simp_all add: app_init_def boot_led_def ble_interface_init_def boot_motor_def boot_digipot_def Let_def split_beta)

lemma init_slot_active: "active (init_slot fd i st) = active st"
  by (simp add: init_slot_def Let_def split_beta split: option.split)

lemma log_init_active: "active (snd (imu_log_init fd v st)) = active st"
proof -
  have "active (fold (init_slot fd) is s) = active s" for "is" s
    by (induction "is" arbitrary: s) (simp_all add: init_slot_active)
  then show ?thesis by (simp add: imu_log_init_def)
qed

lemma app_init_active: "active (a_log (app_init be p a)) = active (a_log a)"
  by (simp add: app_init_def boot_led_def ble_interface_init_def boot_motor_def boot_digipot_def Let_def split_beta
      log_init_active)

lemma tick_announces:
  assumes "magic (a_sh a) = IMU_SHARED_MAGIC"
  shows "flpr_announced (fst (health_tick p (health_boot, a)))"
    "\<exists>hz. a_sh (snd (health_tick p (health_boot, a))) = a_sh (session_imu_run_update p (stream_set_preview p hz a))"
proof -
  have "flpr_announced (fst (health_announce p (health_boot, a)))"
    using assms by (simp add: health_announce_def health_boot_def)
  then show "flpr_announced (fst (health_tick p (health_boot, a)))"
    by (simp add: health_tick_def health_losses_def Let_def split_beta split: option.split)
  have "\<exists>hz. snd (health_announce p (health_boot, a)) = session_imu_run_update p (stream_set_preview p hz a)"
    using assms by (auto simp: health_announce_def health_boot_def)
  then show "\<exists>hz. a_sh (snd (health_tick p (health_boot, a))) = a_sh (session_imu_run_update p (stream_set_preview p hz a))"
    using tick_msgs [of p "(health_boot, a)"] by auto
qed

lemma boot_quiet:
  assumes "spi_laws sp reg" "flpr_boot ver sp (sh0, sn0) = (0, sh, sn)"
  shows "\<not> drdy_sem sn"
proof -
  obtain r1 sn1 where i: "drv_asm330lhh_init sp sn0 = (r1, sn1)" by force
  obtain r2 sn2 where c: "drv_asm330lhh_configure sp IMU_ODR_833HZ 0 0 0 sn1 = (r2, sn2)" by force
  then have "drv_asm330lhh_configure sp IMU_ODR_833HZ 0 0 0 sn1 = (0, sn)"
    using assms(2) by (auto simp: flpr_boot_def i Let_def split: if_splits)
  then show ?thesis using configure_effect [OF assms(1)] by blast
qed

lemma apply_config_seq: "cfg_seq (fst (apply_config sp s)) = cfg_seq (fst s)"
  by (simp add: apply_config_def Let_def split_beta)

text \<open>C14: Power-up leads to idle. When the coprocessor has found its sensor and the application has booted and
  made the first pass of its monitor, the application has taken over the configuration, exactly one has
  been published since the boot of the coprocessor, it asks for no data, and the motor is off; the next
  pass of the coprocessor, whose wait times out because a sensor that is off gives no interrupt,
  acknowledges it, and when the chip took it the sensor is powered down.\<close>

theorem power_up_idle:
  assumes laws: "spi_laws sp reg" and boot: "flpr_boot ver sp (sh0, sn0) = (0, sh, sn)"
    and pins: "fst (be_rail be)" "0 \<le> snd (be_rail be)" "fst (be_drv be)" "0 \<le> snd (be_drv be)"
  shows "let (h, a) = app_main be p [q] (app_boot f b sh rail bridge);
      (sh', st) = flpr_main ver sp [] (sh0, sn0); (sh'', st') = flpr_pass sp False (a_sh a, st)
    in sh' = sh \<and> flpr_announced h \<and> \<not> session_imu_demand a \<and> settings_ok (a_settings a) \<and>
      \<not> rail_pin (a_rail a) \<and> \<not> sleep_pin (a_bridge a) \<and>
      cfg_seq sh'' = 2 \<and> cfg_content sh'' = 0 \<and> cfg_applied sh'' = 2 \<and>
      (cfg_status sh'' = 0 \<longrightarrow> reg (bus (sensor st')) REG_CTRL1_XL = 0 \<and>
        reg (bus (sensor st')) REG_CTRL2_G = 0 \<and> reg (bus (sensor st')) REG_INT1_CTRL = 0)"
proof -
  let ?a0 = "app_init be p (app_boot f b sh rail bridge)" and ?st = "\<lparr>sensor = sn, sampled = 0, since_cfg_poll = 0\<rparr>"
  obtain h a where tick: "health_tick q (health_boot, ?a0) = (h, a)" by force
  obtain sh'' st' where pass: "flpr_loop sp (a_sh a, ?st) = (sh'', st')" by force
  have sh: "magic sh = IMU_SHARED_MAGIC" "cfg_seq sh = 1" "cfg_applied sh = 1" "\<not> drdy_sem sn"
    using boot boot_quiet [OF laws boot] by (auto simp: flpr_boot_def Let_def split_beta)
  have a0: "a_sh ?a0 = sh" "\<not> session_imu_demand ?a0" "settings_ok (a_settings ?a0)"
    using app_invD(1) [OF boot_inv]
    by (simp_all add: app_init_still session_imu_demand_def imu_log_active_def app_init_active)
      (simp_all add: app_boot_def log_boot_def)
  have a: "flpr_announced h" "\<not> session_imu_demand a" "settings_ok (a_settings a)" "a_rail a = a_rail ?a0" "a_bridge a = a_bridge ?a0"
    using tick_announces(1) [of ?a0 q] health_tick_frame [of q "(health_boot, ?a0)"] a0 sh(1)
    by (simp_all add: tick session_imu_demand_def imu_log_active_def)
  obtain hz where "a_sh a = a_sh (session_imu_run_update q (stream_set_preview q hz ?a0))"
    using tick_announces(2) [of ?a0 q] a0(1) sh(1) by (auto simp: tick)
  then have cfg: "cfg_seq (a_sh a) = 2" "cfg_content (a_sh a) = 0" "cfg_applied (a_sh a) = 1"
    using a0 sh
    by (simp_all add: session_imu_run_update_def update_decim_def publish_cfg_def Let_def session_imu_demand_def imu_log_active_def)
  have wait: "flpr_loop sp (a_sh a, ?st) = (fst (apply_config sp (a_sh a, sn)), ?st\<lparr>sensor := snd (apply_config sp (a_sh a, sn))\<rparr>)"
    using sh(4) by (simp add: flpr_loop_def drv_asm330lhh_wait_data_def split_beta)
  then have sh'': "cfg_seq sh'' = 2" "cfg_content sh'' = 0" "cfg_applied sh'' = 2"
    using apply_config_frame [of sp "(a_sh a, sn)"] apply_config_applied [of sp "(a_sh a, sn)"] apply_config_seq [of sp "(a_sh a, sn)"]
      cfg by (auto simp: pass)
  have "runs_published reg (sensor st') sh''" if "cfg_status sh'' = 0"
    using loop_programs [OF laws _ _ pass that] cfg sh(4) by (simp add: polls_def)
  then have chip: "cfg_status sh'' = 0 \<Longrightarrow> reg (bus (sensor st')) REG_CTRL1_XL = 0 \<and>
        reg (bus (sensor st')) REG_CTRL2_G = 0 \<and> reg (bus (sensor st')) REG_INT1_CTRL = 0"
    using sh''(2) by (simp add: runs_published_def programmed_def ctrl1_val_def ctrl2_val_def int1_val_def accel_on_def gyro_on_def)
  show ?thesis
    using a boot_motor_off [OF pins, of p "app_boot f b sh rail bridge"] sh'' chip
    by (simp add: app_main_def app_run_def tick flpr_main_def boot flpr_pass_def pass)
qed

theorem power_up_idle_witness:
  "\<exists>sh sn. let (h, a) = app_main quiet_boot quiet_platform [quiet_platform] (app_boot (\<lambda>_. 0xFF) () sh
        \<lparr>rail_pin = False, rail_on = False\<rparr> \<lparr>sleep_pin = False, drv_awake = False\<rparr>);
      (sh', st) = flpr_main 0x00010203 reg_file_bus [] (blank_shared, sensor_boot ((\<lambda>_. 0)(REG_WHO_AM_I := WHO_AM_I_EXPECT)));
      (sh'', st') = flpr_pass reg_file_bus False (a_sh a, st)
    in sh' = sh \<and> flpr_announced h \<and> \<not> rail_pin (a_rail a) \<and> cfg_applied sh'' = 2"
proof -
  obtain ret sh sn where run: "flpr_boot 0x00010203 reg_file_bus
      (blank_shared, sensor_boot ((\<lambda>_. 0)(REG_WHO_AM_I := WHO_AM_I_EXPECT))) = (ret, sh, sn)"
    by (metis prod_cases3)
  then have "ret = 0"
    by (simp add: flpr_boot_def reg_file_init Let_def split_beta)
       (simp add: drv_asm330lhh_configure_def cfg_valid_def reg_write_def reg_file_bus_def Let_def split_beta)
  then have boot: "flpr_boot 0x00010203 reg_file_bus
      (blank_shared, sensor_boot ((\<lambda>_. 0)(REG_WHO_AM_I := WHO_AM_I_EXPECT))) = (0, sh, sn)" using run by simp
  have pins: "fst (be_rail quiet_boot)" "0 \<le> snd (be_rail quiet_boot)" "fst (be_drv quiet_boot)" "0 \<le> snd (be_drv quiet_boot)"
    by (simp_all add: quiet_boot_def)
  show ?thesis
    using power_up_idle [OF reg_file_laws boot pins, where p = quiet_platform and q = quiet_platform and f = "\<lambda>_. 0xFF" and b = "()"
        and rail = "\<lparr>rail_pin = False, rail_on = False\<rparr>" and bridge = "\<lparr>sleep_pin = False, drv_awake = False\<rparr>"]
    by (intro exI [of _ sh] exI [of _ sn]) (auto simp: split_beta Let_def)
qed

end
