(* ===== verification/Spec2Isabelle.thy ===== *)
theory Spec2Isabelle
  imports Sensor_Reach Policy_Gaps Settings_Refine Live_Stream Host_Requests Session_Life
    Array_Bounds Power_Up
begin

text \<open>
  A verified model of the Caterpillar robot firmware.

  THE PROGRAM. The robot is an nRF54L15 with two cores. The coprocessor (FLPR,
  \<open>flpr/src/main.c\<close>) owns the inertial sensor and writes its samples into a ring in shared memory
  (\<open>common/imu_shared.h\<close>). On the application core a pump thread (\<open>src/imu/imu_pump.c\<close>) drains that
  ring into the flash log (\<open>src/imu/imu_log.c\<close>) and into the live stream
  (\<open>src/ble/ble_transport.c\<close>). A GATT service (\<open>src/ble/ble_interface.c\<close>) exposes everything to a
  host: motor commands, settings, log control, dumps, the stream. Slow commands go through a queue with
  its own thread (\<open>src/app/device_cmd.c\<close>); \<open>src/app/session.c\<close> decides when the sensor is powered and
  what a disconnect does; \<open>src/app/app.c\<close> boots the robot and watches over it. The motor chain is a
  rail switch, a digipot that sets the rail voltage, a bridge and two PWM channels
  (\<open>src/drivers/\<close>). Settings live in two flash slots (\<open>src/settings/settings_store.c\<close>).

  THE THEORIES, bottom up, and the code each one translates.

  \<^item> Prelude: C integer types as words, error numbers, the little-endian codec, C formatting, CLAMP, and
    the locale \<open>step_invariant\<close>, by which an invariant of one call holds in every run; interpreted for the
    settings, the LED, the rate control, the credits and the robot as a whole.
    Spsc_Ring: the single-producer single-consumer rings, as the locale \<open>ring_index\<close>; interpreted for
    the shared ring, the staging ring of the log, the FIFO of the stream and the message queue.
    Flash: the flash controller, a parameter with the laws of Zephyr's flash API.
  \<^item> Imu_Shared: \<open>struct imu_sample\<close>, \<open>struct imu_shared\<close>. Imu_Sensor: the register driver of the
    sensor over an SPI bus that is a parameter. Flpr_Sampler: boot and loop of the coprocessor, and the
    configuration hand-shake at single memory accesses. Imu_Pump: the pump, and the shared ring at
    single memory accesses of both cores.
  \<^item> Settings_Store: registry, slots, load, set, persist, power cuts; the locale \<open>settings_api\<close> is what
    clients rely on. Settings_Refine: the store against an abstract machine.
  \<^item> Imu_Log: every operation of the log, from the source. Log_Directory and Log_Ring relate the
    flash bytes to a map of slots to sessions and to the history of all records ever written.
    Log_Runs: the log as a machine whose events are its operations, its invariant, and what a session
    stores. Log_Recovery: boot, the session list, reads.
  \<^item> Messages, Ble_Stream, Live_Stream: message lines, tier-2 text ring, decimation and adaptation,
    FIFO, packets, credits, a pass of the TX thread. Ble_Dump: the dump thread, over the locale
    \<open>byte_source\<close>, interpreted on the sessions of the log.
  \<^item> Binary32, Digipot: the rail voltage in single precision. Motor_Drivers: rail switch, bridge, PWM,
    rail measurement. Status_Led: the LED's patterns and its timer.
  \<^item> App_State: the state of the application core, one field per module, and the platform, a parameter
    (clock, buses, flash, what happens during a wait). Session, Device_Cmd, Ble_Gatt, Ble_Link, App: the
    modules of the same names, each handler as one definition over that state. Policy_Gaps: two
    places where the run-state policy falls short of its intention.
  \<^item> Host_Protocol: the packet layer of the host tools, \<open>scripts/protocol.py\<close>, and what it makes of the
    packets of the firmware. Host_Requests: the other direction, from a request of the host over the
    UUID to the handler.
  \<^item> Robot: all threads, callbacks and the coprocessor as events over one state, in any order.
    Robot_Sensor and Sensor_Reach: the power policy of the sensor over such runs. Sample_Path: the way of
    a sample over such runs, from the shared ring through staging and flash to the host. Session_Life: a
    session from the start command to the download. Array_Bounds: the sizes of all arrays and the
    indices into them over such runs.
  \<^item> Power_Up: \<open>src/main.c\<close>, \<open>app_run\<close>, \<open>src/imu/flpr_launch.c\<close> and \<open>main\<close> of the coprocessor as
    wholes, and the idle state they lead to.

  Definitions have the names of the C functions they translate; a part of a function has a name of its
  own. A module's static variables are a record; a function takes that record last and returns it
  last, after its result. Error returns are the same negative integers as in the code. A handler's
  refusal is \<open>Inl\<close> of an ATT error. C integers are words of their width, so that all wrap-around is
  the code's; time in milliseconds is \<open>int\<close>.

  WHAT THE LEMMAS SHOW.

  \<^item> The log (C2, C8, C15, C19, C20, C27, C28): what is appended in a session is what a read and a
    dump return, byte for byte, whatever the interleaving with the writer and after a power cut; nothing
    outside the region is written; the session list is sorted and every entry readable.
  \<^item> From the sensor to the host (C1, C4): between the command that starts a session and the one
    that stops it, and whatever the host, the stream, the other threads and the settings do meanwhile, the
    samples the coprocessor publishes reach the flash in order, every lost one is counted, and a dump
    gives the host the samples published. Disconnects are allowed when the session is detached, and
    commands other than stop and erase always.
  \<^item> The two cores (C9, C10, C24, C34): the ring loses and duplicates nothing, a configuration is
    only ever applied as a whole and within 32 passes.
  \<^item> The power policy (C5, C13, C23): the sensor runs exactly when somebody wants data, in every run
    without an erase; C33 shows why the erase is excluded.
  \<^item> Motor safety (C6, C21, C22, C26): nothing moves before the host says so; the voltage programmed
    is the nearest the digipot offers and every position on the way is allowed.
  \<^item> The robot as a whole (C11, C12, C14): the invariants of all modules hold in every run; every
    array keeps its declared size and every index lies inside; both cores come up into a state in which
    the motor is off and the sensor powered down.
  \<^item> Settings (C7, C18, C35, C36): the store implements an abstract machine of current and durable
    values and survives one power cut; C36 is the case it does not survive.
  \<^item> The wire (C3, C16, C17, C29, C30, C31, C32): the host reads what the firmware holds, the robot
    does what the host asks, and a refused write has no effect.
  \<^item> The LED (C39): the pattern that marks a reset, and then the heartbeat.
  \<^item> The behaviours in C33, C36, C37, C38 and C40 are defects of the code, stated as theorems.

  BOUNDS AND FUEL. A stop or erase of the log waits at most 200 sleeps for the writer, as in the code. A
  notification is tried 100 times, a dump chunk 500 times, as in the code. The packet loop of a TX pass
  has fuel 257: the FIFO holds 256 samples and every packet takes at least one; C16 shows that the fuel
  never runs out. The chunk loop of a dump has fuel one more than the number of bytes requested, and C25
  shows that this always suffices. The settings properties hold for generations below \<open>2 ^ 32 -
  1\<close>, those of the log for byte positions and staging counters below \<open>2 ^ 32\<close>; C37 is
  what happens beyond. The properties of the sample path ask in addition that the run is short enough for
  these counters not to wrap (\<open>room_for\<close>: fewer than \<open>2 ^ 28\<close> records in all,
  eleven hours at 6.66 kHz and eight months at 12.5 Hz).

  MODELLING CHOICES. An event is one uninterrupted piece of work of a thread, a callback or the
  coprocessor; where the interleaving of single accesses matters (the shared ring, the hand-shake) the
  theories above have a step relation at that grain. A handler reads the clock once. A
  \<open>float\<close> operation is the exact result rounded to binary32, one rounding per operation.
  Hardware and Zephyr's drivers are parameters: every property holds for all their answers, except where
  it names the law it needs. What the other threads do while a stop or an erase sleeps is a parameter as
  well; C12 asks of it only that it keeps the array sizes, as those threads do.

  NOT MODELLED. Nordic's access functions in \<open>src/imu/flpr_launch.c\<close> are only the names of
  the accesses, and the image it copies is a parameter. Console log lines and the request for the 2M PHY
  have no effect on the state. Of the host tools only the packet layer is modelled; the rest is user
  interface and radio I/O. Board and build files are configuration.
\<close>

end
